(* ===== verification/Go_Prelude.thy ===== *)
theory Go_Prelude
  imports Main "HOL-Library.Word" "HOL-Library.Char_ord" "HOL-Library.List_Lexorder"
    "HOL-Library.Multiset"
begin

text \<open>
  What every component of the development shares: the types that stand for Go's machine
  integers, byte slices and strings; the outcome of a Go call (a value, a returned error, a
  failed assertion or a runtime panic); \<^verbatim>\<open>sort.Search\<close> of Go's standard library with its
  contract; \<^verbatim>\<open>encoding/binary\<close>'s fixed width codecs; and the facts about strictly sorted
  lists that the component proofs use. Everything here is about the language and its standard
  library, except the types of failures, which follow \<^verbatim>\<open>x/error.go\<close>.
\<close>

section \<open>Types\<close>

type_synonym u8 = "8 word"
type_synonym u16 = "16 word"
type_synonym u32 = "32 word"
type_synonym u64 = "64 word"

text \<open>A Go string and a Go byte slice are both sequences of bytes.\<close>

type_synonym bytes = "string"

definition maxUint64 :: u64 where
  "maxUint64 = - 1"

text \<open>
  The ways a Go call can fail. \<open>Err\<close> is an error value handed back to the caller, \<open>Fatal\<close>
  ends the process through \<^verbatim>\<open>log.Fatalf\<close> (which \<^verbatim>\<open>x.AssertTrue\<close> and \<^verbatim>\<open>x.Check\<close> call),
  \<open>Panic\<close> is a runtime panic such as an index out of range.
\<close>

datatype go_err = Err string | Fatal string | Panic string

type_synonym 'a go = "go_err + 'a"

definition go_bind :: "'a go \<Rightarrow> ('a \<Rightarrow> 'b go) \<Rightarrow> 'b go" where
  "go_bind m f = (case m of Inl e \<Rightarrow> Inl e | Inr x \<Rightarrow> f x)"

text \<open>\<^verbatim>\<open>x.AssertTrue\<close>, \<^verbatim>\<open>x.AssertTruef\<close>: the process ends unless the condition holds.\<close>

definition assertTruef :: "bool \<Rightarrow> string \<Rightarrow> unit go" where
  "assertTruef b msg = (if b then Inr () else Inl (Fatal msg))"

lemma go_bind_Inr [simp]: "go_bind (Inr x) f = f x"
  by (simp add: go_bind_def)

lemma go_bind_Inl [simp]: "go_bind (Inl e) f = Inl e"
  by (simp add: go_bind_def)

lemma go_bind_eq_Inr: "go_bind m f = Inr y \<longleftrightarrow> (\<exists>x. m = Inr x \<and> f x = Inr y)"
  by (cases m) auto

lemma assertTruef_simps [simp]:
  "assertTruef True msg = Inr ()"
  "assertTruef False msg = Inl (Fatal msg)"
  by (simp_all add: assertTruef_def)

lemma assertTruef_eq_Inr [simp]: "assertTruef b msg = Inr u \<longleftrightarrow> b"
  by (simp add: assertTruef_def)

named_theorems go_simps \<open>equations that unfold the plumbing of failures\<close>

lemmas [go_simps] = go_bind_eq_Inr

section \<open>sort.Search\<close>

text \<open>
  The binary search of Go's package \<^verbatim>\<open>sort\<close>: the half-open interval \<open>[i, j)\<close> shrinks until it
  is empty. Its contract needs the predicate to be monotone on the indices.
\<close>

function sort_Search_loop :: "(nat \<Rightarrow> bool) \<Rightarrow> nat \<Rightarrow> nat \<Rightarrow> nat" where
  "sort_Search_loop f i j =
     (if i < j then
        let h = i + (j - i) div 2 in
        if \<not> f h then sort_Search_loop f (h + 1) j else sort_Search_loop f i h
      else i)"
  by pat_completeness auto
termination
  by (relation "measure (\<lambda>(f, i, j). j - i)") (auto simp: Let_def)

declare sort_Search_loop.simps [simp del]

definition sort_Search :: "nat \<Rightarrow> (nat \<Rightarrow> bool) \<Rightarrow> nat" where
  "sort_Search n f = sort_Search_loop f 0 n"

text \<open>The least index at which a monotone predicate holds, by linear search.\<close>

definition first_index :: "('a \<Rightarrow> bool) \<Rightarrow> 'a list \<Rightarrow> nat" where
  "first_index P xs = length (takeWhile (\<lambda>x. \<not> P x) xs)"

text \<open>The loop's invariant: the predicate fails below \<open>i\<close> and holds from \<open>j\<close> on.\<close>

definition search_inv :: "nat \<Rightarrow> (nat \<Rightarrow> bool) \<Rightarrow> nat \<Rightarrow> nat \<Rightarrow> bool" where
  "search_inv n f i j \<longleftrightarrow> i \<le> j \<and> j \<le> n \<and> (\<forall>k<i. \<not> f k) \<and> (\<forall>k. j \<le> k \<and> k < n \<longrightarrow> f k)"

lemma search_inv_upper: "search_inv n f i j \<Longrightarrow> i \<le> h \<Longrightarrow> h < j \<Longrightarrow> f h \<Longrightarrow>
    (\<And>k l. k \<le> l \<Longrightarrow> l < n \<Longrightarrow> f k \<Longrightarrow> f l) \<Longrightarrow> search_inv n f i h"
  unfolding search_inv_def by (metis (full_types) le_trans less_le_not_le order_less_le)

lemma search_inv_lower: "search_inv n f i j \<Longrightarrow> i \<le> h \<Longrightarrow> h < j \<Longrightarrow> \<not> f h \<Longrightarrow>
    (\<And>k l. k \<le> l \<Longrightarrow> l < n \<Longrightarrow> f k \<Longrightarrow> f l) \<Longrightarrow> search_inv n f (h + 1) j"
  unfolding search_inv_def
  by (metis Suc_eq_plus1 Suc_leI less_Suc_eq_le order_less_le_trans)

lemma sort_Search_loop_spec:
  assumes mono: "\<And>k l. k \<le> l \<Longrightarrow> l < n \<Longrightarrow> f k \<Longrightarrow> f l"
    and "search_inv n f i j"
  shows "search_inv n f (sort_Search_loop f i j) (sort_Search_loop f i j)"
  using assms(2)
proof (induction "j - i" arbitrary: i j rule: less_induct)
  case less
  show ?case
  proof (cases "i < j")
    case False
    with less.prems have "j = i" by (simp add: search_inv_def)
    with less.prems show ?thesis by (simp add: sort_Search_loop.simps [of f i i])
  next
    case True
    define h where "h = i + (j - i) div 2"
    have hb: "i \<le> h" "h < j" using True by (auto simp: h_def)
    have step: "sort_Search_loop f i j =
        (if \<not> f h then sort_Search_loop f (h + 1) j else sort_Search_loop f i h)"
      using True by (simp add: sort_Search_loop.simps [of f i j] h_def [symmetric] Let_def)
    show ?thesis
    proof (cases "f h")
      case True
      then have "search_inv n f i h" using search_inv_upper [OF less.prems hb] mono by blast
      then have "search_inv n f (sort_Search_loop f i h) (sort_Search_loop f i h)"
        using less.hyps [of h i] hb by simp
      with True step show ?thesis by simp
    next
      case False
      then have "search_inv n f (h + 1) j" using search_inv_lower [OF less.prems hb] mono by blast
      then have "search_inv n f (sort_Search_loop f (h + 1) j) (sort_Search_loop f (h + 1) j)"
        using less.hyps [of j "h + 1"] hb by simp
      with False step show ?thesis by simp
    qed
  qed
qed

lemma sort_Search_spec:
  assumes mono: "\<And>k l. k \<le> l \<Longrightarrow> l < n \<Longrightarrow> f k \<Longrightarrow> f l"
  shows "sort_Search n f \<le> n" "\<And>k. k < sort_Search n f \<Longrightarrow> \<not> f k"
    "sort_Search n f < n \<Longrightarrow> f (sort_Search n f)"
proof -
  have "search_inv n f 0 n" by (auto simp: search_inv_def)
  then have "search_inv n f (sort_Search n f) (sort_Search n f)"
    unfolding sort_Search_def using sort_Search_loop_spec [of n f 0 n] mono by blast
  then show "sort_Search n f \<le> n" "\<And>k. k < sort_Search n f \<Longrightarrow> \<not> f k"
      "sort_Search n f < n \<Longrightarrow> f (sort_Search n f)"
    by (auto simp: search_inv_def)
qed

text \<open>
  The form the components use: on a list whose elements satisfy the predicate from some
  position on, the binary search finds what a linear scan finds.
\<close>

lemma sort_Search_first_index:
  assumes "\<And>k l. k \<le> l \<Longrightarrow> l < length xs \<Longrightarrow> P (xs ! k) \<Longrightarrow> P (xs ! l)"
  shows "sort_Search (length xs) (\<lambda>i. P (xs ! i)) = first_index P xs"
proof -
  let ?r = "sort_Search (length xs) (\<lambda>i. P (xs ! i))"
  have le: "?r \<le> length xs"
    by (rule sort_Search_spec(1)) (rule assms)
  have before: "\<not> P (xs ! k)" if "k < ?r" for k
    using that by (rule sort_Search_spec(2) [rotated]) (rule assms)
  have at: "P (xs ! ?r)" if "?r < length xs"
    using that by (rule sort_Search_spec(3) [rotated]) (rule assms)
  have "takeWhile (\<lambda>x. \<not> P x) xs = take ?r xs"
  proof (rule takeWhile_eq_take_P_nth)
    fix i assume "i < ?r" "i < length xs"
    then show "\<not> P (xs ! i)" using before by simp
  next
    assume "?r < length xs"
    then show "\<not> \<not> P (xs ! ?r)" using at by simp
  qed
  then show ?thesis using le by (simp add: first_index_def)
qed

lemma first_index_le [simp]: "first_index P xs \<le> length xs"
  by (simp add: first_index_def length_takeWhile_le)

lemma first_index_take: "take (first_index P xs) xs = takeWhile (\<lambda>x. \<not> P x) xs"
  unfolding first_index_def by (rule takeWhile_eq_take [symmetric])

lemma first_index_drop: "drop (first_index P xs) xs = dropWhile (\<lambda>x. \<not> P x) xs"
  unfolding first_index_def by (rule dropWhile_eq_drop [symmetric])

lemma first_index_nth: "first_index P xs < length xs \<Longrightarrow> P (xs ! first_index P xs)"
  using nth_length_takeWhile [of "\<lambda>x. \<not> P x" xs] by (simp add: first_index_def)

section \<open>Strictly sorted lists\<close>

abbreviation ssorted :: "'a::linorder list \<Rightarrow> bool" where
  "ssorted xs \<equiv> sorted_wrt (<) xs"

lemma ssorted_distinct: "ssorted xs \<Longrightarrow> distinct xs"
  by (simp add: strict_sorted_iff)

lemma ssorted_sorted: "ssorted xs \<Longrightarrow> sorted xs"
  by (simp add: strict_sorted_iff)

lemma ssorted_set_unique: "ssorted xs \<Longrightarrow> ssorted ys \<Longrightarrow> set xs = set ys \<Longrightarrow> xs = ys"
  by (meson strict_sorted_equal)

lemma ssorted_filter: "ssorted xs \<Longrightarrow> ssorted (filter P xs)"
  by (rule sorted_wrt_filter)

lemma ssorted_nth_mono:
  "ssorted xs \<Longrightarrow> i < length xs \<Longrightarrow> j < length xs \<Longrightarrow> xs ! i < xs ! j \<longleftrightarrow> i < j"
  by (metis linorder_neqE_nat order_less_asym sorted_wrt_iff_nth_less order_less_irrefl)

text \<open>Binary search for a key in a list sorted on that key.\<close>

lemma sort_Search_sorted_ge:
  assumes "sorted (map f xs)"
  shows "sort_Search (length xs) (\<lambda>i. x \<le> f (xs ! i)) = first_index (\<lambda>y. x \<le> f y) xs"
  using assms
  by (intro sort_Search_first_index) (auto simp: sorted_iff_nth_mono intro: order_trans)

lemma sort_Search_sorted_gt:
  assumes "sorted (map f xs)"
  shows "sort_Search (length xs) (\<lambda>i. x < f (xs ! i)) = first_index (\<lambda>y. x < f y) xs"
  using assms
  by (intro sort_Search_first_index) (auto simp: sorted_iff_nth_mono intro: order_less_le_trans)

lemma sorted_dropWhile_filter:
  "sorted (map f xs) \<Longrightarrow> dropWhile (\<lambda>y. \<not> x < f y) xs = filter (\<lambda>y. x < f y) xs"
proof (induction xs)
  case (Cons y ys)
  show ?case
  proof (cases "x < f y")
    case True
    then have "\<forall>z \<in> set ys. x < f z" using Cons.prems by (auto intro: order_less_le_trans)
    with True show ?thesis by simp
  next
    case False
    with Cons show ?thesis by simp
  qed
qed simp

text \<open>
  A list strictly sorted on a key splits at a key into the elements below, the element with
  the key if there is one, and the elements above.
\<close>

lemma ssorted_key_split:
  assumes "ssorted (map f xs)"
  obtains (absent) ys zs where "xs = ys @ zs" "first_index (\<lambda>y. x \<le> f y) xs = length ys"
      "\<forall>y \<in> set ys. f y < x" "\<forall>z \<in> set zs. x < f z"
  | (present) ys p zs where "xs = ys @ p # zs" "first_index (\<lambda>y. x \<le> f y) xs = length ys"
      "f p = x" "\<forall>y \<in> set ys. f y < x" "\<forall>z \<in> set zs. x < f z"
proof -
  let ?ys = "takeWhile (\<lambda>y. \<not> x \<le> f y) xs"
  let ?zs = "dropWhile (\<lambda>y. \<not> x \<le> f y) xs"
  have split: "xs = ?ys @ ?zs" by simp
  have len: "first_index (\<lambda>y. x \<le> f y) xs = length ?ys" by (simp add: first_index_def)
  have below: "\<forall>y \<in> set ?ys. f y < x" by (auto dest: set_takeWhileD)
  have sz: "ssorted (map f ?zs)"
    using assms by (metis map_append sorted_wrt_append split)
  show thesis
  proof (cases ?zs)
    case Nil
    then have "\<forall>z \<in> set ?zs. x < f z" by (simp only: list.set) simp
    then show thesis by (rule absent [OF split len below])
  next
    case (Cons p zs)
    have ge: "x \<le> f p" using hd_dropWhile [of "\<lambda>y. \<not> x \<le> f y" xs] Cons by simp
    have above: "\<forall>z \<in> set zs. f p < f z" using sz Cons by simp
    show thesis
    proof (cases "f p = x")
      case True
      then show thesis using present [of ?ys p zs] split len below above Cons by auto
    next
      case False
      with ge have "x < f p" by simp
      then have "\<forall>z \<in> set ?zs. x < f z" using above unfolding Cons by auto
      then show thesis by (rule absent [OF split len below])
    qed
  qed
qed

section \<open>Signed 64-bit integers\<close>

text \<open>Go's \<^verbatim>\<open>int\<close> and \<^verbatim>\<open>int64\<close> are read off a word by \<open>sint\<close>.\<close>

lemma uint_less_64: "uint (w :: u64) < 2 ^ 64"
  using unsigned_less [of w] by simp

lemma sint_eq: "sint (w :: u64) = uint w - 2 ^ 64 * of_bool (bit w 63)"
proof -
  have "take_bit 64 (uint w) = uint w"
    using uint_less_64 [of w] by (simp add: take_bit_int_eq_self_iff)
  moreover have "sint w = signed_take_bit 63 (uint w)" by (simp add: sint_uint)
  moreover have "\<dots> = take_bit 64 (uint w) - 2 ^ 64 * of_bool (bit (uint w) 63)"
    using signed_take_bit_eq_take_bit_minus [of 63 "uint w"] by simp
  ultimately show ?thesis by (simp add: bit_uint_iff)
qed

lemma bit_63_iff: "bit (w :: u64) 63 \<longleftrightarrow> 2 ^ 63 \<le> unat w"
proof -
  have less: "unat w < 2 ^ 63 * Suc 1" using unsigned_less [of w, where 'a = nat] by simp
  have "bit w 63 \<longleftrightarrow> bit (unat w) 63" by (simp add: bit_unsigned_iff)
  also have "\<dots> \<longleftrightarrow> odd (unat w div 2 ^ 63)" by (simp only: bit_iff_odd)
  finally have eq: "bit w 63 \<longleftrightarrow> odd (unat w div 2 ^ 63)" .
  show ?thesis
  proof (cases "2 ^ 63 \<le> unat w")
    case True
    then have "unat w div 2 ^ 63 = 1" using less by (intro div_nat_eqI) (simp only: mult_1_right)
    with True eq show ?thesis by (metis odd_one)
  next
    case False
    then have "unat w div 2 ^ 63 = 0" by (intro div_less) (simp only: not_le)
    with False eq show ?thesis by (metis even_zero)
  qed
qed

lemma sint_unat: "sint (w :: u64) = int (unat w) - (if 2 ^ 63 \<le> unat w then 2 ^ 64 else 0)"
  unfolding sint_eq bit_63_iff by simp

lemma sint_nonneg: "0 \<le> sint (w :: u64) \<longleftrightarrow> unat w < 2 ^ 63"
  using uint_less_64 [of w] unfolding sint_unat by simp

lemma sint_nonneg_eq: "unat (w :: u64) < 2 ^ 63 \<Longrightarrow> sint w = int (unat w)"
  unfolding sint_unat by simp
lemma sint_word_of_nat: "k < 2 ^ 63 \<Longrightarrow> sint (word_of_nat k :: u64) = int k"
  by (subst sint_nonneg_eq) (simp_all add: unat_of_nat take_bit_nat_eq_self)

end
