(* ===== verification/Go_Heap.thy ===== *)
theory Go_Heap
  imports Go_Prelude
begin

text \<open>
  Go's \<^verbatim>\<open>container/heap\<close> on a slice: \<^verbatim>\<open>up\<close>, \<^verbatim>\<open>down\<close>, \<^verbatim>\<open>Push\<close>, \<^verbatim>\<open>Pop\<close> and \<^verbatim>\<open>Fix\<close>, with the
  element order given by a key, as the program's \<^verbatim>\<open>Less\<close> methods do. The locale \<open>min_queue\<close>
  states what a client may rely on (the contents as a multiset, the top a minimum); the slice
  operations are interpreted as an instance of it.
\<close>

section \<open>The operations\<close>

definition swap :: "'a list \<Rightarrow> nat \<Rightarrow> nat \<Rightarrow> 'a list" where
  "swap h i j = h[i := h ! j, j := h ! i]"

function heap_up :: "('a \<Rightarrow> 'k::linorder) \<Rightarrow> 'a list \<Rightarrow> nat \<Rightarrow> 'a list" where
  "heap_up key h j =
     (let i = (j - 1) div 2 in
      if i = j \<or> \<not> key (h ! j) < key (h ! i) then h
      else heap_up key (swap h i j) i)"
  by pat_completeness auto
termination
  by (relation "measure (\<lambda>(key, h, j). j)") auto

text \<open>The child that \<^verbatim>\<open>down\<close> compares with: the second one only when it is inside the heap and
  the first is not smaller.\<close>

definition down_child :: "('a \<Rightarrow> 'k::linorder) \<Rightarrow> 'a list \<Rightarrow> nat \<Rightarrow> nat \<Rightarrow> nat" where
  "down_child key h i n =
     (let j1 = 2 * i + 1; j2 = j1 + 1
      in if j2 < n \<and> \<not> key (h ! j1) < key (h ! j2) then j2 else j1)"

lemma down_child_bounds: "2 * i + 1 < n \<Longrightarrow> i < down_child key h i n \<and> down_child key h i n < n"
  by (auto simp: down_child_def Let_def)

function heap_down :: "('a \<Rightarrow> 'k::linorder) \<Rightarrow> 'a list \<Rightarrow> nat \<Rightarrow> nat \<Rightarrow> 'a list" where
  "heap_down key h i n =
     (if n \<le> 2 * i + 1 then h
      else
        let j = down_child key h i n
        in if \<not> key (h ! j) < key (h ! i) then h
           else heap_down key (swap h i j) j n)"
  by pat_completeness auto
termination
proof (relation "measure (\<lambda>(key, h, i, n). n - i)")
  fix key :: "'a \<Rightarrow> 'k::linorder" and h i n j
  assume "\<not> n \<le> 2 * i + 1" "j = down_child key h i n"
  then show "((key, swap h i j, j, n), key, h, i, n) \<in> measure (\<lambda>(key, h, i, n). n - i)"
    using down_child_bounds [of i n key h] by auto
qed simp

declare heap_up.simps [simp del] heap_down.simps [simp del]

definition heap_Push :: "('a \<Rightarrow> 'k::linorder) \<Rightarrow> 'a list \<Rightarrow> 'a \<Rightarrow> 'a list" where
  "heap_Push key h x = heap_up key (h @ [x]) (length h)"

definition heap_Pop :: "('a \<Rightarrow> 'k::linorder) \<Rightarrow> 'a list \<Rightarrow> 'a list" where
  "heap_Pop key h =
     (let n = length h - 1 in take n (heap_down key (swap h 0 n) 0 n))"

definition heap_Fix :: "('a \<Rightarrow> 'k::linorder) \<Rightarrow> 'a list \<Rightarrow> nat \<Rightarrow> 'a list" where
  "heap_Fix key h i = heap_up key (heap_down key h i (length h)) i"

section \<open>Heap order\<close>

definition heap_ordered :: "('a \<Rightarrow> 'k::linorder) \<Rightarrow> 'a list \<Rightarrow> nat \<Rightarrow> bool" where
  "heap_ordered key h n \<longleftrightarrow>
     (\<forall>k. 0 < k \<and> k < n \<longrightarrow> key (h ! ((k - 1) div 2)) \<le> key (h ! k))"

text \<open>Order everywhere but between \<open>i\<close> and its children, where \<open>i\<close> may be too large.\<close>

definition down_ordered :: "('a \<Rightarrow> 'k::linorder) \<Rightarrow> 'a list \<Rightarrow> nat \<Rightarrow> nat \<Rightarrow> bool" where
  "down_ordered key h i n \<longleftrightarrow>
     (\<forall>k. 0 < k \<and> k < n \<and> (k - 1) div 2 \<noteq> i \<longrightarrow> key (h ! ((k - 1) div 2)) \<le> key (h ! k)) \<and>
     (\<forall>k. 0 < k \<and> k < n \<and> (k - 1) div 2 = i \<and> 0 < i \<longrightarrow> key (h ! ((i - 1) div 2)) \<le> key (h ! k))"

text \<open>Order everywhere but between \<open>j\<close> and its parent, where \<open>j\<close> may be too small.\<close>

definition up_ordered :: "('a \<Rightarrow> 'k::linorder) \<Rightarrow> 'a list \<Rightarrow> nat \<Rightarrow> bool" where
  "up_ordered key h j \<longleftrightarrow>
     (\<forall>k. 0 < k \<and> k < length h \<and> k \<noteq> j \<longrightarrow> key (h ! ((k - 1) div 2)) \<le> key (h ! k)) \<and>
     (\<forall>k. 0 < k \<and> k < length h \<and> (k - 1) div 2 = j \<and> 0 < j \<longrightarrow>
        key (h ! ((j - 1) div 2)) \<le> key (h ! k))"

lemma length_swap [simp]: "length (swap h i j) = length h"
  by (simp add: swap_def)

lemma mset_swap_eq: "i < length h \<Longrightarrow> j < length h \<Longrightarrow> mset (swap h i j) = mset h"
  by (simp add: swap_def mset_swap)

lemma nth_swap: "i < length h \<Longrightarrow> j < length h \<Longrightarrow> k < length h \<Longrightarrow>
    swap h i j ! k = (if k = j then h ! i else if k = i then h ! j else h ! k)"
  by (auto simp: swap_def nth_list_update)

lemma heap_up_mset:
  "j < length h \<Longrightarrow> mset (heap_up key h j) = mset h \<and> length (heap_up key h j) = length h"
proof (induction key h j rule: heap_up.induct)
  case (1 key h j)
  let ?i = "(j - 1) div 2"
  show ?case
  proof (cases "?i = j \<or> \<not> key (h ! j) < key (h ! ?i)")
    case True
    then show ?thesis by (simp add: heap_up.simps [of key h j] Let_def)
  next
    case False
    have "?i < length (swap h ?i j)" using "1.prems" by simp
    with False "1.IH" [OF refl] "1.prems" show ?thesis
      by (auto simp: heap_up.simps [of key h j] Let_def mset_swap_eq)
  qed
qed

lemma heap_down_mset:
  "i < length h \<Longrightarrow> n \<le> length h \<Longrightarrow>
    mset (heap_down key h i n) = mset h \<and> length (heap_down key h i n) = length h \<and>
    drop n (heap_down key h i n) = drop n h"
proof (induction key h i n rule: heap_down.induct)
  case (1 key h i n)
  define j where "j = down_child key h i n"
  show ?case
  proof (cases "n \<le> 2 * i + 1 \<or> \<not> key (h ! j) < key (h ! i)")
    case True
    then show ?thesis by (auto simp: heap_down.simps [of key h i n] Let_def j_def)
  next
    case False
    then have jn: "i < j" "j < n" using down_child_bounds [of i n key h] by (auto simp: j_def)
    have step: "heap_down key h i n = heap_down key (swap h i j) j n"
      using False by (simp add: heap_down.simps [of key h i n] Let_def j_def)
    have "mset (heap_down key (swap h i j) j n) = mset (swap h i j) \<and>
        length (heap_down key (swap h i j) j n) = length (swap h i j) \<and>
        drop n (heap_down key (swap h i j) j n) = drop n (swap h i j)"
      using "1.IH" [OF _ j_def] False jn "1.prems" by simp
    moreover have "drop n (swap h i j) = drop n h"
      using jn by (simp add: swap_def)
    ultimately show ?thesis using step jn "1.prems" by (simp add: mset_swap_eq)
  qed
qed

lemma parent_cases: "0 < k \<Longrightarrow> (k - 1) div 2 = i \<longleftrightarrow> k = 2 * i + 1 \<or> k = 2 * i + (2::nat)"
  by linarith

lemma parent_less: "0 < k \<Longrightarrow> (k - 1) div 2 < (k::nat)"
  by linarith

text \<open>The child \<^verbatim>\<open>down\<close> picks is the smallest of the children.\<close>

lemma down_child_min:
  assumes "0 < k" "k < n" "(k - 1) div 2 = i"
  shows "key (h ! down_child key h i n) \<le> key (h ! k)"
  using assms parent_cases [of k i] by (auto simp: down_child_def Let_def)

lemma down_child_parent: "(down_child key h i n - 1) div 2 = i"
  by (simp add: down_child_def Let_def)

lemma down_ordered_step:
  assumes ord: "down_ordered key h i n" and n: "n \<le> length h" and i: "2 * i + 1 < n"
    and j: "j = down_child key h i n" and less: "key (h ! j) < key (h ! i)"
  shows "down_ordered key (swap h i j) j n"
proof -
  have jn: "i < j" "j < n" using down_child_bounds [OF i] j by auto
  have pj: "(j - 1) div 2 = i" unfolding j by (rule down_child_parent)
  have nth: "swap h i j ! k = (if k = j then h ! i else if k = i then h ! j else h ! k)"
    if "k < n" for k using that jn n by (simp add: nth_swap)
  show ?thesis
    unfolding down_ordered_def
  proof (intro conjI allI impI; elim conjE)
    fix k assume k: "0 < k" "k < n" and pk: "(k - 1) div 2 \<noteq> j"
    have pn: "(k - 1) div 2 < n" using parent_less [OF k(1)] k(2) by simp
    show "key (swap h i j ! ((k - 1) div 2)) \<le> key (swap h i j ! k)"
    proof (cases "(k - 1) div 2 = i")
      case True
      have "key (h ! j) \<le> key (h ! k)" unfolding j using down_child_min [OF k True] .
      with True jn k less show ?thesis using nth [OF k(2)] nth [OF pn] by auto
    next
      case False
      have up: "key (h ! ((k - 1) div 2)) \<le> key (h ! k)"
        using ord k False by (simp add: down_ordered_def)
      have "key (h ! ((i - 1) div 2)) \<le> key (h ! j)" if "0 < i"
        using ord jn pj that by (simp add: down_ordered_def)
      with up False pk pj k show ?thesis using nth [OF k(2)] nth [OF pn] by auto
    qed
  next
    fix k assume k: "0 < k" "k < n" and pk: "(k - 1) div 2 = j" and "0 < j"
    have "k \<noteq> j" "k \<noteq> i" using parent_less [OF k(1)] pk jn by auto
    moreover have "key (h ! j) \<le> key (h ! k)"
      using ord k pk jn unfolding down_ordered_def by (metis less_irrefl)
    ultimately show "key (swap h i j ! ((j - 1) div 2)) \<le> key (swap h i j ! k)"
      using nth [OF k(2)] nth [of i] jn pj by simp
  qed
qed

lemma down_ordered_done:
  assumes "down_ordered key h i n"
    and "\<And>k. 0 < k \<Longrightarrow> k < n \<Longrightarrow> (k - 1) div 2 = i \<Longrightarrow> key (h ! i) \<le> key (h ! k)"
  shows "heap_ordered key h n"
  using assms unfolding heap_ordered_def down_ordered_def by metis

lemma heap_down_ordered:
  "n \<le> length h \<Longrightarrow> down_ordered key h i n \<Longrightarrow> heap_ordered key (heap_down key h i n) n"
proof (induction key h i n rule: heap_down.induct)
  case (1 key h i n)
  define j where "j = down_child key h i n"
  consider (leaf) "n \<le> 2 * i + 1" | (stop) "2 * i + 1 < n" "\<not> key (h ! j) < key (h ! i)"
    | (sift) "2 * i + 1 < n" "key (h ! j) < key (h ! i)" by linarith
  then show ?case
  proof cases
    case leaf
    have "heap_ordered key h n"
      by (rule down_ordered_done [OF "1.prems"(2)]) (use leaf parent_cases in force)
    then show ?thesis using leaf by (simp add: heap_down.simps [of key h i n])
  next
    case stop
    have "heap_ordered key h n"
    proof (rule down_ordered_done [OF "1.prems"(2)])
      fix k assume "0 < k" "k < n" "(k - 1) div 2 = i"
      then have "key (h ! j) \<le> key (h ! k)" unfolding j_def by (rule down_child_min)
      with stop(2) show "key (h ! i) \<le> key (h ! k)" by simp
    qed
    then show ?thesis using stop
      by (simp add: heap_down.simps [of key h i n] Let_def j_def)
  next
    case sift
    have "heap_ordered key (heap_down key (swap h i j) j n) n"
      using "1.IH" [OF _ j_def] sift down_ordered_step [OF "1.prems"(2,1) sift(1) j_def sift(2)]
        "1.prems"(1) by simp
    then show ?thesis using sift
      by (simp add: heap_down.simps [of key h i n] Let_def j_def)
  qed
qed

lemma up_ordered_step:
  assumes ord: "up_ordered key h j" and j: "j < length h" "0 < j" and i: "i = (j - 1) div 2"
    and less: "key (h ! j) < key (h ! i)"
  shows "up_ordered key (swap h i j) i"
proof -
  have ij: "i < j" using i j by simp
  have nth: "swap h i j ! k = (if k = j then h ! i else if k = i then h ! j else h ! k)"
    if "k < length h" for k using that ij j by (simp add: nth_swap)
  have ord1: "key (h ! ((k - 1) div 2)) \<le> key (h ! k)" if "0 < k" "k < length h" "k \<noteq> j" for k
    using ord that by (simp add: up_ordered_def)
  have ord2: "key (h ! i) \<le> key (h ! k)" if "0 < k" "k < length h" "(k - 1) div 2 = j" for k
    using ord that j i by (simp add: up_ordered_def)
  show ?thesis
    unfolding up_ordered_def length_swap
  proof (intro conjI allI impI; elim conjE)
    fix k assume k: "0 < k" "k < length h" "k \<noteq> i"
    have pn: "(k - 1) div 2 < length h" "(k - 1) div 2 < k" using parent_less [OF k(1)] k(2) by auto
    show "key (swap h i j ! ((k - 1) div 2)) \<le> key (swap h i j ! k)"
      using nth [OF k(2)] nth [OF pn(1)] ord1 [OF k(1,2)] ord2 [OF k(1,2)] less i k ij pn
      by (cases "k = j") (auto intro: order_trans less_imp_le)
  next
    fix k assume k: "0 < k" "k < length h" and pk: "(k - 1) div 2 = i" and "0 < i"
    have pi: "(i - 1) div 2 < i" using parent_less [OF \<open>0 < i\<close>] .
    have gi: "key (h ! ((i - 1) div 2)) \<le> key (h ! i)"
      using ord1 [OF \<open>0 < i\<close>] ij j by simp
    have ki: "k \<noteq> i" using parent_less [OF k(1)] pk by simp
    have "key (h ! i) \<le> key (h ! k)" if "k \<noteq> j" using ord1 [OF k that] pk by simp
    then show "key (swap h i j ! ((i - 1) div 2)) \<le> key (swap h i j ! k)"
      using nth [OF k(2)] nth [of "(i - 1) div 2"] pi ij j gi ki by (cases "k = j") auto
  qed
qed

lemma heap_up_ordered:
  "j < length h \<Longrightarrow> up_ordered key h j \<Longrightarrow> heap_ordered key (heap_up key h j) (length h)"
proof (induction key h j rule: heap_up.induct)
  case (1 key h j)
  define i where "i = (j - 1) div 2"
  show ?case
  proof (cases "i = j \<or> \<not> key (h ! j) < key (h ! i)")
    case True
    have "heap_ordered key h (length h)"
      unfolding heap_ordered_def
    proof (intro allI impI; elim conjE)
      fix k assume k: "0 < k" "k < length h"
      show "key (h ! ((k - 1) div 2)) \<le> key (h ! k)"
      proof (cases "k = j")
        case True
        then have "i \<noteq> j" using parent_less [OF k(1)] i_def by simp
        with \<open>i = j \<or> \<not> key (h ! j) < key (h ! i)\<close> True show ?thesis by (simp add: i_def)
      next
        case False
        with "1.prems"(2) k show ?thesis by (simp add: up_ordered_def)
      qed
    qed
    with True show ?thesis by (simp add: heap_up.simps [of key h j] Let_def i_def)
  next
    case False
    then have j: "0 < j" by (cases j) (auto simp: i_def)
    have "up_ordered key (swap h i j) i"
      using up_ordered_step [OF "1.prems"(2,1) j i_def] False by simp
    then have "heap_ordered key (heap_up key (swap h i j) i) (length h)"
      using "1.IH" [OF i_def False] "1.prems"(1) i_def by simp
    with False show ?thesis by (simp add: heap_up.simps [of key h j] Let_def i_def)
  qed
qed

lemma heap_ordered_top:
  assumes "heap_ordered key h n" "k < n"
  shows "key (h ! 0) \<le> key (h ! k)"
  using assms(2)
proof (induction k rule: less_induct)
  case (less k)
  show ?case
  proof (cases "k = 0")
    case False
    then have p: "(k - 1) div 2 < k" using parent_less by simp
    then have "key (h ! 0) \<le> key (h ! ((k - 1) div 2))" using less by simp
    also have "\<dots> \<le> key (h ! k)" using assms(1) less.prems False by (simp add: heap_ordered_def)
    finally show ?thesis .
  qed simp
qed

section \<open>The contract of a priority queue\<close>

text \<open>
  What \<^verbatim>\<open>container/heap\<close> promises its client: elements as a multiset, the top one with a
  smallest key, and the top replaceable (\<^verbatim>\<open>(*h)[0] = x; heap.Fix(h, 0)\<close>).
\<close>

locale min_queue =
  fixes key :: "'a \<Rightarrow> 'k::linorder"
    and invar :: "'h \<Rightarrow> bool"
    and elems :: "'h \<Rightarrow> 'a multiset"
    and top :: "'h \<Rightarrow> 'a"
    and push :: "'h \<Rightarrow> 'a \<Rightarrow> 'h"
    and pop :: "'h \<Rightarrow> 'h"
    and set_top :: "'h \<Rightarrow> 'a \<Rightarrow> 'h"
  assumes top_elem: "invar h \<Longrightarrow> elems h \<noteq> {#} \<Longrightarrow> top h \<in># elems h"
    and top_min: "invar h \<Longrightarrow> x \<in># elems h \<Longrightarrow> key (top h) \<le> key x"
    and elems_push: "invar h \<Longrightarrow> elems (push h x) = add_mset x (elems h)"
    and elems_pop: "invar h \<Longrightarrow> elems h \<noteq> {#} \<Longrightarrow> elems (pop h) = elems h - {#top h#}"
    and elems_set_top:
      "invar h \<Longrightarrow> elems h \<noteq> {#} \<Longrightarrow> elems (set_top h x) = add_mset x (elems h - {#top h#})"
    and invar_push: "invar h \<Longrightarrow> invar (push h x)"
    and invar_pop: "invar h \<Longrightarrow> elems h \<noteq> {#} \<Longrightarrow> invar (pop h)"
    and invar_set_top: "invar h \<Longrightarrow> elems h \<noteq> {#} \<Longrightarrow> invar (set_top h x)"
begin

lemma elems_set_top_pop:
  "invar h \<Longrightarrow> elems h \<noteq> {#} \<Longrightarrow> elems (set_top h x) = add_mset x (elems (pop h))"
  by (simp add: elems_set_top elems_pop)

end

section \<open>The slice heap meets the contract\<close>

definition heap_set_top :: "('a \<Rightarrow> 'k::linorder) \<Rightarrow> 'a list \<Rightarrow> 'a \<Rightarrow> 'a list" where
  "heap_set_top key h x = heap_Fix key (h[0 := x]) 0"

abbreviation is_heap :: "('a \<Rightarrow> 'k::linorder) \<Rightarrow> 'a list \<Rightarrow> bool" where
  "is_heap key h \<equiv> heap_ordered key h (length h)"

lemma heap_up_0 [simp]: "heap_up key h 0 = h"
  by (simp add: heap_up.simps [of key h 0])

lemma heap_ordered_cong:
  "heap_ordered key h n \<Longrightarrow> (\<And>k. k < n \<Longrightarrow> g ! k = h ! k) \<Longrightarrow> heap_ordered key g n"
  unfolding heap_ordered_def by (metis parent_less order.strict_trans)

lemma down_ordered_0:
  "heap_ordered key h n \<Longrightarrow> (\<And>k. 0 < k \<Longrightarrow> k < n \<Longrightarrow> g ! k = h ! k) \<Longrightarrow> down_ordered key g 0 n"
proof -
  assume ord: "heap_ordered key h n" and eq: "\<And>k. 0 < k \<Longrightarrow> k < n \<Longrightarrow> g ! k = h ! k"
  have "key (g ! ((k - 1) div 2)) \<le> key (g ! k)" if "0 < k" "k < n" "(k - 1) div 2 \<noteq> 0" for k
    using ord eq [of k] eq [of "(k - 1) div 2"] that parent_less [of k]
    by (simp add: heap_ordered_def)
  then show ?thesis by (simp add: down_ordered_def)
qed

lemma heap_Push_mset: "mset (heap_Push key h x) = add_mset x (mset h)"
  using heap_up_mset [of "length h" "h @ [x]" key] by (simp add: heap_Push_def)

lemma heap_Push_heap:
  assumes "is_heap key h"
  shows "is_heap key (heap_Push key h x)"
proof -
  have "up_ordered key (h @ [x]) (length h)"
    unfolding up_ordered_def
  proof (intro conjI allI impI; elim conjE)
    fix k assume k: "0 < k" "k < length (h @ [x])" "k \<noteq> length h"
    then have "k < length h" "(k - 1) div 2 < length h" using parent_less [of k] by auto
    then show "key ((h @ [x]) ! ((k - 1) div 2)) \<le> key ((h @ [x]) ! k)"
      using assms k by (simp add: nth_append heap_ordered_def)
  next
    fix k assume "0 < k" "k < length (h @ [x])" "(k - 1) div 2 = length h"
    then show "key ((h @ [x]) ! ((length h - 1) div 2)) \<le> key ((h @ [x]) ! k)"
      using parent_less [of k] by simp
  qed
  then have "heap_ordered key (heap_up key (h @ [x]) (length h)) (length (h @ [x]))"
    by (intro heap_up_ordered) simp
  moreover have "length (heap_up key (h @ [x]) (length h)) = length (h @ [x])"
    using heap_up_mset [of "length h" "h @ [x]" key] by simp
  ultimately show ?thesis by (simp add: heap_Push_def)
qed

lemma heap_set_top_mset:
  "h \<noteq> [] \<Longrightarrow> mset (heap_set_top key h x) = add_mset x (mset h - {#h ! 0#})"
  using heap_down_mset [of 0 "h[0 := x]" "length h" key]
  by (simp add: heap_set_top_def heap_Fix_def mset_update)

lemma heap_set_top_heap:
  assumes "is_heap key h" "h \<noteq> []"
  shows "is_heap key (heap_set_top key h x)"
proof -
  have "down_ordered key (h[0 := x]) 0 (length h)"
    using assms(1) by (rule down_ordered_0) simp
  then have "heap_ordered key (heap_down key (h[0 := x]) 0 (length h)) (length h)"
    by (intro heap_down_ordered) simp_all
  moreover have "length (heap_down key (h[0 := x]) 0 (length h)) = length h"
    using heap_down_mset [of 0 "h[0 := x]" "length h" key] assms by simp
  ultimately show ?thesis by (simp add: heap_set_top_def heap_Fix_def)
qed

lemma heap_Pop_split:
  assumes "h \<noteq> []" and n: "n = length h - 1"
  shows "heap_down key (swap h 0 n) 0 n = heap_Pop key h @ [h ! 0]"
proof -
  let ?d = "heap_down key (swap h 0 n) 0 n"
  have len: "length h = Suc n" using assms by (cases h) auto
  have d: "length ?d = length h" "drop n ?d = drop n (swap h 0 n)"
    using heap_down_mset [of 0 "swap h 0 n" n key] assms by auto
  have "swap h 0 n ! n = h ! 0" using len nth_swap [of 0 h n n] by simp
  then have "drop n (swap h 0 n) = [h ! 0]"
    using len by (simp add: Cons_nth_drop_Suc [symmetric])
  moreover have "take n ?d = heap_Pop key h" by (simp add: heap_Pop_def n Let_def)
  ultimately show ?thesis using d(2) append_take_drop_id [of n ?d] by simp
qed

lemma heap_Pop_mset: "h \<noteq> [] \<Longrightarrow> mset (heap_Pop key h) = mset h - {#h ! 0#}"
proof -
  assume h: "h \<noteq> []"
  let ?n = "length h - 1"
  have "mset (heap_down key (swap h 0 ?n) 0 ?n) = mset h"
    using heap_down_mset [of 0 "swap h 0 ?n" ?n key] h by (simp add: mset_swap_eq)
  then have "mset h = add_mset (h ! 0) (mset (heap_Pop key h))"
    using heap_Pop_split [OF h refl, of key] by simp
  then show ?thesis by simp
qed

lemma length_heap_Pop [simp]: "length (heap_Pop key h) = length h - 1"
proof (cases "h = []")
  case False
  then have "size (mset (heap_Pop key h)) = size (mset h - {#h ! 0#})" by (simp add: heap_Pop_mset)
  with False show ?thesis by (simp add: size_Diff_singleton)
qed (simp add: heap_Pop_def)

lemma length_heap_set_top [simp]: "length (heap_set_top key h x) = length h"
proof (cases "h = []")
  case False
  then show ?thesis
    using heap_down_mset [of 0 "h[0 := x]" "length h" key]
    by (simp add: heap_set_top_def heap_Fix_def)
next
  case True
  then show ?thesis
    by (simp add: heap_set_top_def heap_Fix_def heap_down.simps [of key "[]" 0 0])
qed

lemma heap_Pop_heap:
  assumes heap: "is_heap key h" and h: "h \<noteq> []"
  shows "is_heap key (heap_Pop key h)"
proof -
  define n where "n = length h - 1"
  have len: "length h = Suc n" using h by (cases h) (auto simp: n_def)
  have "down_ordered key (swap h 0 n) 0 n"
    using heap by (intro down_ordered_0 [of key h]) (auto simp: heap_ordered_def nth_swap len)
  then have "heap_ordered key (heap_down key (swap h 0 n) 0 n) n"
    by (rule heap_down_ordered [rotated]) (simp add: len)
  then have "heap_ordered key (heap_Pop key h) n"
    by (rule heap_ordered_cong) (simp add: heap_Pop_split [OF h n_def] nth_append len)
  then show ?thesis by (simp add: len)
qed

interpretation slice: min_queue key "is_heap key" mset "\<lambda>h. h ! 0" "heap_Push key" "heap_Pop key"
  "heap_set_top key" for key :: "'a \<Rightarrow> 'k::linorder"
proof
  show "h ! 0 \<in># mset h" if "mset h \<noteq> {#}" for h :: "'a list" using that by (cases h) auto
  show "key (h ! 0) \<le> key x" if "is_heap key h" "x \<in># mset h" for h :: "'a list" and x
    using that heap_ordered_top [of key h "length h"] by (auto simp: in_set_conv_nth)
qed (use heap_Push_heap heap_Pop_heap heap_set_top_heap in
    \<open>auto simp: heap_Push_mset heap_Pop_mset heap_set_top_mset\<close>)

end
