(* ===== verification/Uid_Lists.thy ===== *)
theory Uid_Lists
  imports Go_Heap
begin

text \<open>
  Package \<^verbatim>\<open>algo\<close>: filtering, intersecting, merging and searching lists of uids
  (\<^verbatim>\<open>algo/uidlist.go\<close>, \<^verbatim>\<open>algo/heap.go\<close>). A \<^verbatim>\<open>task.List\<close> is its slice of uids. The two in-place
  operations are modelled on the shared backing array, index by index, so that the claim that
  the writes never overtake the reads is part of what is shown. \<^verbatim>\<open>MergeSorted\<close> runs on the heap of
  \<open>Go_Heap\<close> through the contract \<open>min_queue\<close>.
\<close>

section \<open>ApplyFilter and IntersectWith\<close>

text \<open>
  \<^verbatim>\<open>out := u.Uids[:0]\<close> shares the array of \<^verbatim>\<open>u.Uids\<close>, so \<^verbatim>\<open>append(out, uid)\<close> writes position
  \<open>out\<close> of the array \<open>a\<close> the loop is reading.
\<close>

function applyFilter_loop :: "(u64 \<Rightarrow> nat \<Rightarrow> bool) \<Rightarrow> u64 list \<Rightarrow> nat \<Rightarrow> nat \<Rightarrow> u64 list" where
  "applyFilter_loop f a i out =
     (if i < length a then
        let uid = a ! i in
        if f uid i then applyFilter_loop f (a[out := uid]) (Suc i) (Suc out)
        else applyFilter_loop f a (Suc i) out
      else take out a)"
  by pat_completeness auto
termination
  by (relation "measure (\<lambda>(f, a, i, out). length a - i)") auto

definition ApplyFilter :: "u64 list \<Rightarrow> (u64 \<Rightarrow> nat \<Rightarrow> bool) \<Rightarrow> u64 list" where
  "ApplyFilter u f = applyFilter_loop f u 0 0"

text \<open>The inner loop \<^verbatim>\<open>for ; k < m && v.Uids[k] < uid; k++ {}\<close>, which three functions share.\<close>

function advance :: "u64 list \<Rightarrow> u64 \<Rightarrow> nat \<Rightarrow> nat" where
  "advance v uid k = (if k < length v \<and> v ! k < uid then advance v uid (Suc k) else k)"
  by pat_completeness auto
termination
  by (relation "measure (\<lambda>(v, uid, k). length v - k)") auto

function intersectWith_loop :: "u64 list \<Rightarrow> u64 list \<Rightarrow> nat \<Rightarrow> nat \<Rightarrow> nat \<Rightarrow> u64 list" where
  "intersectWith_loop a v i k out =
     (if i < length a then
        let uid = a ! i; k' = advance v uid k in
        if k' < length v \<and> v ! k' = uid
        then intersectWith_loop (a[out := uid]) v (Suc i) k' (Suc out)
        else intersectWith_loop a v (Suc i) k' out
      else take out a)"
  by pat_completeness auto
termination
  by (relation "measure (\<lambda>(a, v, i, k, out). length a - i)") (auto simp: Let_def)

definition IntersectWith :: "u64 list \<Rightarrow> u64 list \<Rightarrow> u64 list" where
  "IntersectWith u v = intersectWith_loop u v 0 0 0"

section \<open>IntersectSorted\<close>

text \<open>The index of the first shortest list.\<close>

function minLen_loop :: "u64 list list \<Rightarrow> nat \<Rightarrow> nat \<Rightarrow> nat \<Rightarrow> nat" where
  "minLen_loop uls i minLen minLenIdx =
     (if i < length uls then
        let n = length (uls ! i) in
        if n < minLen then minLen_loop uls (Suc i) n i
        else minLen_loop uls (Suc i) minLen minLenIdx
      else minLenIdx)"
  by pat_completeness auto
termination
  by (relation "measure (\<lambda>(uls, i, m, x). length uls - i)") auto

text \<open>
  The loop over the other lists for one value: it moves the pointer of each list and stops,
  with \<^verbatim>\<open>skip\<close> set, at the first list that does not hold the value.
\<close>

function intersectSorted_inner ::
    "u64 list list \<Rightarrow> nat \<Rightarrow> u64 \<Rightarrow> nat list \<Rightarrow> nat \<Rightarrow> bool \<times> nat list" where
  "intersectSorted_inner uls minLenIdx val lptrs j =
     (if j < length uls then
        if j = minLenIdx then intersectSorted_inner uls minLenIdx val lptrs (Suc j)
        else
          let lj = uls ! j;
              ljp = advance lj val (lptrs ! j);
              lptrs' = lptrs[j := ljp]
          in if length lj \<le> ljp \<or> val < lj ! ljp then (True, lptrs')
             else intersectSorted_inner uls minLenIdx val lptrs' (Suc j)
      else (False, lptrs))"
  by pat_completeness auto
termination
  by (relation "measure (\<lambda>(uls, m, val, lptrs, j). length uls - j)") (auto simp: Let_def)

function intersectSorted_outer ::
    "u64 list list \<Rightarrow> nat \<Rightarrow> nat \<Rightarrow> nat list \<Rightarrow> u64 list \<Rightarrow> u64 list go" where
  "intersectSorted_outer uls minLenIdx i lptrs output =
     (let shortList = uls ! minLenIdx in
      if i < length shortList then
        let val = shortList ! i in
        if 0 < i \<and> val = shortList ! (i - 1)
        then Inl (Fatal ''We shouldn't have duplicates in UIDLists'')
        else
          let (skip, lptrs') = intersectSorted_inner uls minLenIdx val lptrs 0
          in intersectSorted_outer uls minLenIdx (Suc i) lptrs'
               (if skip then output else output @ [val])
      else Inr output)"
  by pat_completeness auto
termination
  by (relation "measure (\<lambda>(uls, m, i, lptrs, output). length (uls ! m) - i)")
    (auto simp: Let_def)

definition IntersectSorted :: "u64 list list \<Rightarrow> u64 list go" where
  "IntersectSorted uls =
     (if uls = [] then Inr []
      else
        let minLenIdx = minLen_loop uls 1 (length (uls ! 0)) 0
        in intersectSorted_outer uls minLenIdx 0 (replicate (length uls) 0) [])"

section \<open>MergeSorted\<close>

record elem =
  val :: u64
  listIdx :: nat

text \<open>The locals of the loop: the heap, the position in each list, the output, its last value.\<close>

record 'h merge_state =
  mheap :: 'h
  midx :: "nat list"
  moutput :: "u64 list"
  mlast :: u64

text \<open>
  One iteration of \<^verbatim>\<open>for h.Len() > 0\<close>, over the heap operations it calls: read the top, pop it,
  or replace its value and \<^verbatim>\<open>heap.Fix(h, 0)\<close>.
\<close>

definition merge_body ::
    "('h \<Rightarrow> elem) \<Rightarrow> ('h \<Rightarrow> 'h) \<Rightarrow> ('h \<Rightarrow> elem \<Rightarrow> 'h) \<Rightarrow> u64 list list \<Rightarrow>
     'h merge_state \<Rightarrow> 'h merge_state go" where
  "merge_body peek pop set_top uls st =
     (let me = peek (mheap st);
          st1 = (if moutput st = [] \<or> val me \<noteq> mlast st
                 then st\<lparr>moutput := moutput st @ [val me], mlast := val me\<rparr> else st)
      in if length uls \<le> listIdx me \<or> length (midx st) \<le> listIdx me
         then Inl (Panic ''index out of range'')
         else
           let l = uls ! listIdx me; i = midx st ! listIdx me
           in if length l - 1 \<le> i then Inr (st1\<lparr>mheap := pop (mheap st)\<rparr>)
              else Inr (st1\<lparr>midx := (midx st)[listIdx me := i + 1],
                          mheap := set_top (mheap st) (me\<lparr>val := l ! (i + 1)\<rparr>)\<rparr>))"

definition remaining :: "u64 list list \<Rightarrow> nat list \<Rightarrow> nat" where
  "remaining uls idx = (\<Sum>i<length uls. length (uls ! i) - idx ! i)"

lemma remaining_bump:
  assumes "k < length uls" "k < length idx" "idx ! k + 1 < length (uls ! k)"
  shows "remaining uls (idx[k := idx ! k + 1]) < remaining uls idx"
  unfolding remaining_def
proof (rule sum_strict_mono_ex1)
  show "\<forall>i\<in>{..<length uls}. length (uls ! i) - idx[k := idx ! k + 1] ! i
      \<le> length (uls ! i) - idx ! i"
    by (metis diff_le_mono2 eq_imp_le le_add1 list_update_beyond not_le_imp_less nth_list_update_eq
        nth_list_update_neq)
  show "\<exists>i\<in>{..<length uls}. length (uls ! i) - idx[k := idx ! k + 1] ! i
      < length (uls ! i) - idx ! i"
    using assms by (intro bexI [of _ k]) auto
qed simp

function merge_loop :: "u64 list list \<Rightarrow> elem list merge_state \<Rightarrow> u64 list go" where
  "merge_loop uls st =
     (if mheap st = [] then Inr (moutput st)
      else case merge_body (\<lambda>h. h ! 0) (heap_Pop val) (heap_set_top val) uls st of
          Inl e \<Rightarrow> Inl e
        | Inr st' \<Rightarrow> merge_loop uls st')"
  by pat_completeness auto
termination
proof (relation "measure (\<lambda>(uls, st). length (mheap st) + remaining uls (midx st))")
  fix uls :: "u64 list list" and st st' :: "elem list merge_state"
  assume h: "mheap st \<noteq> []"
    and step: "merge_body (\<lambda>h. h ! 0) (heap_Pop val) (heap_set_top val) uls st = Inr st'"
  let ?k = "listIdx (mheap st ! 0)"
  have k: "?k < length uls" "?k < length (midx st)"
    using step by (auto simp: merge_body_def Let_def split: if_splits)
  have "length (mheap st') + remaining uls (midx st') <
      length (mheap st) + remaining uls (midx st)"
  proof (cases "length (uls ! ?k) - 1 \<le> midx st ! ?k")
    case True
    then show ?thesis using step h k by (auto simp: merge_body_def Let_def split: if_splits)
  next
    case False
    then have "remaining uls ((midx st)[?k := midx st ! ?k + 1]) < remaining uls (midx st)"
      using remaining_bump [OF k] by simp
    with False show ?thesis using step k
      by (auto simp: merge_body_def Let_def split: if_splits)
  qed
  then show "((uls, st'), uls, st) \<in>
      measure (\<lambda>(uls, st). length (mheap st) + remaining uls (midx st))" by simp
qed simp

declare merge_loop.simps [simp del]

text \<open>The first loop of \<^verbatim>\<open>MergeSorted\<close> pushes the head of every nonempty list.\<close>

fun merge_init :: "nat \<Rightarrow> u64 list list \<Rightarrow> elem list \<Rightarrow> elem list" where
  "merge_init i [] h = h"
| "merge_init i (l # ls) h =
     merge_init (Suc i) ls
       (if l \<noteq> [] then heap_Push val h \<lparr>val = l ! 0, listIdx = i\<rparr> else h)"

definition MergeSorted :: "u64 list list \<Rightarrow> u64 list go" where
  "MergeSorted uls =
     (if uls = [] then Inr []
      else merge_loop uls
        \<lparr>mheap = merge_init 0 uls [], midx = replicate (length uls) 0,
         moutput = [], mlast = 0\<rparr>)"

section \<open>IndexOf\<close>

definition IndexOf :: "u64 list \<Rightarrow> u64 \<Rightarrow> int" where
  "IndexOf u uid =
     (let i = sort_Search (length u) (\<lambda>i. uid \<le> u ! i)
      in if i < length u \<and> u ! i = uid then int i else - 1)"

declare applyFilter_loop.simps [simp del] advance.simps [simp del]
  intersectWith_loop.simps [simp del] minLen_loop.simps [simp del]
  intersectSorted_inner.simps [simp del] intersectSorted_outer.simps [simp del]

section \<open>Filtering and pairwise intersection\<close>

lemma applyFilter_loop_spec:
  "out \<le> i \<Longrightarrow> i \<le> length a \<Longrightarrow>
   applyFilter_loop f a i out =
     take out a @ map fst (filter (\<lambda>(x, k). f x k) (zip (drop i a) [i..<length a]))"
proof (induction f a i out rule: applyFilter_loop.induct)
  case (1 f a i out)
  show ?case
  proof (cases "i < length a")
    case False
    with "1.prems" show ?thesis by (subst applyFilter_loop.simps) simp
  next
    case True
    have drop: "drop i a = a ! i # drop (Suc i) a" and upt: "[i..<length a] = i # [Suc i..<length a]"
      using True by (simp_all add: Cons_nth_drop_Suc upt_conv_Cons)
    show ?thesis
    proof (cases "f (a ! i) i")
      case True
      have "drop (Suc i) (a[out := a ! i]) = drop (Suc i) a" using "1.prems" by simp
      with "1.IH"(1) [OF \<open>i < length a\<close> refl True] "1.prems" \<open>i < length a\<close> True show ?thesis
        by (simp add: applyFilter_loop.simps [of f a i out] drop upt take_Suc_conv_app_nth)
    next
      case False
      with "1.IH"(2) [OF \<open>i < length a\<close> refl False] "1.prems" \<open>i < length a\<close> show ?thesis
        by (simp add: applyFilter_loop.simps [of f a i out] drop upt)
    qed
  qed
qed

lemma ApplyFilter_eq:
  "ApplyFilter u f = map fst (filter (\<lambda>(x, k). f x k) (zip u [0..<length u]))"
  by (simp add: ApplyFilter_def applyFilter_loop_spec)

lemma advance_spec:
  assumes "k \<le> length v" "\<forall>i<k. v ! i < uid"
  shows "k \<le> advance v uid k \<and> advance v uid k \<le> length v \<and>
    (\<forall>i < advance v uid k. v ! i < uid) \<and>
    (advance v uid k < length v \<longrightarrow> uid \<le> v ! advance v uid k)"
  using assms
proof (induction v uid k rule: advance.induct)
  case (1 v uid k)
  show ?case
  proof (cases "k < length v \<and> v ! k < uid")
    case True
    have "\<forall>i<Suc k. v ! i < uid" using True "1.prems" by (simp add: less_Suc_eq)
    with "1.IH" [OF True] True show ?thesis by (auto simp: advance.simps [of v uid k])
  next
    case False
    with "1.prems" show ?thesis by (auto simp: advance.simps [of v uid k] not_less)
  qed
qed

text \<open>The pointer found holds the value exactly when the sorted list does.\<close>

lemma advance_member:
  assumes "sorted v" "k \<le> length v" "\<forall>i<k. v ! i < uid"
  shows "advance v uid k < length v \<and> v ! advance v uid k = uid \<longleftrightarrow> uid \<in> set v"
proof
  assume "uid \<in> set v"
  then obtain i where i: "i < length v" "v ! i = uid" by (auto simp: in_set_conv_nth)
  note sp = advance_spec [OF assms(2,3)]
  have "advance v uid k \<le> i" using sp i by (metis not_le_imp_less order_less_irrefl)
  then have "v ! advance v uid k \<le> uid" using assms(1) i by (metis sorted_nth_mono)
  with sp i \<open>advance v uid k \<le> i\<close> show "advance v uid k < length v \<and> v ! advance v uid k = uid"
    by (metis dual_order.antisym order_le_less_trans)
qed (metis nth_mem)

lemma intersectWith_loop_spec:
  assumes "sorted v" "sorted (drop i a)" "out \<le> i" "i \<le> length a" "k \<le> length v"
    "i < length a \<longrightarrow> (\<forall>j<k. v ! j < a ! i)"
  shows "intersectWith_loop a v i k out = take out a @ filter (\<lambda>x. x \<in> set v) (drop i a)"
  using assms
proof (induction a v i k out rule: intersectWith_loop.induct)
  case (1 a v i k out)
  show ?case
  proof (cases "i < length a")
    case False
    with "1.prems" show ?thesis by (subst intersectWith_loop.simps) simp
  next
    case True
    define k' where "k' = advance v (a ! i) k"
    have drop: "drop i a = a ! i # drop (Suc i) a" using True by (simp add: Cons_nth_drop_Suc)
    have lt: "\<forall>j<k. v ! j < a ! i" using "1.prems"(6) True by simp
    have mem: "(k' < length v \<and> v ! k' = a ! i) = (a ! i \<in> set v)"
      unfolding k'_def using advance_member [OF "1.prems"(1,5) lt] .
    have k': "k' \<le> length v" "\<forall>j<k'. v ! j < a ! i"
      using advance_spec [OF "1.prems"(5) lt] by (auto simp: k'_def)
    have le: "a ! i \<le> a ! Suc i" if "Suc i < length a"
      using "1.prems"(2) that True by (simp add: drop Cons_nth_drop_Suc [OF that, symmetric])
    have sorted': "sorted (drop (Suc i) a)" using "1.prems"(2) by (simp add: drop)
    have next': "Suc i < length a \<longrightarrow> (\<forall>j<k'. v ! j < a ! Suc i)"
      using k'(2) le by (auto intro: order_less_le_trans)
    show ?thesis
    proof (cases "a ! i \<in> set v")
      case True
      have same: "drop (Suc i) (a[out := a ! i]) = drop (Suc i) a" using "1.prems"(3) by simp
      have "intersectWith_loop (a[out := a ! i]) v (Suc i) k' (Suc out) =
          take (Suc out) (a[out := a ! i]) @ filter (\<lambda>x. x \<in> set v) (drop (Suc i) a)"
        using "1.IH"(1) [OF \<open>i < length a\<close> refl k'_def] True mem "1.prems" sorted' k' next'
          same \<open>i < length a\<close> by simp
      then show ?thesis
        using \<open>i < length a\<close> True mem "1.prems"(3)
        by (simp add: intersectWith_loop.simps [of a v i k out] k'_def [symmetric] Let_def drop
            take_Suc_conv_app_nth)
    next
      case False
      have "intersectWith_loop a v (Suc i) k' out =
          take out a @ filter (\<lambda>x. x \<in> set v) (drop (Suc i) a)"
        using "1.IH"(2) [OF \<open>i < length a\<close> refl k'_def] False mem "1.prems" sorted' k' next'
          \<open>i < length a\<close> by simp
      then show ?thesis
        using \<open>i < length a\<close> False mem
        by (auto simp: intersectWith_loop.simps [of a v i k out] k'_def [symmetric] Let_def drop)
    qed
  qed
qed

lemma IntersectWith_eq:
  "sorted u \<Longrightarrow> sorted v \<Longrightarrow> IntersectWith u v = filter (\<lambda>x. x \<in> set v) u"
  by (simp add: IntersectWith_def intersectWith_loop_spec)

lemma IndexOf_spec:
  assumes "sorted u"
  shows "(IndexOf u uid = - 1 \<longleftrightarrow> uid \<notin> set u) \<and>
    (0 \<le> IndexOf u uid \<longrightarrow> nat (IndexOf u uid) < length u \<and> u ! nat (IndexOf u uid) = uid)"
proof -
  define i where "i = sort_Search (length u) (\<lambda>i. uid \<le> u ! i)"
  have i: "i = first_index (\<lambda>y. uid \<le> y) u"
    using sort_Search_sorted_ge [of "\<lambda>x. x" u uid] assms by (simp add: i_def)
  have "i < length u \<and> u ! i = uid" if mem: "uid \<in> set u"
  proof -
    obtain k where k: "k < length u" "u ! k = uid" using mem by (auto simp: in_set_conv_nth)
    have "takeWhile (\<lambda>x. \<not> uid \<le> x) u \<noteq> u"
      using mem by (metis order_refl set_takeWhileD)
    then have il: "i < length u"
      by (metis first_index_def first_index_le first_index_take i le_neq_implies_less
          length_takeWhile_le take_all)
    have "i \<le> k"
    proof (rule ccontr)
      assume "\<not> i \<le> k"
      then have "u ! k \<in> set (takeWhile (\<lambda>x. \<not> uid \<le> x) u)"
        by (metis first_index_def i in_set_conv_nth not_le takeWhile_nth)
      then show False using k by (metis order_refl set_takeWhileD)
    qed
    then have "u ! i \<le> uid" using k assms by (metis sorted_nth_mono)
    moreover have "uid \<le> u ! i" using first_index_nth [of "\<lambda>y. uid \<le> y" u] il i by simp
    ultimately show ?thesis using il by simp
  qed
  then show ?thesis
    unfolding IndexOf_def Let_def i_def [symmetric] using nth_mem [of i u] by auto
qed

section \<open>Intersection of many lists\<close>

lemma minLen_loop_bound: "x < length uls \<Longrightarrow> minLen_loop uls i m x < length uls"
proof (induction uls i m x rule: minLen_loop.induct)
  case (1 uls i m x)
  then show ?case by (subst minLen_loop.simps) (auto simp: Let_def)
qed

text \<open>Every pointer stays behind the values still to come.\<close>

definition ptrs_behind :: "u64 list list \<Rightarrow> nat \<Rightarrow> nat list \<Rightarrow> u64 \<Rightarrow> bool" where
  "ptrs_behind uls m lptrs x \<longleftrightarrow>
     length lptrs = length uls \<and>
     (\<forall>j<length uls. j \<noteq> m \<longrightarrow> lptrs ! j \<le> length (uls ! j) \<and> (\<forall>k<lptrs ! j. uls ! j ! k < x))"

lemma ptrs_behind_mono: "ptrs_behind uls m lptrs x \<Longrightarrow> x \<le> y \<Longrightarrow> ptrs_behind uls m lptrs y"
  unfolding ptrs_behind_def by (meson order_less_le_trans)

lemma ptrs_behind_update:
  "ptrs_behind uls m lptrs x \<Longrightarrow> j < length uls \<Longrightarrow> j \<noteq> m \<Longrightarrow>
    ptrs_behind uls m (lptrs[j := advance (uls ! j) x (lptrs ! j)]) x"
  using advance_spec [of "lptrs ! j" "uls ! j" x]
  by (auto simp: ptrs_behind_def nth_list_update)

lemma intersectSorted_inner_spec:
  assumes "\<forall>l \<in> set uls. sorted l" "ptrs_behind uls m lptrs x"
  shows "(fst (intersectSorted_inner uls m x lptrs j) \<longleftrightarrow>
      (\<exists>i. j \<le> i \<and> i < length uls \<and> i \<noteq> m \<and> x \<notin> set (uls ! i))) \<and>
    ptrs_behind uls m (snd (intersectSorted_inner uls m x lptrs j)) x"
  using assms
proof (induction uls m x lptrs j rule: intersectSorted_inner.induct)
  case (1 uls m x lptrs j)
  consider (stop) "\<not> j < length uls" | (own) "j < length uls" "j = m"
    | (other) "j < length uls" "j \<noteq> m" by blast
  then show ?case
  proof cases
    case stop
    then have "intersectSorted_inner uls m x lptrs j = (False, lptrs)"
      by (subst intersectSorted_inner.simps) simp
    with stop "1.prems"(2) show ?thesis by auto
  next
    case own
    have "(\<exists>i. j \<le> i \<and> i < length uls \<and> i \<noteq> m \<and> x \<notin> set (uls ! i)) \<longleftrightarrow>
        (\<exists>i. Suc j \<le> i \<and> i < length uls \<and> i \<noteq> m \<and> x \<notin> set (uls ! i))"
      using own by (intro ex_cong1) (auto simp: Suc_le_eq order_le_less)
    moreover have "intersectSorted_inner uls m x lptrs j = intersectSorted_inner uls m x lptrs (Suc j)"
      using own by (subst intersectSorted_inner.simps) simp
    ultimately show ?thesis using "1.IH"(1) [OF own "1.prems"] by simp
  next
    case other
    define ljp where "ljp = advance (uls ! j) x (lptrs ! j)"
    define lptrs' where "lptrs' = lptrs[j := ljp]"
    have behind: "lptrs ! j \<le> length (uls ! j)" "\<forall>k<lptrs ! j. uls ! j ! k < x"
      using "1.prems"(2) other by (auto simp: ptrs_behind_def)
    have sorted: "sorted (uls ! j)" using "1.prems"(1) other by simp
    have mem: "(length (uls ! j) \<le> ljp \<or> x < uls ! j ! ljp) = (x \<notin> set (uls ! j))"
      using advance_member [OF sorted behind] advance_spec [OF behind]
      unfolding ljp_def [symmetric] by (metis leD linorder_le_less_linear order_le_less)
    have ptrs: "ptrs_behind uls m lptrs' x"
      using ptrs_behind_update [OF "1.prems"(2) other] by (simp add: lptrs'_def ljp_def)
    have step: "intersectSorted_inner uls m x lptrs j =
        (if x \<notin> set (uls ! j) then (True, lptrs')
         else intersectSorted_inner uls m x lptrs' (Suc j))"
      using other mem by (subst intersectSorted_inner.simps) (simp add: Let_def ljp_def lptrs'_def)
    show ?thesis
    proof (cases "x \<in> set (uls ! j)")
      case False
      with step ptrs other show ?thesis by auto
    next
      case True
      have "(\<exists>i. j \<le> i \<and> i < length uls \<and> i \<noteq> m \<and> x \<notin> set (uls ! i)) \<longleftrightarrow>
          (\<exists>i. Suc j \<le> i \<and> i < length uls \<and> i \<noteq> m \<and> x \<notin> set (uls ! i))"
        using True by (intro ex_cong1) (auto simp: Suc_le_eq order_le_less)
      then show ?thesis
        using "1.IH"(2) [OF other refl ljp_def lptrs'_def] mem True "1.prems"(1) ptrs step by simp
    qed
  qed
qed

lemma intersectSorted_outer_spec:
  assumes "\<forall>l \<in> set uls. ssorted l" "m < length uls" "i \<le> length (uls ! m)"
    "i < length (uls ! m) \<longrightarrow> ptrs_behind uls m lptrs (uls ! m ! i)"
  shows "intersectSorted_outer uls m i lptrs acc =
    Inr (acc @ filter (\<lambda>x. \<forall>l \<in> set uls. x \<in> set l) (drop i (uls ! m)))"
  using assms
proof (induction uls m i lptrs acc rule: intersectSorted_outer.induct)
  case (1 uls m i lptrs acc)
  show ?case
  proof (cases "i < length (uls ! m)")
    case False
    with "1.prems" show ?thesis by (subst intersectSorted_outer.simps) simp
  next
    case True
    define x where "x = uls ! m ! i"
    define skip where "skip = fst (intersectSorted_inner uls m x lptrs 0)"
    define lptrs' where "lptrs' = snd (intersectSorted_inner uls m x lptrs 0)"
    have ss: "ssorted (uls ! m)" using "1.prems"(1,2) by simp
    have pair: "(skip, lptrs') = intersectSorted_inner uls m x lptrs 0"
      by (simp add: skip_def lptrs'_def)
    have inner: "skip \<longleftrightarrow> (\<exists>j<length uls. j \<noteq> m \<and> x \<notin> set (uls ! j))" "ptrs_behind uls m lptrs' x"
      using intersectSorted_inner_spec [of uls m lptrs x 0] "1.prems" True
      by (auto simp: skip_def lptrs'_def x_def ssorted_sorted)
    have nodup: "\<not> (0 < i \<and> x = uls ! m ! (i - 1))"
      using ssorted_nth_mono [OF ss _ True, of "i - 1"] True unfolding x_def by (cases i) auto
    have "x \<in> set (uls ! m)" using True by (simp add: x_def)
    then have keep: "\<not> skip \<longleftrightarrow> (\<forall>l \<in> set uls. x \<in> set l)"
      using inner(1) by (metis in_set_conv_nth)
    have next': "ptrs_behind uls m lptrs' (uls ! m ! Suc i)" if "Suc i < length (uls ! m)"
      using ptrs_behind_mono [OF inner(2)] ssorted_nth_mono [OF ss, of i "Suc i"] that True
      by (simp add: x_def less_imp_le)
    have IH: "intersectSorted_outer uls m (Suc i) lptrs' (if skip then acc else acc @ [x]) =
        Inr ((if skip then acc else acc @ [x]) @
          filter (\<lambda>x. \<forall>l \<in> set uls. x \<in> set l) (drop (Suc i) (uls ! m)))"
      using "1.IH" [OF refl True x_def nodup pair refl] "1.prems"(1,2) next' True by simp
    have "intersectSorted_outer uls m i lptrs acc =
        intersectSorted_outer uls m (Suc i) lptrs' (if skip then acc else acc @ [x])"
      using True nodup
      by (subst intersectSorted_outer.simps)
        (auto simp: Let_def x_def [symmetric] pair [symmetric])
    moreover have "drop i (uls ! m) = x # drop (Suc i) (uls ! m)"
      using True by (simp add: x_def Cons_nth_drop_Suc)
    ultimately show ?thesis using IH keep by auto
  qed
qed

lemma IntersectSorted_filter:
  assumes "\<forall>l \<in> set uls. ssorted l" "uls \<noteq> []"
  shows "\<exists>m<length uls. IntersectSorted uls =
    Inr (filter (\<lambda>x. \<forall>l \<in> set uls. x \<in> set l) (uls ! m))"
proof -
  let ?m = "minLen_loop uls 1 (length (uls ! 0)) 0"
  have m: "?m < length uls" using assms(2) by (intro minLen_loop_bound) simp
  have "ptrs_behind uls ?m (replicate (length uls) 0) x" for x by (simp add: ptrs_behind_def)
  then have "IntersectSorted uls = Inr (filter (\<lambda>x. \<forall>l \<in> set uls. x \<in> set l) (uls ! ?m))"
    using intersectSorted_outer_spec [OF assms(1) m] assms(2) by (simp add: IntersectSorted_def)
  with m show ?thesis by blast
qed

lemma IntersectSorted_eq:
  assumes "\<forall>l \<in> set uls. ssorted l" "uls \<noteq> []"
  shows "IntersectSorted uls = Inr (sorted_list_of_set (\<Inter>l \<in> set uls. set l))"
proof -
  obtain m where m: "m < length uls"
    "IntersectSorted uls = Inr (filter (\<lambda>x. \<forall>l \<in> set uls. x \<in> set l) (uls ! m))"
    using IntersectSorted_filter [OF assms] by blast
  have "finite (\<Inter>l \<in> set uls. set l)" using m(1) by (meson INT_lower finite_set nth_mem rev_finite_subset)
  moreover have "ssorted (filter (\<lambda>x. \<forall>l \<in> set uls. x \<in> set l) (uls ! m))"
    using assms(1) m(1) by (intro ssorted_filter) simp
  ultimately have "filter (\<lambda>x. \<forall>l \<in> set uls. x \<in> set l) (uls ! m) =
      sorted_list_of_set (\<Inter>l \<in> set uls. set l)"
    using m(1) by (intro ssorted_set_unique) auto
  with m show ?thesis by simp
qed

section \<open>Merging\<close>

text \<open>
  The loop's invariant over the abstract queue: the lists in \<open>A\<close> still have one element each in
  the queue, the others are used up; the output is sorted and holds what was consumed; nothing
  in the queue is smaller than what was put out.
\<close>

definition merge_inv ::
    "('h \<Rightarrow> bool) \<Rightarrow> ('h \<Rightarrow> elem multiset) \<Rightarrow> u64 list list \<Rightarrow> nat set \<Rightarrow> 'h merge_state \<Rightarrow> bool" where
  "merge_inv invar elems uls A st \<longleftrightarrow>
     invar (mheap st) \<and> length (midx st) = length uls \<and> A \<subseteq> {..<length uls} \<and>
     (\<forall>i \<in> A. midx st ! i < length (uls ! i)) \<and>
     elems (mheap st) =
       image_mset (\<lambda>i. \<lparr>val = uls ! i ! (midx st ! i), listIdx = i\<rparr>) (mset_set A) \<and>
     ssorted (moutput st) \<and>
     set (moutput st) = (\<Union>i<length uls. set (if i \<in> A then take (midx st ! i) (uls ! i) else uls ! i)) \<and>
     (\<forall>i \<in> A. \<forall>x \<in> set (moutput st). x \<le> uls ! i ! (midx st ! i)) \<and>
     (moutput st \<noteq> [] \<longrightarrow> mlast st = last (moutput st))"

text \<open>Putting out the value of the top, unless it was just put out.\<close>

definition emit_val :: "u64 \<Rightarrow> 'h merge_state \<Rightarrow> 'h merge_state" where
  "emit_val v st = (if moutput st = [] \<or> v \<noteq> mlast st
     then st\<lparr>moutput := moutput st @ [v], mlast := v\<rparr> else st)"

lemma emit_val_sorted:
  assumes "ssorted (moutput st)" "\<forall>x \<in> set (moutput st). x \<le> v"
    and "moutput st \<noteq> [] \<longrightarrow> mlast st = last (moutput st)"
  shows "ssorted (moutput (emit_val v st))" "set (moutput (emit_val v st)) = insert v (set (moutput st))"
    "mlast (emit_val v st) = last (moutput (emit_val v st))" "moutput (emit_val v st) \<noteq> []"
proof -
  have last: "x \<le> last (moutput st)" if "x \<in> set (moutput st)" for x
    using that assms(1) by (metis in_set_conv_nth last_conv_nth length_pos_if_in_set less_Suc_eq_le
        One_nat_def Suc_pred sorted_nth_mono ssorted_sorted diff_less length_greater_0_conv zero_less_one)
  have "x < v" if "moutput st \<noteq> []" "v \<noteq> mlast st" "x \<in> set (moutput st)" for x
    using last [OF that(3)] assms(2,3) that by (metis last_in_set order_le_less order_le_less_trans)
  then show "ssorted (moutput (emit_val v st))"
    using assms(1) by (cases "moutput st = []") (auto simp: emit_val_def sorted_wrt_append)
  show "set (moutput (emit_val v st)) = insert v (set (moutput st))"
    using assms(3) by (auto simp: emit_val_def)
  show "mlast (emit_val v st) = last (moutput (emit_val v st))" "moutput (emit_val v st) \<noteq> []"
    using assms(3) by (auto simp: emit_val_def)
qed

lemma emit_val_frame [simp]:
  "midx (emit_val v st) = midx st" "mheap (emit_val v st) = mheap st"
  by (auto simp: emit_val_def)

lemma set_take_Suc: "k < length l \<Longrightarrow> set (take (Suc k) l) = insert (l ! k) (set (take k l))"
  by (simp add: take_Suc_conv_app_nth)

lemma UN_insert_at:
  "k \<in> I \<Longrightarrow> f' k = insert v (f k) \<Longrightarrow> (\<And>i. i \<noteq> k \<Longrightarrow> f' i = f i) \<Longrightarrow>
    (\<Union>i\<in>I. f' i) = insert v (\<Union>i\<in>I. f i)"
  by (auto; metis insertE insertI2)

lemma UNION_nth_eq: "(\<Union>i<length xs. f (xs ! i)) = (\<Union>x\<in>set xs. f x)"
  by (auto simp: set_conv_nth)

text \<open>The queue \<^verbatim>\<open>MergeSorted\<close> needs: the contract of \<open>min_queue\<close> for elements ordered by value.\<close>

locale elem_queue =
  min_queue val invar elems top push pop set_top
  for invar :: "'h \<Rightarrow> bool" and elems :: "'h \<Rightarrow> elem multiset" and top :: "'h \<Rightarrow> elem"
    and push :: "'h \<Rightarrow> elem \<Rightarrow> 'h" and pop :: "'h \<Rightarrow> 'h" and set_top :: "'h \<Rightarrow> elem \<Rightarrow> 'h"
begin

text \<open>One iteration keeps the invariant and either retires a list or moves along it.\<close>

lemma merge_body_inv:
  assumes inv: "merge_inv invar elems uls A st" and A: "A \<noteq> {}"
    and sorted: "\<forall>l \<in> set uls. sorted l"
  shows "\<exists>st' A'. merge_body top pop set_top uls st = Inr st' \<and> merge_inv invar elems uls A' st'"
proof -
  let ?E = "\<lambda>idx i. \<lparr>val = uls ! i ! (idx ! i), listIdx = i\<rparr>"
  have fin: "finite A" using inv by (metis finite_lessThan finite_subset merge_inv_def)
  have h: "invar (mheap st)" "elems (mheap st) = image_mset (?E (midx st)) (mset_set A)"
    and len: "length (midx st) = length uls"
    using inv by (auto simp: merge_inv_def)
  have sub: "A \<subseteq> {..<length uls}" and idxb: "\<And>i. i \<in> A \<Longrightarrow> midx st ! i < length (uls ! i)"
    using inv by (auto simp: merge_inv_def)
  have ne: "elems (mheap st) \<noteq> {#}" using h(2) A fin by (simp add: mset_set_empty_iff)
  obtain k where k: "k \<in> A" "top (mheap st) = ?E (midx st) k"
    using top_elem [OF h(1) ne] h(2) fin by auto
  have ku: "k < length uls" "midx st ! k < length (uls ! k)" using inv k by (auto simp: merge_inv_def)
  define v where "v = uls ! k ! (midx st ! k)"
  have v_min: "v \<le> uls ! i ! (midx st ! i)" if "i \<in> A" for i
    using top_min [OF h(1), of "?E (midx st) i"] that h(2) fin k by (simp add: v_def)
  have out_le: "\<forall>x \<in> set (moutput st). x \<le> v" using inv k by (auto simp: merge_inv_def v_def)
  define st1 where "st1 = emit_val v st"
  have out1: "ssorted (moutput st1)" "set (moutput st1) = insert v (set (moutput st))"
      "mlast st1 = last (moutput st1)" "moutput st1 \<noteq> []"
    unfolding st1_def using emit_val_sorted [OF _ out_le] inv by (auto simp: merge_inv_def)
  have frame: "midx st1 = midx st" "mheap st1 = mheap st" by (simp_all add: st1_def)
  have rest: "elems (mheap st) - {#top (mheap st)#} = image_mset (?E (midx st)) (mset_set (A - {k}))"
    using h(2) k fin by (simp add: mset_set_Diff image_mset_Diff)
  have outset: "set (moutput st) =
      (\<Union>i<length uls. set (if i \<in> A then take (midx st ! i) (uls ! i) else uls ! i))"
    using inv by (simp add: merge_inv_def)
  let ?i = "midx st ! k"
  show ?thesis
  proof (cases "length (uls ! k) - 1 \<le> ?i")
    case True
    have all: "set (uls ! k) = insert v (set (take ?i (uls ! k)))"
      using set_take_Suc [OF ku(2)] True ku(2) by (simp add: v_def take_all)
    define st2 where "st2 = st1\<lparr>mheap := pop (mheap st)\<rparr>"
    have st2: "moutput st2 = moutput st1" "midx st2 = midx st" by (simp_all add: st2_def frame)
    have "merge_body top pop set_top uls st = Inr st2"
      using True ku len k(2)
      by (simp add: merge_body_def Let_def st2_def st1_def emit_val_def v_def)
    moreover have "merge_inv invar elems uls (A - {k}) st2"
      unfolding merge_inv_def
    proof (intro conjI)
      show "set (moutput st2) = (\<Union>i<length uls.
          set (if i \<in> A - {k} then take (midx st2 ! i) (uls ! i) else uls ! i))"
        unfolding st2 out1(2) outset
        by (rule UN_insert_at [of k, symmetric]) (use ku(1) k(1) all in auto)
      show "invar (mheap st2)" using invar_pop [OF h(1) ne] by (simp add: st2_def)
      show "length (midx st2) = length uls" unfolding st2 by (rule len)
      show "A - {k} \<subseteq> {..<length uls}" using sub by blast
      show "\<forall>i\<in>A - {k}. midx st2 ! i < length (uls ! i)" unfolding st2 using idxb by blast
      show "elems (mheap st2) =
          image_mset (\<lambda>i. \<lparr>val = uls ! i ! (midx st2 ! i), listIdx = i\<rparr>) (mset_set (A - {k}))"
        unfolding st2 using elems_pop [OF h(1) ne] rest by (simp add: st2_def)
      show "ssorted (moutput st2)" unfolding st2 by (rule out1(1))
      show "moutput st2 \<noteq> [] \<longrightarrow> mlast st2 = last (moutput st2)"
        using out1(3) by (simp add: st2_def)
      show "\<forall>i\<in>A - {k}. \<forall>x\<in>set (moutput st2). x \<le> uls ! i ! (midx st2 ! i)"
        unfolding st2 out1(2) using v_min out_le by (auto intro: order_trans)
    qed
    ultimately show ?thesis by blast
  next
    case False
    define idx' where "idx' = (midx st)[k := ?i + 1]"
    define st2 where "st2 = st1\<lparr>midx := idx', mheap := set_top (mheap st) (?E idx' k)\<rparr>"
    have idx': "idx' ! k = ?i + 1" "\<And>i. i \<noteq> k \<Longrightarrow> idx' ! i = midx st ! i" "length idx' = length uls"
      using ku len by (simp_all add: idx'_def)
    have le: "v \<le> uls ! k ! (?i + 1)"
      using sorted ku False by (simp add: v_def sorted_nth_mono)
    have cong: "image_mset (?E idx') (mset_set (A - {k})) = image_mset (?E (midx st)) (mset_set (A - {k}))"
      using fin by (intro image_mset_cong) (auto simp: idx')
    have st2: "moutput st2 = moutput st1" "midx st2 = idx'" by (simp_all add: st2_def)
    have "merge_body top pop set_top uls st = Inr st2"
      using False ku len k(2)
      by (simp add: merge_body_def Let_def st2_def st1_def emit_val_def v_def idx'_def)
    moreover have "merge_inv invar elems uls A st2"
      unfolding merge_inv_def
    proof (intro conjI)
      have "mset_set A = add_mset k (mset_set (A - {k}))"
        using fin k(1) by (metis mset_set.remove)
      then show "elems (mheap st2) =
          image_mset (\<lambda>i. \<lparr>val = uls ! i ! (midx st2 ! i), listIdx = i\<rparr>) (mset_set A)"
        using elems_set_top [OF h(1) ne] rest cong by (simp add: st2_def)
      show "set (moutput st2) = (\<Union>i<length uls.
          set (if i \<in> A then take (midx st2 ! i) (uls ! i) else uls ! i))"
      proof -
        have "set (take (idx' ! k) (uls ! k)) = insert v (set (take ?i (uls ! k)))"
          using set_take_Suc [OF ku(2)] idx'(1) by (simp add: v_def)
        then show ?thesis
          unfolding st2 out1(2) outset
          by (intro UN_insert_at [of k, symmetric]) (use ku(1) k(1) idx'(2) in auto)
      qed
      show "\<forall>i\<in>A. \<forall>x\<in>set (moutput st2). x \<le> uls ! i ! (midx st2 ! i)"
      proof (intro ballI)
        fix i x assume "i \<in> A" "x \<in> set (moutput st2)"
        then have "x \<le> v" using out1(2) out_le by (auto simp: st2_def)
        also have "v \<le> uls ! i ! (midx st2 ! i)"
          using v_min [OF \<open>i \<in> A\<close>] le idx' by (cases "i = k") (auto simp: st2_def)
        finally show "x \<le> uls ! i ! (midx st2 ! i)" .
      qed
      show "\<forall>i\<in>A. midx st2 ! i < length (uls ! i)"
      proof
        fix i assume "i \<in> A"
        then show "midx st2 ! i < length (uls ! i)"
          unfolding st2 using idxb idx' False by (cases "i = k") auto
      qed
      show "invar (mheap st2)" using invar_set_top [OF h(1) ne] by (simp add: st2_def)
      show "length (midx st2) = length uls" unfolding st2 by (rule idx'(3))
      show "A \<subseteq> {..<length uls}" by (rule sub)
      show "ssorted (moutput st2)" unfolding st2 by (rule out1(1))
      show "moutput st2 \<noteq> [] \<longrightarrow> mlast st2 = last (moutput st2)"
        using out1(3) by (simp add: st2_def)
    qed
    ultimately show ?thesis by blast
  qed
qed

lemma merge_inv_done:
  assumes "merge_inv invar elems uls A st" "elems (mheap st) = {#}"
  shows "A = {}"
proof -
  have "A \<subseteq> {..<length uls}" using assms(1) by (simp add: merge_inv_def)
  then have "finite A" by (rule finite_subset) simp
  moreover have "mset_set A = {#}" using assms unfolding merge_inv_def by simp
  ultimately show ?thesis by (simp add: mset_set_empty_iff)
qed

end

interpretation uid_heap: elem_queue "is_heap val" mset "\<lambda>h. h ! 0" "heap_Push val"
  "heap_Pop val" "heap_set_top val"
  by unfold_locales

lemma merge_loop_spec:
  assumes "merge_inv (is_heap val) mset uls A st" "\<forall>l \<in> set uls. sorted l"
  shows "\<exists>xs. merge_loop uls st = Inr xs \<and> ssorted xs \<and> set xs = (\<Union>l \<in> set uls. set l)"
  using assms
proof (induction uls st arbitrary: A rule: merge_loop.induct)
  case (1 uls st)
  show ?case
  proof (cases "mheap st = []")
    case True
    then have "A = {}" using uid_heap.merge_inv_done [OF "1.prems"(1)] by simp
    then have "ssorted (moutput st)" "set (moutput st) = (\<Union>l \<in> set uls. set l)"
      using "1.prems"(1) by (simp_all add: merge_inv_def set_conv_nth [of uls] UNION_nth_eq)
    with True show ?thesis by (simp add: merge_loop.simps [of uls st])
  next
    case False
    have "A \<noteq> {}" using False "1.prems"(1) by (auto simp: merge_inv_def)
    then obtain st' A' where st': "merge_body (\<lambda>h. h ! 0) (heap_Pop val) (heap_set_top val) uls st = Inr st'"
        "merge_inv (is_heap val) mset uls A' st'"
      using uid_heap.merge_body_inv [OF "1.prems"(1) _ "1.prems"(2)] by blast
    show ?thesis
      using "1.IH" [OF False st'(1,2) "1.prems"(2)] False st'(1)
      by (simp add: merge_loop.simps [of uls st])
  qed
qed

lemma merge_init_spec:
  assumes "is_heap val h"
  shows "is_heap val (merge_init i ls h) \<and>
    mset (merge_init i ls h) = mset h +
      image_mset (\<lambda>k. \<lparr>val = ls ! k ! 0, listIdx = i + k\<rparr>)
        (mset_set {k. k < length ls \<and> ls ! k \<noteq> []})"
  using assms
proof (induction i ls h rule: merge_init.induct)
  case (2 i l ls h)
  let ?A = "{k. k < length ls \<and> ls ! k \<noteq> []}"
  have split: "{k. k < length (l # ls) \<and> (l # ls) ! k \<noteq> []} =
      (if l \<noteq> [] then insert 0 (Suc ` ?A) else Suc ` ?A)"
    by (auto simp: less_Suc_eq_0_disj)
  have img: "mset_set (Suc ` ?A) = image_mset Suc (mset_set ?A)"
    by (simp add: image_mset_mset_set)
  have heads: "image_mset (\<lambda>k. \<lparr>val = (l # ls) ! k ! 0, listIdx = i + k\<rparr>)
        (mset_set {k. k < length (l # ls) \<and> (l # ls) ! k \<noteq> []}) =
      (if l \<noteq> [] then {#\<lparr>val = l ! 0, listIdx = i\<rparr>#} else {#}) +
        image_mset (\<lambda>k. \<lparr>val = ls ! k ! 0, listIdx = Suc i + k\<rparr>) (mset_set ?A)"
    unfolding split by (simp add: img image_mset.compositionality comp_def)
  have "is_heap val (if l \<noteq> [] then heap_Push val h \<lparr>val = l ! 0, listIdx = i\<rparr> else h)"
    using "2.prems" heap_Push_heap by (cases "l = []") auto
  from "2.IH" [OF this] show ?case
    unfolding heads by (simp add: heap_Push_mset)
qed simp

lemma MergeSorted_spec:
  assumes "\<forall>l \<in> set uls. sorted l"
  shows "\<exists>xs. MergeSorted uls = Inr xs \<and> ssorted xs \<and> set xs = (\<Union>l \<in> set uls. set l)"
proof (cases "uls = []")
  case False
  let ?A = "{k. k < length uls \<and> uls ! k \<noteq> []}"
  let ?st = "\<lparr>mheap = merge_init 0 uls [], midx = replicate (length uls) 0, moutput = [], mlast = 0\<rparr>"
  have "is_heap val []" by (simp add: heap_ordered_def)
  from merge_init_spec [OF this, of 0 uls] have "merge_inv (is_heap val) mset uls ?A ?st"
    by (auto simp: merge_inv_def intro!: image_mset_cong)
  from merge_loop_spec [OF this assms] False show ?thesis by (simp add: MergeSorted_def)
qed (simp add: MergeSorted_def)

lemma MergeSorted_eq:
  assumes "\<forall>l \<in> set uls. sorted l"
  shows "MergeSorted uls = Inr (sorted_list_of_set (\<Union>l \<in> set uls. set l))"
proof -
  obtain xs where xs: "MergeSorted uls = Inr xs" "ssorted xs" "set xs = (\<Union>l \<in> set uls. set l)"
    using MergeSorted_spec [OF assms] by blast
  then have "xs = sorted_list_of_set (\<Union>l \<in> set uls. set l)"
    by (intro ssorted_set_unique) auto
  with xs show ?thesis by simp
qed

section \<open>Properties\<close>

text \<open>
  C3: \<^verbatim>\<open>MergeSorted\<close>, a k-way merge over the binary heap of \<^verbatim>\<open>container/heap\<close>, ends on every input of
  sorted lists and returns the sorted list of the union, without duplicates.
\<close>

theorem merge_sorted_union:
  assumes "\<forall>l \<in> set uls. sorted l"
  shows "MergeSorted uls = Inr (sorted_list_of_set (\<Union>l \<in> set uls. set l))"
  using assms by (rule MergeSorted_eq)

theorem merge_sorted_union_witness:
  "MergeSorted [[1, 4, 4], [], [2, 4, 9]] = Inr [1, 2, 4, 9]"
proof -
  have "sorted_list_of_set (\<Union>l \<in> set [[1, 4, 4], [], [2, 4, 9 :: u64]]. set l) = [1, 2, 4, 9]"
    by code_simp
  then show ?thesis using merge_sorted_union [of "[[1, 4, 4], [], [2, 4, 9]]"] by simp
qed

text \<open>
  C8: \<^verbatim>\<open>IntersectSorted\<close>, which walks the shortest list and advances a pointer in each of the
  others, returns the sorted intersection of strictly sorted lists.
\<close>

theorem intersect_sorted_intersection:
  assumes "\<forall>l \<in> set uls. ssorted l" "uls \<noteq> []"
  shows "IntersectSorted uls = Inr (sorted_list_of_set (\<Inter>l \<in> set uls. set l))"
  using assms by (rule IntersectSorted_eq)

theorem intersect_sorted_intersection_witness:
  "IntersectSorted [[1, 2, 4, 7], [2, 3, 4, 9], [0, 2, 4]] = Inr [2, 4]"
proof -
  have "sorted_list_of_set (\<Inter>l \<in> set [[1, 2, 4, 7], [2, 3, 4, 9], [0, 2, 4 :: u64]]. set l) = [2, 4]"
    by code_simp
  then show ?thesis
    using intersect_sorted_intersection [of "[[1, 2, 4, 7], [2, 3, 4, 9], [0, 2, 4]]"] by simp
qed

text \<open>
  \<^verbatim>\<open>IntersectWith\<close> overwrites its first argument while it reads it, and still leaves there
  exactly the elements that are in the second list, in order and with their duplicates; and
  \<^verbatim>\<open>IndexOf\<close> answers -1 exactly for absent uids and an index of the uid otherwise.
\<close>

lemma intersect_with_in_place:
  assumes "sorted u" "sorted v"
  shows "IntersectWith u v = filter (\<lambda>x. x \<in> set v) u
    \<and> (IndexOf u uid = - 1 \<longleftrightarrow> uid \<notin> set u)
    \<and> (0 \<le> IndexOf u uid \<longrightarrow> nat (IndexOf u uid) < length u \<and> u ! nat (IndexOf u uid) = uid)"
  using IntersectWith_eq [OF assms] IndexOf_spec [OF assms(1)] by simp

end
