(* ===== verification/Go_Binary.thy ===== *)
theory Go_Binary
  imports Go_Prelude
begin

text \<open>
  Go's \<^verbatim>\<open>encoding/binary\<close>: fixed width integers in big and little endian order, read back
  with the panic of a slice that is too short. Shown: each encoding is inverted by its decoder, and the big endian one turns
  the order of numbers into the byte order that the key-value store iterates in. The locale
  \<open>codec\<close> is the contract of an encoder and its decoder; each codec of the program is an
  interpretation of it.
\<close>

section \<open>Bytes of a number\<close>

fun le_nat :: "nat \<Rightarrow> nat \<Rightarrow> bytes" where
  "le_nat 0 x = []"
| "le_nat (Suc n) x = char_of x # le_nat n (x div 256)"

definition be_nat :: "nat \<Rightarrow> nat \<Rightarrow> bytes" where
  "be_nat n x = rev (le_nat n x)"

fun le_val :: "bytes \<Rightarrow> nat" where
  "le_val [] = 0"
| "le_val (b # bs) = of_char b + 256 * le_val bs"

definition be_val :: "bytes \<Rightarrow> nat" where
  "be_val bs = le_val (rev bs)"

text \<open>
  \<^verbatim>\<open>binary.BigEndian\<close> and \<^verbatim>\<open>binary.LittleEndian\<close>. The readers look at the first bytes of the
  slice and panic when it is too short.
\<close>

definition BigEndian_PutUint64 :: "u64 \<Rightarrow> bytes" where
  "BigEndian_PutUint64 w = be_nat 8 (unat w)"

definition BigEndian_PutUint32 :: "u32 \<Rightarrow> bytes" where
  "BigEndian_PutUint32 w = be_nat 4 (unat w)"

definition BigEndian_Uint64 :: "bytes \<Rightarrow> u64 go" where
  "BigEndian_Uint64 b =
     (if length b < 8 then Inl (Panic ''index out of range'')
      else Inr (word_of_nat (be_val (take 8 b))))"

definition LittleEndian_PutUint64 :: "u64 \<Rightarrow> bytes" where
  "LittleEndian_PutUint64 w = le_nat 8 (unat w)"

definition LittleEndian_PutUint32 :: "u32 \<Rightarrow> bytes" where
  "LittleEndian_PutUint32 w = le_nat 4 (unat w)"

definition LittleEndian_PutUint16 :: "u16 \<Rightarrow> bytes" where
  "LittleEndian_PutUint16 w = le_nat 2 (unat w)"

definition LittleEndian_Uint64 :: "bytes \<Rightarrow> u64 go" where
  "LittleEndian_Uint64 b =
     (if length b < 8 then Inl (Panic ''index out of range'')
      else Inr (word_of_nat (le_val (take 8 b))))"

definition LittleEndian_Uint32 :: "bytes \<Rightarrow> u32 go" where
  "LittleEndian_Uint32 b =
     (if length b < 4 then Inl (Panic ''index out of range'')
      else Inr (word_of_nat (le_val (take 4 b))))"

definition LittleEndian_Uint16 :: "bytes \<Rightarrow> u16 go" where
  "LittleEndian_Uint16 b =
     (if length b < 2 then Inl (Panic ''index out of range'')
      else Inr (word_of_nat (le_val (take 2 b))))"

section \<open>Round trips\<close>

lemma length_le_nat [simp]: "length (le_nat n x) = n"
  by (induction n arbitrary: x) auto

lemma length_be_nat [simp]: "length (be_nat n x) = n"
  by (simp add: be_nat_def)

lemma le_val_le_nat: "le_val (le_nat n x) = x mod 256 ^ n"
proof (induction n arbitrary: x)
  case (Suc n)
  then show ?case by (simp add: mod_mult2_eq [of x 256 "256 ^ n"] mult.commute)
qed simp

lemma be_val_be_nat: "be_val (be_nat n x) = x mod 256 ^ n"
  by (simp add: be_val_def be_nat_def le_val_le_nat)

lemma le_val_less: "le_val bs < 256 ^ length bs"
proof (induction bs)
  case (Cons b bs)
  have "of_char b < (256 :: nat)" by simp
  then have "of_char b + 256 * le_val bs < 256 * Suc (le_val bs)" by simp
  also have "\<dots> \<le> 256 * 256 ^ length bs" using Cons by (intro mult_le_mono2) simp
  finally show ?case by simp
qed simp

lemma le_nat_le_val: "le_nat (length bs) (le_val bs) = bs"
proof (induction bs)
  case (Cons b bs)
  have "of_char b < (256 :: nat)" by simp
  then have "(of_char b + 256 * le_val bs) div 256 = le_val bs"
    and "char_of (of_char b + 256 * le_val bs) = b"
    by (auto simp: char_of_mod_256 [of "of_char b + 256 * le_val bs", symmetric]
        simp del: char_of_mod_256)
  with Cons show ?case by simp
qed simp

lemma unat_less_256_8: "unat (w :: u64) < 256 ^ 8"
proof -
  have "unat w < 2 ^ LENGTH(64)" by (rule unsigned_less)
  then show ?thesis by simp
qed

lemma unat_mod_256_8 [simp]: "unat (w :: u64) mod 256 ^ 8 = unat w"
  by (rule mod_less) (rule unat_less_256_8)

lemma unat_less_256_4: "unat (w :: u32) < 256 ^ 4"
proof -
  have "unat w < 2 ^ LENGTH(32)" by (rule unsigned_less)
  then show ?thesis by simp
qed

lemma unat_mod_256_4 [simp]: "unat (w :: u32) mod 256 ^ 4 = unat w"
  by (rule mod_less) (rule unat_less_256_4)

lemma unat_less_256_2: "unat (w :: u16) < 256 ^ 2"
proof -
  have "unat w < 2 ^ LENGTH(16)" by (rule unsigned_less)
  then show ?thesis by simp
qed

lemma unat_mod_256_2 [simp]: "unat (w :: u16) mod 256 ^ 2 = unat w"
  by (rule mod_less) (rule unat_less_256_2)

lemma BigEndian_Uint64_Put [simp]: "BigEndian_Uint64 (BigEndian_PutUint64 w @ bs) = Inr w"
  by (simp add: BigEndian_Uint64_def BigEndian_PutUint64_def be_val_be_nat
      del: power_numeral)

lemma LittleEndian_Uint64_Put [simp]:
  "LittleEndian_Uint64 (LittleEndian_PutUint64 w @ bs) = Inr w"
  by (simp add: LittleEndian_Uint64_def LittleEndian_PutUint64_def le_val_le_nat
      del: power_numeral)

lemma LittleEndian_Uint32_Put [simp]:
  "LittleEndian_Uint32 (LittleEndian_PutUint32 w @ bs) = Inr w"
  by (simp add: LittleEndian_Uint32_def LittleEndian_PutUint32_def le_val_le_nat
      del: power_numeral)

lemma LittleEndian_Uint16_Put [simp]:
  "LittleEndian_Uint16 (LittleEndian_PutUint16 w @ bs) = Inr w"
  by (simp add: LittleEndian_Uint16_def LittleEndian_PutUint16_def le_val_le_nat
      del: power_numeral)

lemma length_Put [simp]:
  "length (BigEndian_PutUint64 w) = 8" "length (BigEndian_PutUint32 v) = 4"
  "length (LittleEndian_PutUint64 w) = 8" "length (LittleEndian_PutUint32 v) = 4"
  "length (LittleEndian_PutUint16 u) = 2"
  by (simp_all add: BigEndian_PutUint64_def BigEndian_PutUint32_def LittleEndian_PutUint64_def
      LittleEndian_PutUint32_def LittleEndian_PutUint16_def)

section \<open>Big endian keys sort like numbers\<close>

lemma less_append_eq_length:
  fixes as cs :: "'a::linorder list"
  assumes "length as = length cs"
  shows "as @ bs < cs @ ds \<longleftrightarrow> as < cs \<or> as = cs \<and> bs < ds"
  using assms by (induction as cs rule: list_induct2) auto

lemma be_nat_Suc: "be_nat (Suc n) x = be_nat n (x div 256) @ [char_of x]"
  by (simp add: be_nat_def)

lemma be_nat_inj: "x < 256 ^ n \<Longrightarrow> y < 256 ^ n \<Longrightarrow> be_nat n x = be_nat n y \<longleftrightarrow> x = y"
  by (metis be_val_be_nat mod_less)

lemma char_of_less: "char_of (x :: nat) < (char_of y :: char) \<longleftrightarrow> x mod 256 < y mod 256"
  by (simp add: less_char_def)

lemma less_div_mod_256:
  fixes x y :: nat
  shows "x < y \<longleftrightarrow> x div 256 < y div 256 \<or> x div 256 = y div 256 \<and> x mod 256 < y mod 256"
proof -
  have "x = 256 * (x div 256) + x mod 256" "y = 256 * (y div 256) + y mod 256" by simp_all
  moreover have "x mod 256 < 256" "y mod 256 < 256" by simp_all
  ultimately show ?thesis by linarith
qed

lemma be_nat_less: "x < 256 ^ n \<Longrightarrow> y < 256 ^ n \<Longrightarrow> be_nat n x < be_nat n y \<longleftrightarrow> x < y"
proof (induction n arbitrary: x y)
  case 0
  then show ?case by (simp add: be_nat_def)
next
  case (Suc n)
  have b: "x div 256 < 256 ^ n" "y div 256 < 256 ^ n"
    using Suc.prems by (simp_all add: less_mult_imp_div_less mult.commute)
  have "be_nat (Suc n) x < be_nat (Suc n) y \<longleftrightarrow>
      x div 256 < y div 256 \<or> x div 256 = y div 256 \<and> x mod 256 < y mod 256"
    using Suc.IH [OF b] be_nat_inj [OF b]
    by (simp add: be_nat_Suc less_append_eq_length char_of_less)
  then show ?case using less_div_mod_256 by blast
qed

lemma BigEndian_PutUint64_less:
  "BigEndian_PutUint64 v < BigEndian_PutUint64 w \<longleftrightarrow> v < w"
  unfolding BigEndian_PutUint64_def word_less_nat_alt
  by (rule be_nat_less) (rule unat_less_256_8)+

lemma BigEndian_PutUint64_inj:
  "BigEndian_PutUint64 v = BigEndian_PutUint64 w \<longleftrightarrow> v = w"
  by (metis BigEndian_PutUint64_less linorder_neq_iff)

lemma BigEndian_PutUint32_less:
  "BigEndian_PutUint32 v < BigEndian_PutUint32 w \<longleftrightarrow> v < w"
  unfolding BigEndian_PutUint32_def word_less_nat_alt
  by (rule be_nat_less) (rule unat_less_256_4)+

lemma BigEndian_PutUint32_inj:
  "BigEndian_PutUint32 v = BigEndian_PutUint32 w \<longleftrightarrow> v = w"
  by (metis BigEndian_PutUint32_less linorder_neq_iff)

section \<open>The contract of a codec\<close>

locale codec =
  fixes enc :: "'a \<Rightarrow> bytes"
    and dec :: "bytes \<Rightarrow> 'a go"
    and valid :: "'a \<Rightarrow> bool"
  assumes dec_enc: "valid x \<Longrightarrow> dec (enc x) = Inr x"
begin

lemma enc_eq_iff: "valid x \<Longrightarrow> valid y \<Longrightarrow> enc x = enc y \<longleftrightarrow> x = y"
  by (metis dec_enc sum.inject(2))

end

end
