(* ===== verification/Posting_Codec.thy ===== *)
theory Posting_Codec
  imports Go_Prelude Go_Binary
begin

text \<open>
  The wire format of posting lists, \<^verbatim>\<open>posting/types/types.pb.go\<close>: the records \<open>posting\<close> and
  \<open>posting_list\<close>, their encoders with the exact sizes, and their decoders, which read a
  message field by field, skip unknown fields (nested groups included) and compute lengths in
  64-bit arithmetic that can wrap around. The bytes not read yet stand for the index the code
  keeps: the index is the length of the whole message minus theirs. The main results are that
  \<open>PostingList_Size\<close> is the length of the encoding and that decoding inverts encoding, which
  the interpretation of \<open>codec\<close> records.
\<close>

section \<open>Data\<close>

record posting =
  Uid :: u64
  Value :: bytes
  ValType :: u32
  Label :: bytes
  Commit :: u64
  Op :: u32

record posting_list =
  Postings :: "posting list"
  Checksum :: bytes
  PL_Commit :: u64

definition empty_posting :: posting where
  "empty_posting = \<lparr> Uid = 0, Value = [], ValType = 0, Label = [], Commit = 0, Op = 0 \<rparr>"

definition empty_posting_list :: posting_list where
  "empty_posting_list = \<lparr> Postings = [], Checksum = [], PL_Commit = 0 \<rparr>"

definition ErrInvalidLengthTypes :: go_err where
  "ErrInvalidLengthTypes = Err ''proto: negative length found during unmarshaling''"

definition ErrIntOverflowTypes :: go_err where
  "ErrIntOverflowTypes = Err ''proto: integer overflow''"

definition ErrUnexpectedEOF :: go_err where
  "ErrUnexpectedEOF = Err ''unexpected EOF''"

section \<open>Encoding\<close>

unbundle bit_operations_syntax

text \<open>The conversion \<^verbatim>\<open>uint8(v)\<close>, and the conversion of a byte to a wider integer.\<close>

definition uint8 :: "u64 \<Rightarrow> char" where
  "uint8 v = char_of (unat v)"

definition byte_word :: "char \<Rightarrow> 'a::len word" where
  "byte_word b = word_of_nat (of_char b)"

lemma unat_drop_bit_7: "unat (drop_bit 7 (v :: u64)) = unat v div 128"
  by (simp add: drop_bit_eq_div unat_div_distrib)

function encodeVarintTypes :: "u64 \<Rightarrow> bytes" where
  "encodeVarintTypes v =
     (if 128 \<le> v then uint8 (v AND 0x7F OR 0x80) # encodeVarintTypes (drop_bit 7 v)
      else [uint8 v])"
  by pat_completeness auto
termination
proof (relation "measure unat")
  fix v :: u64
  assume "128 \<le> v"
  then have "128 \<le> unat v" by (simp add: word_le_nat_alt)
  then show "(drop_bit 7 v, v) \<in> measure unat"
    by (simp only: in_measure unat_drop_bit_7)
qed simp

declare encodeVarintTypes.simps [simp del]

definition encodeFixed64Types :: "u64 \<Rightarrow> bytes" where
  "encodeFixed64Types v =
     [uint8 v, uint8 (drop_bit 8 v), uint8 (drop_bit 16 v), uint8 (drop_bit 24 v),
      uint8 (drop_bit 32 v), uint8 (drop_bit 40 v), uint8 (drop_bit 48 v), uint8 (drop_bit 56 v)]"

function sovTypes :: "u64 \<Rightarrow> nat" where
  "sovTypes x = (if drop_bit 7 x = 0 then 1 else Suc (sovTypes (drop_bit 7 x)))"
  by pat_completeness auto
termination
proof (relation "measure unat")
  fix x :: u64
  assume "drop_bit 7 x \<noteq> 0"
  then have "unat x \<noteq> 0" by (auto simp: unat_eq_0)
  then show "(drop_bit 7 x, x) \<in> measure unat"
    by (simp only: in_measure unat_drop_bit_7)
qed simp

declare sovTypes.simps [simp del]

definition Posting_Size :: "posting \<Rightarrow> nat" where
  "Posting_Size m =
     (if Uid m \<noteq> 0 then 9 else 0)
     + (let l = length (Value m) in if l > 0 then 1 + l + sovTypes (word_of_nat l) else 0)
     + (if ValType m \<noteq> 0 then 1 + sovTypes (ucast (ValType m)) else 0)
     + (let l = length (Label m) in if l > 0 then 1 + l + sovTypes (word_of_nat l) else 0)
     + (if Commit m \<noteq> 0 then 1 + sovTypes (Commit m) else 0)
     + (if Op m \<noteq> 0 then 1 + sovTypes (ucast (Op m)) else 0)"

text \<open>
  \<^verbatim>\<open>MarshalTo\<close> writes consecutive bytes from the start of its buffer: the model returns the
  bytes it writes. \<^verbatim>\<open>Marshal\<close> gives it a buffer of \<^verbatim>\<open>Size\<close> bytes; a write beyond it would be a
  panic. A field is written, with the byte \<open>tag\<close> in front, unless it has the zero value.
\<close>

definition opt_fixed64 :: "char \<Rightarrow> u64 \<Rightarrow> bytes" where
  "opt_fixed64 tag v = (if v \<noteq> 0 then tag # encodeFixed64Types v else [])"

definition opt_varint :: "char \<Rightarrow> u64 \<Rightarrow> bytes" where
  "opt_varint tag v = (if v \<noteq> 0 then tag # encodeVarintTypes v else [])"

definition opt_bytes :: "char \<Rightarrow> bytes \<Rightarrow> bytes" where
  "opt_bytes tag bs =
     (if length bs > 0 then tag # encodeVarintTypes (word_of_nat (length bs)) @ bs else [])"

definition Posting_MarshalTo :: "posting \<Rightarrow> bytes" where
  "Posting_MarshalTo m =
     opt_fixed64 (CHR 0x09) (Uid m) @ opt_bytes (CHR 0x12) (Value m)
     @ opt_varint (CHR 0x18) (ucast (ValType m)) @ opt_bytes (CHR 0x22) (Label m)
     @ opt_varint (CHR 0x28) (Commit m) @ opt_varint (CHR 0x60) (ucast (Op m))"

definition Posting_Marshal :: "posting \<Rightarrow> bytes go" where
  "Posting_Marshal m =
     (let data = Posting_MarshalTo m in
      if Posting_Size m < length data then Inl (Panic ''index out of range'') else Inr data)"

definition PostingList_Size :: "posting_list \<Rightarrow> nat" where
  "PostingList_Size m =
     sum_list (map (\<lambda>e. let l = Posting_Size e in 1 + l + sovTypes (word_of_nat l)) (Postings m))
     + (let l = length (Checksum m) in if l > 0 then 1 + l + sovTypes (word_of_nat l) else 0)
     + (if PL_Commit m \<noteq> 0 then 1 + sovTypes (PL_Commit m) else 0)"

definition PostingList_MarshalTo :: "posting_list \<Rightarrow> bytes" where
  "PostingList_MarshalTo m =
     concat (map (\<lambda>msg. CHR 0x0A # encodeVarintTypes (word_of_nat (Posting_Size msg))
                          @ Posting_MarshalTo msg) (Postings m))
     @ opt_bytes (CHR 0x12) (Checksum m) @ opt_varint (CHR 0x18) (PL_Commit m)"

definition PostingList_Marshal :: "posting_list \<Rightarrow> bytes go" where
  "PostingList_Marshal m =
     (let data = PostingList_MarshalTo m in
      if PostingList_Size m < length data then Inl (Panic ''index out of range'') else Inr data)"

section \<open>Decoding\<close>

text \<open>
  The loop that reads a varint, with the value read so far and the shift. It is written out
  in the code for every integer type it fills; bits shifted beyond the width of the type are
  lost.
\<close>

fun varint_loop :: "nat \<Rightarrow> 'a::len word \<Rightarrow> bytes \<Rightarrow> ('a word \<times> bytes) go" where
  "varint_loop shift acc data =
     (if 64 \<le> shift then Inl ErrIntOverflowTypes
      else case data of
        [] \<Rightarrow> Inl ErrUnexpectedEOF
      | b # rest \<Rightarrow>
          let acc' = acc OR push_bit shift (byte_word b AND 0x7F) in
          if of_char b < (0x80 :: nat) then Inr (acc', rest)
          else varint_loop (shift + 7) acc' rest)"

declare varint_loop.simps [simp del]

text \<open>The number of the field and the wire type that a field starts with.\<close>

definition field_tag :: "string \<Rightarrow> bytes \<Rightarrow> (int \<times> nat \<times> bytes) go" where
  "field_tag name data =
     go_bind (varint_loop 0 (0 :: u64) data) (\<lambda>(wire, rest).
       let fieldNum = sint (ucast (drop_bit 3 wire) :: u32);
           wireType = unat (wire AND 0x7)
       in if wireType = 4 then Inl (Err (''proto: '' @ name @ '': wiretype end group for non-group''))
          else if fieldNum \<le> 0 then Inl (Err (''proto: '' @ name @ '': illegal tag''))
          else Inr (fieldNum, wireType, rest))"

text \<open>
  A length and that many bytes. The end of the field is computed in 64-bit arithmetic: where
  the sum wraps around, it passes the test against \<open>l\<close>, the length of the whole message, and
  the slice expression panics.
\<close>

definition bytes_field :: "nat \<Rightarrow> bytes \<Rightarrow> (bytes \<times> bytes) go" where
  "bytes_field l data =
     go_bind (varint_loop 0 (0 :: u64) data) (\<lambda>(byteLen, rest).
       if sint byteLen < 0 then Inl ErrInvalidLengthTypes
       else
         let iNdEx = l - length rest;
             postIndex = sint (word_of_nat iNdEx + byteLen)
         in if postIndex > int l then Inl ErrUnexpectedEOF
            else if postIndex < int iNdEx then Inl (Panic ''slice bounds out of range'')
            else let n = nat postIndex - iNdEx in Inr (take n rest, drop n rest))"

text \<open>
  The loop that reads a varint to skip it ignores the value. The loop over the fields of a
  group goes on at the index after the field it skipped; where that index has wrapped around
  to a negative one, the next access panics (a skipped field is never of length zero, see
  \<open>skipTypes_nonzero\<close>).
\<close>

lemma varint_loop_length:
  "varint_loop shift acc data = Inr (w, rest) \<Longrightarrow> length rest < length data"
proof (induction data arbitrary: shift acc)
  case Nil
  then show ?case by (simp add: varint_loop.simps split: if_splits)
next
  case (Cons b data)
  from Cons.prems show ?case
    by (subst (asm) varint_loop.simps)
      (auto simp: Let_def split: if_splits dest!: Cons.IH)
qed

function (sequential) skipTypes :: "bytes \<Rightarrow> int go"
  and skipGroup :: "nat \<Rightarrow> bytes \<Rightarrow> int go" where
  "skipTypes data =
     (if data = [] then Inl (Panic ''unreachable'')
      else case varint_loop 0 (0 :: u64) data of
        Inl e \<Rightarrow> Inl e
      | Inr (wire, rest) \<Rightarrow>
          let wireType = unat (wire AND 0x7); iNdEx = length data - length rest in
          if wireType = 0 then
            (case varint_loop 0 (0 :: u64) rest of
               Inl e \<Rightarrow> Inl e
             | Inr (v, rest') \<Rightarrow> Inr (int (length data - length rest')))
          else if wireType = 1 then Inr (int iNdEx + 8)
          else if wireType = 2 then
            (case varint_loop 0 (0 :: u64) rest of
               Inl e \<Rightarrow> Inl e
             | Inr (len, rest') \<Rightarrow>
                 if sint len < 0 then Inl ErrInvalidLengthTypes
                 else Inr (sint (word_of_nat (length data - length rest') + len)))
          else if wireType = 3 then skipGroup (length data) rest
          else if wireType = 4 then Inr (int iNdEx)
          else if wireType = 5 then Inr (int iNdEx + 4)
          else Inl (Err ''proto: illegal wireType''))"
| "skipGroup l data =
     (case varint_loop 0 (0 :: u64) data of
        Inl e \<Rightarrow> Inl e
      | Inr (innerWire, rest) \<Rightarrow>
          if unat (innerWire AND 0x7) = 4 then Inr (int (l - length rest))
          else
            (case skipTypes data of
               Inl e \<Rightarrow> Inl e
             | Inr n \<Rightarrow>
                 if n < 1 then Inl (Panic ''index out of range'')
                 else skipGroup l (drop (nat n) data)))"
  by pat_completeness auto
termination
proof (relation "measure (\<lambda>x. case x of Inl d \<Rightarrow> 2 * length d | Inr (l, d) \<Rightarrow> 2 * length d + 1)",
    goal_cases)
  case (2 data x2 wire rest wireType iNdEx)
  then have "length rest < length data" by (auto dest: varint_loop_length)
  then show ?case by simp
next
  case (4 l data x2 innerWire rest n)
  then have "length rest < length data" by (auto dest: varint_loop_length)
  with 4 show ?case by auto
qed auto

declare skipTypes.simps [simp del] skipGroup.simps [simp del]

text \<open>
  The default case of both decoders: skip the field that starts with \<open>data\<close>. An index that has
  wrapped around is negative, and the next access of the message panics.
\<close>

definition skip_field :: "nat \<Rightarrow> bytes \<Rightarrow> bytes go" where
  "skip_field l data =
     go_bind (skipTypes data) (\<lambda>skippy.
       if skippy < 0 then Inl ErrInvalidLengthTypes
       else
         let iNdEx = l - length data; end' = sint (word_of_nat iNdEx + word_of_int skippy :: u64) in
         if end' > int l then Inl ErrUnexpectedEOF
         else if end' \<le> int iNdEx then Inl (Panic ''index out of range'')
         else Inr (drop (nat end' - iNdEx) data))"

text \<open>One iteration of the loop of \<^verbatim>\<open>Posting.Unmarshal\<close>: a field and the bytes after it.\<close>

definition wrong_wireType :: "string \<Rightarrow> go_err" where
  "wrong_wireType field = Err (''proto: wrong wireType for field '' @ field)"

definition fixed64_field :: "bytes \<Rightarrow> (u64 \<times> bytes) go" where
  "fixed64_field data =
     (case data of
        b0 # b1 # b2 # b3 # b4 # b5 # b6 # b7 # rest \<Rightarrow>
          Inr (byte_word b0 OR push_bit 8 (byte_word b1) OR push_bit 16 (byte_word b2)
               OR push_bit 24 (byte_word b3) OR push_bit 32 (byte_word b4)
               OR push_bit 40 (byte_word b5) OR push_bit 48 (byte_word b6)
               OR push_bit 56 (byte_word b7), rest)
      | _ \<Rightarrow> Inl ErrUnexpectedEOF)"

definition Posting_field :: "nat \<Rightarrow> posting \<Rightarrow> bytes \<Rightarrow> (posting \<times> bytes) go" where
  "Posting_field l m data =
     go_bind (field_tag ''Posting'' data) (\<lambda>(fieldNum, wireType, rest).
       if fieldNum = 1 then
         if wireType \<noteq> 1 then Inl (wrong_wireType ''Uid'')
         else go_bind (fixed64_field rest) (\<lambda>(v, rest'). Inr (m\<lparr>Uid := v\<rparr>, rest'))
       else if fieldNum = 2 then
         if wireType \<noteq> 2 then Inl (wrong_wireType ''Value'')
         else go_bind (bytes_field l rest) (\<lambda>(v, rest'). Inr (m\<lparr>Value := v\<rparr>, rest'))
       else if fieldNum = 3 then
         if wireType \<noteq> 0 then Inl (wrong_wireType ''ValType'')
         else go_bind (varint_loop 0 0 rest) (\<lambda>(v, rest'). Inr (m\<lparr>ValType := v\<rparr>, rest'))
       else if fieldNum = 4 then
         if wireType \<noteq> 2 then Inl (wrong_wireType ''Label'')
         else go_bind (bytes_field l rest) (\<lambda>(v, rest'). Inr (m\<lparr>Label := v\<rparr>, rest'))
       else if fieldNum = 5 then
         if wireType \<noteq> 0 then Inl (wrong_wireType ''Commit'')
         else go_bind (varint_loop 0 0 rest) (\<lambda>(v, rest'). Inr (m\<lparr>Commit := v\<rparr>, rest'))
       else if fieldNum = 12 then
         if wireType \<noteq> 0 then Inl (wrong_wireType ''Op'')
         else go_bind (varint_loop 0 0 rest) (\<lambda>(v, rest'). Inr (m\<lparr>Op := v\<rparr>, rest'))
       else go_bind (skip_field l data) (\<lambda>rest'. Inr (m, rest')))"

text \<open>Every step consumes input, which is why the decoders end.\<close>

lemma field_tag_length: "field_tag name data = Inr (f, w, rest) \<Longrightarrow> length rest < length data"
  by (auto simp: field_tag_def go_simps Let_def split: if_splits dest: varint_loop_length)

lemma bytes_field_length: "bytes_field l data = Inr (v, rest) \<Longrightarrow> length rest < length data"
  by (auto simp: bytes_field_def go_simps Let_def split: if_splits dest!: varint_loop_length)

lemma fixed64_field_length: "fixed64_field data = Inr (v, rest) \<Longrightarrow> length rest < length data"
  by (auto simp: fixed64_field_def split: list.splits)

lemma skip_field_length:
  assumes "skip_field l data = Inr rest" "length data \<le> l" "data \<noteq> []"
  shows "length rest < length data"
  using assms by (auto simp: skip_field_def go_simps Let_def split: if_splits)

lemma Posting_field_length:
  assumes "Posting_field l m data = Inr (m', rest)" "length data \<le> l" "data \<noteq> []"
  shows "length rest < length data"
  using assms
  by (auto simp: Posting_field_def go_simps split: if_splits
      dest!: field_tag_length varint_loop_length bytes_field_length fixed64_field_length
      dest: skip_field_length)

function Posting_Unmarshal_loop :: "nat \<Rightarrow> posting \<Rightarrow> bytes \<Rightarrow> posting go" where
  "Posting_Unmarshal_loop l m data =
     (if data = [] \<or> l < length data then Inr m
      else case Posting_field l m data of
        Inl e \<Rightarrow> Inl e
      | Inr (m', rest) \<Rightarrow> Posting_Unmarshal_loop l m' rest)"
  by pat_completeness auto
termination
  by (relation "measure (\<lambda>(l, m, data). length data)") (auto dest: Posting_field_length)

declare Posting_Unmarshal_loop.simps [simp del]

definition Posting_Unmarshal :: "posting \<Rightarrow> bytes \<Rightarrow> posting go" where
  "Posting_Unmarshal m data = Posting_Unmarshal_loop (length data) m data"

definition PostingList_field ::
  "nat \<Rightarrow> posting_list \<Rightarrow> bytes \<Rightarrow> (posting_list \<times> bytes) go" where
  "PostingList_field l m data =
     go_bind (field_tag ''PostingList'' data) (\<lambda>(fieldNum, wireType, rest).
       if fieldNum = 1 then
         if wireType \<noteq> 2 then Inl (wrong_wireType ''Postings'')
         else go_bind (bytes_field l rest) (\<lambda>(msg, rest').
                go_bind (Posting_Unmarshal empty_posting msg) (\<lambda>p.
                  Inr (m\<lparr>Postings := Postings m @ [p]\<rparr>, rest')))
       else if fieldNum = 2 then
         if wireType \<noteq> 2 then Inl (wrong_wireType ''Checksum'')
         else go_bind (bytes_field l rest) (\<lambda>(v, rest'). Inr (m\<lparr>Checksum := v\<rparr>, rest'))
       else if fieldNum = 3 then
         if wireType \<noteq> 0 then Inl (wrong_wireType ''Commit'')
         else go_bind (varint_loop 0 0 rest) (\<lambda>(v, rest'). Inr (m\<lparr>PL_Commit := v\<rparr>, rest'))
       else go_bind (skip_field l data) (\<lambda>rest'. Inr (m, rest')))"

lemma PostingList_field_length:
  assumes "PostingList_field l m data = Inr (m', rest)" "length data \<le> l" "data \<noteq> []"
  shows "length rest < length data"
  using assms
  by (auto simp: PostingList_field_def go_simps split: if_splits
      dest!: field_tag_length varint_loop_length bytes_field_length
      dest: skip_field_length)

function PostingList_Unmarshal_loop :: "nat \<Rightarrow> posting_list \<Rightarrow> bytes \<Rightarrow> posting_list go" where
  "PostingList_Unmarshal_loop l m data =
     (if data = [] \<or> l < length data then Inr m
      else case PostingList_field l m data of
        Inl e \<Rightarrow> Inl e
      | Inr (m', rest) \<Rightarrow> PostingList_Unmarshal_loop l m' rest)"
  by pat_completeness auto
termination
  by (relation "measure (\<lambda>(l, m, data). length data)") (auto dest: PostingList_field_length)

declare PostingList_Unmarshal_loop.simps [simp del]

definition PostingList_Unmarshal :: "posting_list \<Rightarrow> bytes \<Rightarrow> posting_list go" where
  "PostingList_Unmarshal m data = PostingList_Unmarshal_loop (length data) m data"

section \<open>Decoding inverts encoding\<close>

lemma of_char_uint8: "of_char (uint8 v) = unat v mod 256"
  by (simp add: uint8_def)

lemma mask_7: "(0x7F :: 'a::len word) = mask 7"
  by (simp add: mask_eq_exp_minus_1)

lemma bit_word_of_nat: "bit (word_of_nat m :: 'a::len word) n \<longleftrightarrow> n < LENGTH('a) \<and> bit m n"
  by transfer (simp add: bit_of_nat_iff)

lemma bit_byte_word_uint8:
  "bit (byte_word (uint8 v) :: 'a::len word) n \<longleftrightarrow> n < LENGTH('a) \<and> n < 8 \<and> bit v n"
proof -
  have "of_char (uint8 v) = take_bit 8 (unat v)"
    by (simp add: of_char_uint8 take_bit_eq_mod)
  then show ?thesis
    by (auto simp: byte_word_def bit_word_of_nat bit_take_bit_iff bit_unsigned_iff)
qed

lemma bit_0x80: "bit (0x80 :: u64) n \<longleftrightarrow> n = 7"
proof -
  have "(0x80 :: u64) = 2 ^ 7" by simp
  then show ?thesis by (simp only: bit_exp_iff) auto
qed

lemma bit_more_byte: "bit (byte_word (uint8 (v AND 0x7F OR 0x80)) AND 0x7F :: 'a::len word) n
    \<longleftrightarrow> n < LENGTH('a) \<and> n < 7 \<and> bit v n"
  unfolding mask_7 
  by (simp only: bit_byte_word_uint8 bit_and_iff bit_or_iff bit_mask_iff bit_0x80) auto

lemma varint_step:
  "push_bit s (byte_word (uint8 (v AND 0x7F OR 0x80)) AND 0x7F)
     OR push_bit (s + 7) (ucast (drop_bit 7 v))
   = (push_bit s (ucast v) :: 'a::len word)"
proof (rule bit_word_eqI)
  fix n
  assume "n < LENGTH('a)"
  then show "bit (push_bit s (byte_word (uint8 (v AND 0x7F OR 0x80)) AND 0x7F)
      OR push_bit (s + 7) (ucast (drop_bit 7 v)) :: 'a word) n
    = bit (push_bit s (ucast v) :: 'a word) n"
    by (cases "n < s + 7"; simp only: bit_push_bit_iff bit_or_iff bit_more_byte bit_unsigned_iff
          bit_drop_bit_eq) (auto dest: bit_imp_le_length)
qed

lemma varint_last:
  assumes "v < 128"
  shows "byte_word (uint8 v) AND 0x7F = (ucast v :: 'a::len word)"
proof -
  have "unat v < 2 ^ 7" using assms by (simp add: word_less_nat_alt)
  then have "take_bit 7 (unat v) = unat v" by (simp add: take_bit_nat_eq_self)
  then have less: "n < 7" if "bit v n" for n
    using that by (metis bit_take_bit_iff bit_unsigned_iff bit_imp_le_length possible_bit_nat)
  show ?thesis unfolding mask_7
    by (rule bit_word_eqI, simp only: bit_byte_word_uint8 bit_and_iff bit_mask_iff bit_unsigned_iff)
       (auto dest: less)
qed

lemma unat_more_byte: "128 \<le> unat (v AND 0x7F OR 0x80 :: u64) mod 256"
proof -
  have "bit (unat (v AND 0x7F OR 0x80)) 7"
    by (simp only: bit_unsigned_iff bit_or_iff bit_0x80) simp
  then have "odd (unat (v AND 0x7F OR 0x80) div 2 ^ 7)"
    by (rule bit_iff_odd [THEN iffD1])
  moreover have "odd (m div 2 ^ 7) \<Longrightarrow> 128 \<le> m mod 256" for m :: nat
    using mod_mult2_eq [of m 128 2] by (simp add: odd_iff_mod_2_eq_one)
  ultimately show ?thesis by blast
qed

lemma varint_loop_more: "s < 64 \<Longrightarrow> \<not> of_char b < (0x80 :: nat) \<Longrightarrow>
    varint_loop s acc (b # rest) = varint_loop (s + 7) (acc OR push_bit s (byte_word b AND 0x7F)) rest"
  by (simp add: varint_loop.simps [of s acc "b # rest"] Let_def)

lemma varint_loop_last: "s < 64 \<Longrightarrow> of_char b < (0x80 :: nat) \<Longrightarrow>
    varint_loop s acc (b # rest) = Inr (acc OR push_bit s (byte_word b AND 0x7F), rest)"
  by (simp add: varint_loop.simps [of s acc "b # rest"] Let_def)

lemma varint_encode:
  assumes "s < 64" "unat v < 2 ^ (64 - s)"
  shows "varint_loop s acc (encodeVarintTypes v @ rest)
    = Inr (acc OR push_bit s (ucast v) :: 'a::len word, rest)"
  using assms
proof (induction v arbitrary: s acc rule: encodeVarintTypes.induct)
  case (1 v)
  show ?case
  proof (cases "128 \<le> v")
    case True
    then have big: "2 ^ 7 \<le> unat v" by (simp add: word_le_nat_alt)
    then have "(2 :: nat) ^ 7 < 2 ^ (64 - s)" using "1.prems"(2) by simp
    then have "7 < 64 - s" by (simp only: power_strict_increasing_iff)
    then have s: "s + 7 < 64" by simp
    then have "64 - s = (64 - (s + 7)) + 7" by simp
    then have "unat v < 2 ^ (64 - (s + 7)) * 128"
      using "1.prems"(2) by (simp only: power_add) simp
    then have "unat (drop_bit 7 v) < 2 ^ (64 - (s + 7))"
      unfolding unat_drop_bit_7 by (rule less_mult_imp_div_less)
    note IH = "1.IH" [OF True s this]
    have b: "\<not> of_char (uint8 (v AND 0x7F OR 0x80)) < (0x80 :: nat)"
      using unat_more_byte [of v] by (simp only: of_char_uint8 not_less)
    have "encodeVarintTypes v = uint8 (v AND 0x7F OR 0x80) # encodeVarintTypes (drop_bit 7 v)"
      using True by (subst encodeVarintTypes.simps) (simp only: if_True)
    then show ?thesis
      by (simp only: append_Cons varint_loop_more [OF "1.prems"(1) b] IH or.assoc varint_step)
  next
    case False
    then have small: "v < 128" by simp
    then have "of_char (uint8 v) < (0x80 :: nat)"
      by (simp add: of_char_uint8 word_less_nat_alt)
    note last = varint_loop_last [OF "1.prems"(1) this]
    have "encodeVarintTypes v = [uint8 v]"
      using False by (subst encodeVarintTypes.simps) (simp only: if_False)
    then show ?thesis by (simp only: append_Cons append_Nil last varint_last [OF small])
  qed
qed

lemma varint_encode_0 [simp]:
  "varint_loop 0 0 (encodeVarintTypes v @ rest) = Inr (ucast v :: 'a::len word, rest)"
proof -
  have "unat v < 2 ^ (64 - 0)" using unsigned_less [of v, where 'a = nat] by simp
  from varint_encode [OF _ this, of 0] show ?thesis by simp
qed

lemma length_encodeVarint: "length (encodeVarintTypes v) = sovTypes v"
proof (induction v rule: encodeVarintTypes.induct)
  case (1 v)
  have zero: "drop_bit 7 v = 0 \<longleftrightarrow> \<not> 128 \<le> v"
  proof -
    have "drop_bit 7 v = 0 \<longleftrightarrow> unat (drop_bit 7 v) = 0" by (rule unat_eq_zero [symmetric])
    also have "\<dots> \<longleftrightarrow> unat v < 128" unfolding unat_drop_bit_7 by (simp add: div_eq_0_iff)
    finally show ?thesis by (simp add: word_le_nat_alt not_le)
  qed
  show ?case
  proof (cases "128 \<le> v")
    case True
    with 1 zero show ?thesis
      by (subst encodeVarintTypes.simps, subst sovTypes.simps) (simp only: if_True if_False list.size simp_thms)
  next
    case False
    with zero show ?thesis
      by (subst encodeVarintTypes.simps, subst sovTypes.simps) (simp only: if_True if_False list.size simp_thms)
  qed
qed

lemma field_tag_simps:
  "field_tag name (CHR 0x09 # rest) = Inr (1, 1, rest)"
  "field_tag name (CHR 0x0A # rest) = Inr (1, 2, rest)"
  "field_tag name (CHR 0x12 # rest) = Inr (2, 2, rest)"
  "field_tag name (CHR 0x18 # rest) = Inr (3, 0, rest)"
  "field_tag name (CHR 0x22 # rest) = Inr (4, 2, rest)"
  "field_tag name (CHR 0x28 # rest) = Inr (5, 0, rest)"
  "field_tag name (CHR 0x60 # rest) = Inr (12, 0, rest)"
  by (simp_all add: field_tag_def varint_loop_last byte_word_def)

lemma fixed64_encode: "fixed64_field (encodeFixed64Types v @ rest) = Inr (v, rest)"
proof -
  have "byte_word (uint8 v) OR push_bit 8 (byte_word (uint8 (drop_bit 8 v)))
     OR push_bit 16 (byte_word (uint8 (drop_bit 16 v))) OR push_bit 24 (byte_word (uint8 (drop_bit 24 v)))
     OR push_bit 32 (byte_word (uint8 (drop_bit 32 v))) OR push_bit 40 (byte_word (uint8 (drop_bit 40 v)))
     OR push_bit 48 (byte_word (uint8 (drop_bit 48 v))) OR push_bit 56 (byte_word (uint8 (drop_bit 56 v)))
     = v" (is "?w = v")
  proof (rule bit_word_eqI)
    fix n
    assume "n < LENGTH(64)"
    then consider "n < 8" | "8 \<le> n" "n < 16" | "16 \<le> n" "n < 24" | "24 \<le> n" "n < 32"
      | "32 \<le> n" "n < 40" | "40 \<le> n" "n < 48" | "48 \<le> n" "n < 56" | "56 \<le> n" "n < 64"
      by fastforce
    then show "bit ?w n = bit v n"
      by (cases; simp only: bit_or_iff bit_push_bit_iff bit_byte_word_uint8 bit_drop_bit_eq;
          simp add: less_diff_conv2)
  qed
  then show ?thesis by (simp add: fixed64_field_def encodeFixed64Types_def)
qed

lemma bytes_encode:
  assumes "length bs + length rest \<le> l" "l < 2 ^ 63"
  shows "bytes_field l (encodeVarintTypes (word_of_nat (length bs)) @ bs @ rest) = Inr (bs, rest)"
proof -
  have "unat (word_of_nat (length bs) :: u64) = length bs"
    using assms by (simp add: unat_of_nat take_bit_nat_eq_self)
  then have sint: "\<not> sint (word_of_nat (length bs) :: u64) < 0"
    using assms by (simp add: sint_nonneg not_less)
  have "l - (length bs + length rest) + length bs = l - length rest" using assms(1) by simp
  then have "(word_of_nat (l - (length bs + length rest)) + word_of_nat (length bs) :: u64)
      = word_of_nat (l - length rest)"
    by (metis of_nat_add)
  moreover have "sint (word_of_nat (l - length rest) :: u64) = int (l - length rest)"
    by (rule sint_word_of_nat) (use assms in simp)
  ultimately show ?thesis using sint assms by (simp add: bytes_field_def Let_def)
qed

lemma Posting_loop_step:
  "Posting_field l m (b # data) = Inr (m', rest) \<Longrightarrow> length (b # data) \<le> l \<Longrightarrow>
   Posting_Unmarshal_loop l m (b # data) = Posting_Unmarshal_loop l m' rest"
  by (subst Posting_Unmarshal_loop.simps) simp

lemma Posting_loop_Nil [simp]: "Posting_Unmarshal_loop l m [] = Inr m"
  by (simp add: Posting_Unmarshal_loop.simps)

lemma Posting_loop_Uid:
  "length (CHR 0x09 # encodeFixed64Types v @ rest) \<le> l \<Longrightarrow>
   Posting_Unmarshal_loop l m (CHR 0x09 # encodeFixed64Types v @ rest)
   = Posting_Unmarshal_loop l (m\<lparr>Uid := v\<rparr>) rest"
  by (rule Posting_loop_step) (simp_all add: Posting_field_def field_tag_simps fixed64_encode)

lemma Posting_loop_bytes:
  assumes "length (b # encodeVarintTypes (word_of_nat (length v)) @ v @ rest) \<le> l" "l < 2 ^ 63"
  shows "b = CHR 0x12 \<Longrightarrow>
      Posting_Unmarshal_loop l m (b # encodeVarintTypes (word_of_nat (length v)) @ v @ rest)
      = Posting_Unmarshal_loop l (m\<lparr>Value := v\<rparr>) rest"
    and "b = CHR 0x22 \<Longrightarrow>
      Posting_Unmarshal_loop l m (b # encodeVarintTypes (word_of_nat (length v)) @ v @ rest)
      = Posting_Unmarshal_loop l (m\<lparr>Label := v\<rparr>) rest"
  using assms
  by (auto intro!: Posting_loop_step simp: Posting_field_def field_tag_simps bytes_encode)

lemma Posting_loop_varint:
  assumes "length (b # encodeVarintTypes v @ rest) \<le> l"
  shows "b = CHR 0x18 \<Longrightarrow> Posting_Unmarshal_loop l m (b # encodeVarintTypes v @ rest)
      = Posting_Unmarshal_loop l (m\<lparr>ValType := ucast v\<rparr>) rest"
    and "b = CHR 0x28 \<Longrightarrow> Posting_Unmarshal_loop l m (b # encodeVarintTypes v @ rest)
      = Posting_Unmarshal_loop l (m\<lparr>Commit := v\<rparr>) rest"
    and "b = CHR 0x60 \<Longrightarrow> Posting_Unmarshal_loop l m (b # encodeVarintTypes v @ rest)
      = Posting_Unmarshal_loop l (m\<lparr>Op := ucast v\<rparr>) rest"
  using assms by (auto intro!: Posting_loop_step simp: Posting_field_def field_tag_simps)

lemma ucast_ucast_32 [simp]: "ucast (ucast (v :: u32) :: u64) = v"
  by (rule bit_word_eqI) (auto simp: bit_unsigned_iff)

text \<open>A field is written only when it is not the zero value, which a fresh message has.\<close>

lemma posting_upd_same:
  "Uid m = v \<Longrightarrow> m\<lparr>Uid := v\<rparr> = m" "Value m = bs \<Longrightarrow> m\<lparr>Value := bs\<rparr> = m"
  "ValType m = w \<Longrightarrow> m\<lparr>ValType := w\<rparr> = m" "Label m = bs \<Longrightarrow> m\<lparr>Label := bs\<rparr> = m"
  "Commit m = v \<Longrightarrow> m\<lparr>Commit := v\<rparr> = m" "Op m = w \<Longrightarrow> m\<lparr>Op := w\<rparr> = (m :: posting)"
  by (cases m; simp)+

lemma ucast_64_eq_0 [simp]: "(ucast (w :: u32) :: u64) = 0 \<longleftrightarrow> w = 0"
  by (metis ucast_ucast_32 ucast_0)

lemma Posting_loop_Uid_opt:
  "length (opt_fixed64 (CHR 0x09) v) + length rest \<le> l \<Longrightarrow> Uid m = 0 \<Longrightarrow>
   Posting_Unmarshal_loop l m (opt_fixed64 (CHR 0x09) v @ rest)
   = Posting_Unmarshal_loop l (m\<lparr>Uid := v\<rparr>) rest"
  by (cases "v = 0") (simp_all add: opt_fixed64_def Posting_loop_Uid posting_upd_same)

lemma Posting_loop_Value_opt:
  "length (opt_bytes (CHR 0x12) bs) + length rest \<le> l \<Longrightarrow> l < 2 ^ 63 \<Longrightarrow> Value m = [] \<Longrightarrow>
   Posting_Unmarshal_loop l m (opt_bytes (CHR 0x12) bs @ rest)
   = Posting_Unmarshal_loop l (m\<lparr>Value := bs\<rparr>) rest"
  by (cases "bs = []") (simp_all add: opt_bytes_def Posting_loop_bytes posting_upd_same)

lemma Posting_loop_ValType_opt:
  "length (opt_varint (CHR 0x18) (ucast w)) + length rest \<le> l \<Longrightarrow> ValType m = 0 \<Longrightarrow>
   Posting_Unmarshal_loop l m (opt_varint (CHR 0x18) (ucast w) @ rest)
   = Posting_Unmarshal_loop l (m\<lparr>ValType := w\<rparr>) rest"
  by (cases "w = 0") (simp_all add: opt_varint_def Posting_loop_varint posting_upd_same)

lemma Posting_loop_Label_opt:
  "length (opt_bytes (CHR 0x22) bs) + length rest \<le> l \<Longrightarrow> l < 2 ^ 63 \<Longrightarrow> Label m = [] \<Longrightarrow>
   Posting_Unmarshal_loop l m (opt_bytes (CHR 0x22) bs @ rest)
   = Posting_Unmarshal_loop l (m\<lparr>Label := bs\<rparr>) rest"
  by (cases "bs = []") (simp_all add: opt_bytes_def Posting_loop_bytes posting_upd_same)

lemma Posting_loop_Commit_opt:
  "length (opt_varint (CHR 0x28) v) + length rest \<le> l \<Longrightarrow> Commit m = 0 \<Longrightarrow>
   Posting_Unmarshal_loop l m (opt_varint (CHR 0x28) v @ rest)
   = Posting_Unmarshal_loop l (m\<lparr>Commit := v\<rparr>) rest"
  by (cases "v = 0") (simp_all add: opt_varint_def Posting_loop_varint posting_upd_same)

lemma Posting_loop_Op_opt:
  "length (opt_varint (CHR 0x60) (ucast w)) \<le> l \<Longrightarrow> Op m = 0 \<Longrightarrow>
   Posting_Unmarshal_loop l m (opt_varint (CHR 0x60) (ucast w)) = Inr (m\<lparr>Op := w\<rparr>)"
  using Posting_loop_varint(3) [of "CHR 0x60" "ucast w" "[]" l m]
  by (cases "w = 0") (simp_all add: opt_varint_def posting_upd_same)

lemmas Posting_loop_opt = Posting_loop_Uid_opt Posting_loop_Value_opt Posting_loop_ValType_opt
  Posting_loop_Label_opt Posting_loop_Commit_opt Posting_loop_Op_opt

lemma Posting_Unmarshal_MarshalTo:
  assumes "length (Posting_MarshalTo p) < 2 ^ 63"
  shows "Posting_Unmarshal empty_posting (Posting_MarshalTo p) = Inr p"
proof -
  define l where "l = length (Posting_MarshalTo p)"
  have "Posting_Unmarshal_loop l empty_posting (Posting_MarshalTo p) = Inr
    (empty_posting\<lparr>Uid := Uid p, Value := Value p, ValType := ValType p, Label := Label p,
       Commit := Commit p, Op := Op p\<rparr>)"
    using assms l_def unfolding Posting_MarshalTo_def length_append
    by (simp add: Posting_loop_opt empty_posting_def)
  then show ?thesis by (simp add: Posting_Unmarshal_def empty_posting_def l_def)
qed

lemma Posting_Size_length: "Posting_Size p = length (Posting_MarshalTo p)"
  by (simp add: Posting_Size_def Posting_MarshalTo_def opt_fixed64_def opt_bytes_def opt_varint_def
      length_encodeVarint encodeFixed64Types_def Let_def)

lemma PostingList_Size_length: "PostingList_Size pl = length (PostingList_MarshalTo pl)"
  by (simp add: PostingList_Size_def PostingList_MarshalTo_def opt_bytes_def opt_varint_def
      length_encodeVarint Posting_Size_length length_concat comp_def Let_def add_ac)

lemma PostingList_loop_step:
  "PostingList_field l m (b # data) = Inr (m', rest) \<Longrightarrow> length (b # data) \<le> l \<Longrightarrow>
   PostingList_Unmarshal_loop l m (b # data) = PostingList_Unmarshal_loop l m' rest"
  by (subst PostingList_Unmarshal_loop.simps) simp

lemma PostingList_loop_Nil [simp]: "PostingList_Unmarshal_loop l m [] = Inr m"
  by (simp add: PostingList_Unmarshal_loop.simps)

lemma PostingList_loop_posting:
  assumes "length (encodeVarintTypes (word_of_nat (Posting_Size p)) @ Posting_MarshalTo p @ rest) < l"
    "l < 2 ^ 63"
  shows "PostingList_Unmarshal_loop l m
      (CHR 0x0A # encodeVarintTypes (word_of_nat (Posting_Size p)) @ Posting_MarshalTo p @ rest)
    = PostingList_Unmarshal_loop l (m\<lparr>Postings := Postings m @ [p]\<rparr>) rest"
  using assms
  by (intro PostingList_loop_step)
    (simp_all add: PostingList_field_def field_tag_simps Posting_Size_length bytes_encode
      Posting_Unmarshal_MarshalTo)

lemma PostingList_loop_postings:
  assumes "length (concat (map (\<lambda>p. CHR 0x0A # encodeVarintTypes (word_of_nat (Posting_Size p))
        @ Posting_MarshalTo p) ps) @ rest) \<le> l" "l < 2 ^ 63"
  shows "PostingList_Unmarshal_loop l m
      (concat (map (\<lambda>p. CHR 0x0A # encodeVarintTypes (word_of_nat (Posting_Size p))
        @ Posting_MarshalTo p) ps) @ rest)
    = PostingList_Unmarshal_loop l (m\<lparr>Postings := Postings m @ ps\<rparr>) rest"
  using assms
  by (induction ps arbitrary: m) (simp_all add: PostingList_loop_posting)

lemma PostingList_loop_opt:
  assumes "l < 2 ^ 63"
  shows "length (opt_bytes (CHR 0x12) bs) + length rest \<le> l \<Longrightarrow> Checksum m = [] \<Longrightarrow>
   PostingList_Unmarshal_loop l m (opt_bytes (CHR 0x12) bs @ rest)
   = PostingList_Unmarshal_loop l (m\<lparr>Checksum := bs\<rparr>) rest"
  using assms
  by (cases "bs = []"; cases m)
    (auto simp: opt_bytes_def PostingList_field_def field_tag_simps bytes_encode
      intro!: PostingList_loop_step)

lemma varint_encode_Nil [simp]:
  "varint_loop 0 0 (encodeVarintTypes v) = Inr (ucast v :: 'a::len word, [])"
  using varint_encode_0 [of v "[]"] by simp

lemma PostingList_loop_Commit_opt:
  "length (opt_varint (CHR 0x18) v) \<le> l \<Longrightarrow> PL_Commit m = 0 \<Longrightarrow>
   PostingList_Unmarshal_loop l m (opt_varint (CHR 0x18) v) = Inr (m\<lparr>PL_Commit := v\<rparr>)"
  using PostingList_loop_step [of l m "CHR 0x18" "encodeVarintTypes v @ []"]
  by (cases "v = 0"; cases m)
    (simp_all add: opt_varint_def PostingList_field_def field_tag_simps)

lemma PostingList_Unmarshal_MarshalTo:
  assumes "PostingList_Size pl < 2 ^ 63"
  shows "PostingList_Unmarshal empty_posting_list (PostingList_MarshalTo pl) = Inr pl"
proof -
  define l where "l = length (PostingList_MarshalTo pl)"
  have "PostingList_Unmarshal_loop l empty_posting_list (PostingList_MarshalTo pl) = Inr
    (empty_posting_list\<lparr>Postings := Postings pl, Checksum := Checksum pl, PL_Commit := PL_Commit pl\<rparr>)"
    using assms l_def unfolding PostingList_Size_length PostingList_MarshalTo_def length_append
    by (simp add: PostingList_loop_postings PostingList_loop_opt PostingList_loop_Commit_opt
        empty_posting_list_def)
  then show ?thesis by (simp add: PostingList_Unmarshal_def empty_posting_list_def l_def)
qed

text \<open>The contract of a codec, for postings and for posting lists.\<close>

interpretation posting: codec Posting_MarshalTo "Posting_Unmarshal empty_posting"
  "\<lambda>p. Posting_Size p < 2 ^ 63"
  by unfold_locales (simp add: Posting_Size_length Posting_Unmarshal_MarshalTo)

interpretation plist: codec PostingList_MarshalTo "PostingList_Unmarshal empty_posting_list"
  "\<lambda>pl. PostingList_Size pl < 2 ^ 63"
  by unfold_locales (rule PostingList_Unmarshal_MarshalTo)

lemma PostingList_Marshal_eq: "PostingList_Marshal pl = Inr (PostingList_MarshalTo pl)"
  by (simp add: PostingList_Marshal_def PostingList_Size_length Let_def)

section \<open>Properties\<close>

text \<open>
  C6: \<^verbatim>\<open>PostingList.Marshal\<close> never writes past the buffer it sizes with \<^verbatim>\<open>Size\<close>, fills it exactly,
  and \<^verbatim>\<open>PostingList.Unmarshal\<close> of the result gives back the posting list, every field of every
  posting included, for every list whose encoding fits in a Go slice.
\<close>

theorem posting_list_roundtrip:
  assumes "PostingList_Size pl < 2 ^ 63"
  shows "\<exists>data. PostingList_Marshal pl = Inr data \<and> length data = PostingList_Size pl
    \<and> PostingList_Unmarshal empty_posting_list data = Inr pl"
  using plist.dec_enc [OF assms] by (simp add: PostingList_Marshal_eq PostingList_Size_length)

theorem posting_list_roundtrip_witness:
  "\<exists>data. PostingList_Marshal (empty_posting_list\<lparr>Postings :=
       [empty_posting\<lparr>Uid := 300, Label := ''x'', Op := 3\<rparr>], PL_Commit := 129\<rparr>) = Inr data
     \<and> length data = 19
     \<and> PostingList_Unmarshal empty_posting_list data = Inr (empty_posting_list\<lparr>Postings :=
       [empty_posting\<lparr>Uid := 300, Label := ''x'', Op := 3\<rparr>], PL_Commit := 129\<rparr>)"
proof -
  have size: "PostingList_Size (empty_posting_list\<lparr>Postings :=
      [empty_posting\<lparr>Uid := 300, Label := ''x'', Op := 3\<rparr>], PL_Commit := 129\<rparr>) = 19"
    by code_simp
  show ?thesis
    using posting_list_roundtrip [of "empty_posting_list\<lparr>Postings :=
      [empty_posting\<lparr>Uid := 300, Label := ''x'', Op := 3\<rparr>], PL_Commit := 129\<rparr>"]
    unfolding size by simp
qed

text \<open>
  The end of a length-delimited field is computed with wrap-around before it is compared
  with the length of the message. A message of ten bytes whose length prefix is the largest
  \<^verbatim>\<open>int\<close> passes the comparison, and \<^verbatim>\<open>Posting.Unmarshal\<close> panics at the slice expression instead of
  returning \<^verbatim>\<open>io.ErrUnexpectedEOF\<close>.
\<close>

lemma posting_length_overflow_panics:
  "Posting_Unmarshal empty_posting (CHR 0x12 # replicate 8 (CHR 0xFF) @ [CHR 0x7F])
   = Inl (Panic ''slice bounds out of range'')"
  by code_simp

end
