(* ===== verification/Go_Utf8.thy ===== *)
theory Go_Utf8
  imports Go_Prelude
begin

text \<open>
  The part of Go's package \<^verbatim>\<open>unicode/utf8\<close> that the program uses: the decoding of the first
  rune of a byte sequence, which the lexer calls and which a \<^verbatim>\<open>range\<close> loop over a string
  performs at every step. A sequence that is not valid UTF-8 decodes to \<open>RuneError\<close> with width
  one. \<open>range_string\<close> lists what a \<^verbatim>\<open>range\<close> loop visits: the byte offsets with their runes.
\<close>

type_synonym rune = int

definition RuneError :: rune where
  "RuneError = 0xFFFD"

abbreviation byte_at :: "bytes \<Rightarrow> nat \<Rightarrow> int" where
  "byte_at s i \<equiv> of_char (s ! i)"

definition is_cont :: "bytes \<Rightarrow> nat \<Rightarrow> int \<Rightarrow> int \<Rightarrow> bool" where
  "is_cont s i lo hi \<longleftrightarrow> i < length s \<and> lo \<le> byte_at s i \<and> byte_at s i \<le> hi"

text \<open>The admissible range of the second byte, which depends on the first one.\<close>

definition second_range :: "int \<Rightarrow> int \<times> int" where
  "second_range b0 =
     (if b0 = 0xE0 then (0xA0, 0xBF) else if b0 = 0xED then (0x80, 0x9F)
      else if b0 = 0xF0 then (0x90, 0xBF) else if b0 = 0xF4 then (0x80, 0x8F)
      else (0x80, 0xBF))"

definition DecodeRune :: "bytes \<Rightarrow> rune \<times> nat" where
  "DecodeRune s =
     (if s = [] then (RuneError, 0)
      else
        let b0 = byte_at s 0; (lo, hi) = second_range b0 in
        if b0 < 0x80 then (b0, 1)
        else if 0xC2 \<le> b0 \<and> b0 \<le> 0xDF then
          if is_cont s 1 lo hi then ((b0 - 0xC0) * 64 + (byte_at s 1 - 0x80), 2)
          else (RuneError, 1)
        else if 0xE0 \<le> b0 \<and> b0 \<le> 0xEF then
          if is_cont s 1 lo hi \<and> is_cont s 2 0x80 0xBF
          then ((b0 - 0xE0) * 4096 + (byte_at s 1 - 0x80) * 64 + (byte_at s 2 - 0x80), 3)
          else (RuneError, 1)
        else if 0xF0 \<le> b0 \<and> b0 \<le> 0xF4 then
          if is_cont s 1 lo hi \<and> is_cont s 2 0x80 0xBF \<and> is_cont s 3 0x80 0xBF
          then ((b0 - 0xF0) * 262144 + (byte_at s 1 - 0x80) * 4096 + (byte_at s 2 - 0x80) * 64
                + (byte_at s 3 - 0x80), 4)
          else (RuneError, 1)
        else (RuneError, 1))"

lemma DecodeRune_width: "s \<noteq> [] \<Longrightarrow> 1 \<le> snd (DecodeRune s) \<and> snd (DecodeRune s) \<le> length s"
  by (auto simp: DecodeRune_def is_cont_def Let_def Suc_le_eq split: prod.splits)

lemma DecodeRune_Nil [simp]: "DecodeRune [] = (RuneError, 0)"
  by (simp add: DecodeRune_def)

function range_from :: "nat \<Rightarrow> bytes \<Rightarrow> (nat \<times> rune) list" where
  "range_from i s =
     (if s = [] then []
      else case DecodeRune s of (r, w) \<Rightarrow> (i, r) # range_from (i + w) (drop w s))"
  by pat_completeness auto
termination
proof (relation "measure (\<lambda>(i, s). length s)", goal_cases)
  case (2 i s r w)
  then have "1 \<le> w" using DecodeRune_width [of s] by (metis snd_conv)
  with 2 show ?case by simp
qed simp

declare range_from.simps [simp del]

definition range_string :: "bytes \<Rightarrow> (nat \<times> rune) list" where
  "range_string s = range_from 0 s"

text \<open>On ASCII text the runes are the bytes.\<close>

definition ascii :: "bytes \<Rightarrow> bool" where
  "ascii s \<longleftrightarrow> (\<forall>c \<in> set s. of_char c < (0x80 :: int))"

lemma DecodeRune_ascii: "of_char c < (0x80 :: int) \<Longrightarrow> DecodeRune (c # s) = (of_char c, 1)"
  by (simp add: DecodeRune_def Let_def split: prod.splits)

lemma range_from_ascii: "ascii s \<Longrightarrow> range_from i s = zip [i ..< i + length s] (map of_char s)"
proof (induction s arbitrary: i)
  case Nil
  then show ?case by (simp add: range_from.simps)
next
  case (Cons c s)
  then show ?case
    by (subst range_from.simps) (simp add: ascii_def DecodeRune_ascii upt_conv_Cons del: upt_Suc)
qed

end
