(* ===== verification/Go_Strings.thy ===== *)
theory Go_Strings
  imports Go_Utf8
begin

text \<open>
  The functions of Go's packages \<^verbatim>\<open>strings\<close>, \<^verbatim>\<open>bytes\<close>, \<^verbatim>\<open>strconv\<close> and \<^verbatim>\<open>bufio\<close> that several
  components call: splitting at a separator of one byte, trimming white space, prefix and suffix
  tests, decimal numbers of 64 bits, and the lines of a text.
\<close>

section \<open>Splitting, trimming, prefixes\<close>

text \<open>\<^verbatim>\<open>bytes.Split\<close> and \<^verbatim>\<open>strings.Split\<close> with a separator of one byte.\<close>

fun bytes_Split :: "bytes \<Rightarrow> char \<Rightarrow> bytes list" where
  "bytes_Split [] sep = [[]]"
| "bytes_Split (c # cs) sep =
     (if c = sep then [] # bytes_Split cs sep
      else case bytes_Split cs sep of
        [] \<Rightarrow> [[c]]
      | part # parts \<Rightarrow> (c # part) # parts)"

definition HasPrefix :: "bytes \<Rightarrow> bytes \<Rightarrow> bool" where
  "HasPrefix s p \<longleftrightarrow> length p \<le> length s \<and> take (length p) s = p"

definition HasSuffix :: "bytes \<Rightarrow> bytes \<Rightarrow> bool" where
  "HasSuffix s p \<longleftrightarrow> length p \<le> length s \<and> drop (length s - length p) s = p"

definition TrimSuffix :: "bytes \<Rightarrow> bytes \<Rightarrow> bytes" where
  "TrimSuffix s p = (if HasSuffix s p then take (length s - length p) s else s)"

text \<open>\<^verbatim>\<open>unicode.IsSpace\<close>.\<close>

definition IsSpace :: "rune \<Rightarrow> bool" where
  "IsSpace r \<longleftrightarrow> (9 \<le> r \<and> r \<le> 13) \<or> r = 32 \<or> r = 0x85 \<or> r = 0xA0 \<or> r = 0x1680
     \<or> (0x2000 \<le> r \<and> r \<le> 0x200A) \<or> r = 0x2028 \<or> r = 0x2029 \<or> r = 0x202F \<or> r = 0x205F
     \<or> r = 0x3000"

function trim_left :: "bytes \<Rightarrow> bytes" where
  "trim_left s =
     (if s \<noteq> [] \<and> IsSpace (fst (DecodeRune s)) then trim_left (drop (snd (DecodeRune s)) s) else s)"
  by pat_completeness auto
termination
proof (relation "measure length", goal_cases)
  case (2 s)
  then show ?case using DecodeRune_width [of s] by simp
qed simp

function trim_right :: "bytes \<Rightarrow> bytes" where
  "trim_right s =
     (if s = [] then []
      else
        let (r, w) = DecodeRune s; rest = trim_right (drop w s) in
        if rest = [] \<and> IsSpace r then [] else take w s @ rest)"
  by pat_completeness auto
termination
proof (relation "measure length", goal_cases)
  case (2 s x r w)
  then have "snd (DecodeRune s) = w" by (metis snd_conv)
  with 2 show ?case using DecodeRune_width [of s] by simp
qed simp

declare trim_left.simps [simp del] trim_right.simps [simp del]

definition TrimSpace :: "bytes \<Rightarrow> bytes" where
  "TrimSpace s = trim_right (trim_left s)"

section \<open>Numbers\<close>

definition is_digit :: "char \<Rightarrow> bool" where
  "is_digit c \<longleftrightarrow> 48 \<le> (of_char c :: int) \<and> (of_char c :: int) \<le> 57"

definition digits_val :: "bytes \<Rightarrow> int" where
  "digits_val s = foldl (\<lambda>n c. n * 10 + (of_char c - 48)) 0 s"

text \<open>\<^verbatim>\<open>strconv.ParseUint(s, 10, 64)\<close>.\<close>

definition ParseUint :: "bytes \<Rightarrow> u64 go" where
  "ParseUint s =
     (if s = [] \<or> \<not> list_all is_digit s then Inl (Err ''invalid syntax'')
      else if 2 ^ 64 \<le> digits_val s then Inl (Err ''value out of range'')
      else Inr (word_of_int (digits_val s)))"

text \<open>\<^verbatim>\<open>x.Check\<close> and \<^verbatim>\<open>x.Checkf\<close>: an error ends the process.\<close>

definition x_Check :: "'a go \<Rightarrow> 'a go" where
  "x_Check m = (case m of Inl (Err e) \<Rightarrow> Inl (Fatal e) | Inl e \<Rightarrow> Inl e | Inr v \<Rightarrow> Inr v)"

section \<open>Lines\<close>

text \<open>
  The lines a \<^verbatim>\<open>bufio.Scanner\<close> yields, and whether it stopped at a line that does not fit in its
  buffer of 64 KB. A carriage return before the end of a line is dropped, and there is no line
  after a final newline.
\<close>

definition drop_cr :: "bytes \<Rightarrow> bytes" where
  "drop_cr l = (if l \<noteq> [] \<and> last l = CHR 0x0D then butlast l else l)"

definition raw_lines :: "bytes \<Rightarrow> bytes list" where
  "raw_lines s = (let ls = bytes_Split s (CHR 0x0A) in if last ls = [] then butlast ls else ls)"

definition scanner_lines :: "bytes \<Rightarrow> bytes list \<times> bool" where
  "scanner_lines s =
     (let ls = raw_lines s; ok = takeWhile (\<lambda>l. int (length l) < 65536) ls in
      (map drop_cr ok, length ok < length ls))"

section \<open>Lemmas\<close>

lemma HasPrefix_append [simp]: "HasPrefix (p @ s) p"
  by (simp add: HasPrefix_def)

lemma HasSuffix_append [simp]: "HasSuffix (s @ p) p"
  by (simp add: HasSuffix_def)

lemma TrimSuffix_append [simp]: "TrimSuffix (s @ p) p = s"
  by (simp add: TrimSuffix_def)

lemma bytes_Split_absent: "sep \<notin> set s \<Longrightarrow> bytes_Split s sep = [s]"
  by (induction s) auto

lemma bytes_Split_nonempty [simp]: "bytes_Split s sep \<noteq> []"
  by (induction s) (auto split: list.splits)

lemma bytes_Split_append:
  "sep \<notin> set s \<Longrightarrow> bytes_Split (s @ sep # t) sep = s # bytes_Split t sep"
  by (induction s) auto

lemma bytes_Split_length: "length (bytes_Split s sep) = Suc (count_list s sep)"
  using bytes_Split_nonempty by (induction s) (auto split: list.splits)

lemma x_Check_Inr [simp]: "x_Check m = Inr v \<longleftrightarrow> m = Inr v"
  by (auto simp: x_Check_def split: sum.splits go_err.splits)

end
