(* ===== verification/Kv_Store.thy ===== *)
theory Kv_Store
  imports Go_Prelude "HOL-Library.Sublist"
begin

text \<open>
  The key-value store behind \<^verbatim>\<open>store/store.go\<close>. RocksDB itself is outside the repository; what
  the program relies on is its documented behaviour: a store is a finite map from keys to
  values that iterators visit in the byte order of the keys, a read or a write may fail, and a
  batch applies its writes in order. The state is the list of entries in key order. The locale
  \<open>ordered_kv\<close> states the laws the clients use; what a prefix scan visits is proved from them.
\<close>

section \<open>Operations\<close>

type_synonym kv = "(bytes \<times> bytes) list"

record store =
  entries :: kv
  unreadable :: "bytes list"
  readOnly :: bool

datatype batch_op = Batch_Put bytes bytes | Batch_Delete bytes

definition kv_put :: "kv \<Rightarrow> bytes \<Rightarrow> bytes \<Rightarrow> kv" where
  "kv_put es k v =
     takeWhile (\<lambda>e. fst e < k) es @ (k, v) # dropWhile (\<lambda>e. fst e \<le> k) es"

definition kv_delete :: "kv \<Rightarrow> bytes \<Rightarrow> kv" where
  "kv_delete es k = filter (\<lambda>e. fst e \<noteq> k) es"

definition kv_seek :: "kv \<Rightarrow> bytes \<Rightarrow> kv" where
  "kv_seek es k = dropWhile (\<lambda>e. fst e < k) es"

definition empty_store :: store where
  "empty_store = \<lparr> entries = [], unreadable = [], readOnly = False \<rparr>"

text \<open>\<^verbatim>\<open>Get\<close> gives an empty slice for an absent key.\<close>

definition store_Get :: "store \<Rightarrow> bytes \<Rightarrow> bytes go" where
  "store_Get s k =
     (if k \<in> set (unreadable s) then Inl (Err ''Key'')
      else Inr (case map_of (entries s) k of None \<Rightarrow> [] | Some v \<Rightarrow> v))"

definition store_SetOne :: "store \<Rightarrow> bytes \<Rightarrow> bytes \<Rightarrow> store go" where
  "store_SetOne s k v =
     (if readOnly s then Inl (Err ''not supported in read only mode'')
      else Inr (s\<lparr>entries := kv_put (entries s) k v\<rparr>))"

definition store_Delete :: "store \<Rightarrow> bytes \<Rightarrow> store go" where
  "store_Delete s k =
     (if readOnly s then Inl (Err ''not supported in read only mode'')
      else Inr (s\<lparr>entries := kv_delete (entries s) k\<rparr>))"

fun batch_apply :: "batch_op list \<Rightarrow> kv \<Rightarrow> kv" where
  "batch_apply [] es = es"
| "batch_apply (Batch_Put k v # ops) es = batch_apply ops (kv_put es k v)"
| "batch_apply (Batch_Delete k # ops) es = batch_apply ops (kv_delete es k)"

definition store_WriteBatch :: "store \<Rightarrow> batch_op list \<Rightarrow> store go" where
  "store_WriteBatch s ops =
     (if readOnly s then Inl (Err ''not supported in read only mode'')
      else Inr (s\<lparr>entries := batch_apply ops (entries s)\<rparr>))"

text \<open>
  What the loop \<^verbatim>\<open>for itr.Seek(start); itr.ValidForPrefix(prefix); itr.Next()\<close> visits.
\<close>

definition store_scan :: "store \<Rightarrow> bytes \<Rightarrow> bytes \<Rightarrow> kv" where
  "store_scan s start pre = takeWhile (\<lambda>e. prefix pre (fst e)) (kv_seek (entries s) start)"

section \<open>The byte order and prefixes\<close>

lemma prefix_le: "prefix p k \<Longrightarrow> p \<le> (k :: bytes)"
  by (induction p k rule: list_induct2') auto

lemma prefix_between:
  "p \<le> k \<Longrightarrow> k \<le> k' \<Longrightarrow> prefix p k' \<Longrightarrow> prefix p (k :: bytes)"
proof (induction p arbitrary: k k')
  case (Cons c p)
  then show ?case by (cases k; cases k') auto
qed simp

lemma takeWhile_prefix_filter:
  assumes "ssorted (map fst xs)" "\<forall>e \<in> set xs. p \<le> (fst e :: bytes)"
  shows "takeWhile (\<lambda>e. prefix p (fst e)) xs = filter (\<lambda>e. prefix p (fst e)) xs"
  using assms
proof (induction xs)
  case (Cons e xs)
  have "\<not> prefix p (fst e')" if "\<not> prefix p (fst e)" "e' \<in> set xs" for e'
  proof
    assume "prefix p (fst e')"
    moreover have "p \<le> fst e" "fst e \<le> fst e'" using Cons.prems that by auto
    ultimately show False using that(1) prefix_between by blast
  qed
  then have "\<not> prefix p (fst e) \<Longrightarrow> filter (\<lambda>e. prefix p (fst e)) xs = []"
    by (simp add: filter_empty_conv)
  with Cons show ?case by simp
qed simp

section \<open>The contract of an ordered store\<close>

locale ordered_kv =
  fixes invar :: "'s \<Rightarrow> bool"
    and lookup :: "'s \<Rightarrow> bytes \<Rightarrow> bytes option"
    and put :: "'s \<Rightarrow> bytes \<Rightarrow> bytes \<Rightarrow> 's"
    and delete :: "'s \<Rightarrow> bytes \<Rightarrow> 's"
    and seek :: "'s \<Rightarrow> bytes \<Rightarrow> kv"
  assumes invar_put: "invar s \<Longrightarrow> invar (put s k v)"
    and invar_delete: "invar s \<Longrightarrow> invar (delete s k)"
    and lookup_put: "invar s \<Longrightarrow> lookup (put s k v) = (lookup s)(k \<mapsto> v)"
    and lookup_delete: "invar s \<Longrightarrow> lookup (delete s k) = (lookup s)(k := None)"
    and seek_sorted: "invar s \<Longrightarrow> ssorted (map fst (seek s k))"
    and seek_set: "invar s \<Longrightarrow> set (seek s k) = {(k', v). k \<le> k' \<and> lookup s k' = Some v}"
begin

text \<open>A scan that starts within a prefix visits the entries with that prefix from there on.\<close>

lemma scan_set:
  assumes "invar s" "prefix p start"
  shows "set (takeWhile (\<lambda>e. prefix p (fst e)) (seek s start))
    = {(k, v). start \<le> k \<and> prefix p k \<and> lookup s k = Some v}"
proof -
  have "\<forall>e \<in> set (seek s start). p \<le> fst e"
    using prefix_le [OF assms(2)] seek_set [OF assms(1)] by auto
  then have "takeWhile (\<lambda>e. prefix p (fst e)) (seek s start)
      = filter (\<lambda>e. prefix p (fst e)) (seek s start)"
    by (rule takeWhile_prefix_filter [OF seek_sorted [OF assms(1)]])
  then show ?thesis using seek_set [OF assms(1), of start] by auto
qed

lemma scan_sorted: "invar s \<Longrightarrow> ssorted (map fst (takeWhile P (seek s start)))"
  using seek_sorted [of s start]
  by (metis sorted_wrt_append map_append takeWhile_dropWhile_id)

end

section \<open>The sorted entries satisfy the contract\<close>

abbreviation kv_invar :: "kv \<Rightarrow> bool" where
  "kv_invar es \<equiv> ssorted (map fst es)"

lemma kv_filter_less: "kv_invar es \<Longrightarrow> takeWhile (\<lambda>e. fst e < k) es = filter (\<lambda>e. fst e < k) es"
proof (induction es)
  case (Cons e es)
  then have "filter (\<lambda>e. fst e < k) es = []" if "\<not> fst e < k"
    using that by (auto simp: filter_empty_conv dest: order_less_trans)
  with Cons show ?case by auto
qed simp

lemma kv_filter_gt: "kv_invar es \<Longrightarrow> dropWhile (\<lambda>e. fst e \<le> k) es = filter (\<lambda>e. k < fst e) es"
proof (induction es)
  case (Cons e es)
  then have "filter (\<lambda>e. k < fst e) es = es" if "k < fst e"
    using that by (auto simp: filter_id_conv dest: order_less_trans)
  with Cons show ?case by (auto simp: not_le not_less)
qed simp

lemma kv_filter_ge: "kv_invar es \<Longrightarrow> kv_seek es k = filter (\<lambda>e. k \<le> fst e) es"
  unfolding kv_seek_def
proof (induction es)
  case (Cons e es)
  then have "filter (\<lambda>e. k \<le> fst e) es = es" if "k \<le> fst e"
    using that by (auto simp: filter_id_conv dest: order_le_less_trans)
  with Cons show ?case by (auto simp: not_le not_less)
qed simp

lemma kv_put_eq: "kv_invar es \<Longrightarrow>
    kv_put es k v = filter (\<lambda>e. fst e < k) es @ (k, v) # filter (\<lambda>e. k < fst e) es"
  by (simp add: kv_put_def kv_filter_less kv_filter_gt)

lemma kv_invar_filter: "kv_invar es \<Longrightarrow> kv_invar (filter P es)"
  by (induction es) auto

lemma map_of_filter_key: "map_of (filter (\<lambda>e. P (fst e)) es) k = (if P k then map_of es k else None)"
  by (induction es) auto

lemma map_of_ssorted: "kv_invar es \<Longrightarrow> (k, v) \<in> set es \<longleftrightarrow> map_of es k = Some v"
  using ssorted_distinct [of "map fst es"] by (simp add: map_of_eq_Some_iff)

interpretation kv: ordered_kv kv_invar map_of kv_put kv_delete kv_seek
proof (unfold_locales, goal_cases)
  case (1 s k v)
  then show ?case
    by (auto simp: kv_put_eq sorted_wrt_append kv_invar_filter intro: order_less_trans)
next
  case (2 s k)
  then show ?case by (simp add: kv_delete_def kv_invar_filter)
next
  case (3 s k v)
  then show ?case
    by (auto simp: kv_put_eq fun_eq_iff map_add_def map_of_filter_key [where P = "\<lambda>x. x < k"]
        map_of_filter_key [where P = "\<lambda>x. k < x"] split: option.splits)
next
  case (4 s k)
  then show ?case by (simp add: kv_delete_def fun_eq_iff map_of_filter_key [where P = "\<lambda>x. x \<noteq> k"])
next
  case (5 s k)
  then show ?case by (simp add: kv_filter_ge kv_invar_filter)
next
  case (6 s k)
  then show ?case by (auto simp: kv_filter_ge map_of_ssorted)
qed

end
