(* ===== verification/Posting_List.thy ===== *)
theory Posting_List
  imports Posting_Codec Go_Strings Kv_Store Uid_Lists
begin

text \<open>
  The posting list of \<^verbatim>\<open>posting/list.go\<close>: an immutable layer, which is read from the store on
  demand, under a mutation layer, which is kept sorted by uid. A mutation changes only the
  mutation layer; \<^verbatim>\<open>commit\<close> merges both layers into the store; the readers walk both layers at
  once. The invariant \<open>layers_ok\<close> says what the two layers look like, and \<open>view\<close> is the map
  from uids to contents that they stand for. The lemmas show that a mutation is a set or a
  delete on the view with the right answer to whether it changed anything, that iteration
  visits the live postings in order, and that \<^verbatim>\<open>Length\<close>, \<^verbatim>\<open>Uids\<close>, \<^verbatim>\<open>Value\<close> and \<^verbatim>\<open>commit\<close>
  agree with it. Locks are not modelled: each operation is one step on the list.
\<close>

section \<open>Data\<close>

record edge =
  Entity :: u64
  Attr :: bytes
  EValue :: "bytes option"
  ValueType :: u32
  ValueId :: u64
  ELabel :: bytes

definition Set :: u32 where "Set = 1"
definition Del :: u32 where "Del = 2"
definition Add :: u32 where "Add = 3"

definition ErrRetry :: go_err where
  "ErrRetry = Err ''Temporary Error. Please retry.''"

definition ErrNoValue :: go_err where
  "ErrNoValue = Err ''No value found''"

record mlist =
  key :: bytes
  ghash :: u64
  hash :: u32
  pbuffer :: "posting_list option"
  mlayer :: "posting list"
  lastCompact :: nat
  deleteMe :: bool
  refcount :: int
  dirtyTs :: nat

definition getNew :: mlist where
  "getNew = \<lparr> key = [], ghash = 0, hash = 0, pbuffer = None, mlayer = [], lastCompact = 0,
     deleteMe = False, refcount = 1, dirtyTs = 0 \<rparr>"

definition incr :: "mlist \<Rightarrow> int \<times> mlist" where
  "incr l = (refcount l + 1, l\<lparr>refcount := refcount l + 1\<rparr>)"

text \<open>\<open>True\<close> when the last reference is gone and the list goes back to the pool.\<close>

definition decr :: "mlist \<Rightarrow> (bool \<times> mlist) go" where
  "decr l =
     (let val = refcount l - 1 in
      go_bind (assertTruef (0 \<le> val) ''List reference should never be less than zero'')
        (\<lambda>_. Inr (\<not> 0 < val, l\<lparr>refcount := val\<rparr>)))"

text \<open>The fingerprints are those of the package \<^verbatim>\<open>go-farm\<close>, parameters of the model.\<close>

definition List_init :: "(bytes \<Rightarrow> u32) \<Rightarrow> (bytes \<Rightarrow> u64) \<Rightarrow> bytes \<Rightarrow> mlist \<Rightarrow> mlist" where
  "List_init fp32 fp64 k l = l\<lparr>key := k, hash := fp32 k, ghash := fp64 k\<rparr>"

definition samePosting :: "posting \<Rightarrow> posting \<Rightarrow> bool" where
  "samePosting a b =
     (if Uid a \<noteq> Uid b then False
      else if ValType a \<noteq> ValType b then False
      else if Value a \<noteq> Value b then False
      else if Label a \<noteq> Label b then False
      else True)"

section \<open>Keys\<close>

text \<open>
  The loop of \<^verbatim>\<open>Key\<close> ranges over the runes of the attribute and keeps the low byte of each, at
  the offset where the rune starts.
\<close>

definition Key :: "u64 \<Rightarrow> bytes \<Rightarrow> bytes" where
  "Key uid attr =
     (let buf = fold (\<lambda>(i, ch) buf. buf[i := char_of ch]) (range_string attr)
                  (replicate (length attr + 9) (CHR 0x00))
      in take (length attr) buf @ CHR ''|'' # BigEndian_PutUint64 uid)"

definition SplitKey :: "bytes \<Rightarrow> (bytes \<times> u64) go" where
  "SplitKey k =
     (let sKeys = bytes_Split k (CHR ''|'') in
      go_bind (assertTruef (length sKeys = 2) ''Assert failed'') (\<lambda>_.
        go_bind (BigEndian_Uint64 (sKeys ! 1)) (\<lambda>uid. Inr (sKeys ! 0, uid))))"

section \<open>Mutations\<close>

definition edge_bytes :: "edge \<Rightarrow> bytes" where
  "edge_bytes t = (case EValue t of None \<Rightarrow> [] | Some v \<Rightarrow> v)"

definition newPosting :: "edge \<Rightarrow> u32 \<Rightarrow> posting go" where
  "newPosting t op =
     go_bind (assertTruef (edge_bytes t = [] \<or> ValueId t = maxUint64)
        ''This should have been set by the caller.'')
       (\<lambda>_. Inr \<lparr> Uid = ValueId t, Value = edge_bytes t, ValType = ValueType t,
                  Label = ELabel t, Commit = 0, Op = op \<rparr>)"

text \<open>
  The immutable layer, read once. A failed read leaves it empty; data that does not decode
  ends the process.
\<close>

definition getPostingList :: "store \<Rightarrow> mlist \<Rightarrow> (posting_list \<times> mlist) go" where
  "getPostingList st l =
     (case pbuffer l of
        Some plist \<Rightarrow> Inr (plist, l)
      | None \<Rightarrow>
          (let loaded =
             (case store_Get st (key l) of
                Inl e \<Rightarrow> Inr empty_posting_list
              | Inr data \<Rightarrow>
                  if data = [] then Inr empty_posting_list
                  else case PostingList_Unmarshal empty_posting_list data of
                    Inl (Panic m) \<Rightarrow> Inl (Panic m)
                  | Inl e \<Rightarrow> Inl (Fatal ''Unable to Unmarshal PostingList from store'')
                  | Inr pl \<Rightarrow> Inr pl)
           in go_bind loaded (\<lambda>plist. Inr (plist, l\<lparr>pbuffer := Some plist\<rparr>))))"

definition SetForDeletion :: "mlist \<Rightarrow> mlist" where
  "SetForDeletion l = l\<lparr>deleteMe := True\<rparr>"

text \<open>The index at which a posting for \<open>uid\<close> is or would be.\<close>

definition search_uid :: "posting list \<Rightarrow> u64 \<Rightarrow> nat" where
  "search_uid ps uid = sort_Search (length ps) (\<lambda>idx. uid \<le> Uid (ps ! idx))"

definition updateMutationLayer :: "store \<Rightarrow> mlist \<Rightarrow> posting \<Rightarrow> (bool \<times> mlist) go" where
  "updateMutationLayer st l mpost =
     go_bind (assertTruef (Op mpost = Set \<or> Op mpost = Del) ''Assert failed'') (\<lambda>_.
       let ml = mlayer l; midx = search_uid ml (Uid mpost) in
       if midx < length ml \<and> Uid (ml ! midx) = Uid mpost then
         let oldPost = ml ! midx; msame = samePosting oldPost mpost in
         if msame \<and> ((Op mpost = Del) = (Op oldPost = Del)) then Inr (False, l)
         else if \<not> msame \<and> Op mpost = Del then Inr (False, l)
         else if Op oldPost = Add then
           if Op mpost = Del
           then Inr (True, l\<lparr>mlayer := take midx ml @ drop (Suc midx) ml\<rparr>)
           else Inr (True, l\<lparr>mlayer := ml[midx := mpost\<lparr>Op := Add\<rparr>]\<rparr>)
         else Inr (True, l\<lparr>mlayer := ml[midx := mpost]\<rparr>)
       else
         go_bind (getPostingList st l) (\<lambda>(pl, l').
           let ps = Postings pl;
               pidx = search_uid ps (Uid mpost);
               uidFound = (pidx < length ps \<and> Uid mpost = Uid (ps ! pidx));
               psame = (uidFound \<and> samePosting (ps ! pidx) mpost)
           in if Op mpost = Set \<and> psame then Inr (False, l')
              else if Op mpost \<noteq> Set \<and> \<not> psame then Inr (False, l')
              else
                let mpost' = (if Op mpost = Set \<and> \<not> uidFound then mpost\<lparr>Op := Add\<rparr> else mpost)
                in if length ml \<le> midx then Inr (True, l'\<lparr>mlayer := ml @ [mpost']\<rparr>)
                   else Inr (True, l'\<lparr>mlayer := take midx ml @ mpost' # drop midx ml\<rparr>)))"

text \<open>
  \<open>now\<close> is the time of the call. The third result lists what is sent on \<^verbatim>\<open>dirtyChan\<close>.
\<close>

definition AddMutation ::
  "store \<Rightarrow> nat \<Rightarrow> mlist \<Rightarrow> edge \<Rightarrow> u32 \<Rightarrow> (bool \<times> mlist \<times> u64 list) go" where
  "AddMutation st now l t op =
     (if deleteMe l then Inl ErrRetry
      else
        let t' = (if edge_bytes t \<noteq> [] then t\<lparr>ValueId := maxUint64\<rparr> else t) in
        if ValueId t' = 0 then Inl (Err ''ValueId cannot be zero'')
        else
          go_bind (newPosting t' op) (\<lambda>mpost.
            go_bind (updateMutationLayer st l mpost) (\<lambda>(hasMutated, l').
              if 0 < length (mlayer l')
              then Inr (hasMutated, l'\<lparr>dirtyTs := now\<rparr>, [ghash l'])
              else Inr (hasMutated, l', []))))"

section \<open>Iteration\<close>

text \<open>
  The layers are given from the two indices on; the empty posting stands past their ends. The
  callback threads a state of its own and says whether to go on.
\<close>

definition head_posting :: "posting list \<Rightarrow> posting" where
  "head_posting ps = (case ps of [] \<Rightarrow> empty_posting | p # _ \<Rightarrow> p)"

function iterate_loop ::
  "(posting \<Rightarrow> 's \<Rightarrow> (bool \<times> 's) go) \<Rightarrow> posting list \<Rightarrow> posting list \<Rightarrow> 's \<Rightarrow> 's go" where
  "iterate_loop f ps ms s =
     (let pp = head_posting ps; mp = head_posting ms in
      if Uid pp = 0 \<and> Uid mp = 0 then Inr s
      else if Uid mp = 0 \<or> (0 < Uid pp \<and> Uid pp < Uid mp) then
        (case f pp s of
           Inl e \<Rightarrow> Inl e
         | Inr (cont, s') \<Rightarrow> if cont then iterate_loop f (tl ps) ms s' else Inr s')
      else if Uid pp = 0 \<or> (0 < Uid mp \<and> Uid mp < Uid pp) then
        if Op mp \<noteq> Del then
          (case f mp s of
             Inl e \<Rightarrow> Inl e
           | Inr (cont, s') \<Rightarrow> if cont then iterate_loop f ps (tl ms) s' else Inr s')
        else iterate_loop f ps (tl ms) s
      else if Uid pp = Uid mp then
        if Op mp \<noteq> Del then
          (case f mp s of
             Inl e \<Rightarrow> Inl e
           | Inr (cont, s') \<Rightarrow> if cont then iterate_loop f (tl ps) (tl ms) s' else Inr s')
        else iterate_loop f (tl ps) (tl ms) s
      else Inl (Fatal ''Unhandled case during iteration of posting list.''))"
  by pat_completeness auto
termination
  by (relation "measure (\<lambda>(f, ps, ms, s). length ps + length ms)")
    (auto simp: head_posting_def empty_posting_def split: list.splits)

declare iterate_loop.simps [simp del]

definition search_after :: "posting list \<Rightarrow> u64 \<Rightarrow> nat" where
  "search_after ps afterUid =
     (if 0 < afterUid then sort_Search (length ps) (\<lambda>idx. afterUid < Uid (ps ! idx)) else 0)"

definition iterate ::
  "store \<Rightarrow> mlist \<Rightarrow> u64 \<Rightarrow> (posting \<Rightarrow> 's \<Rightarrow> (bool \<times> 's) go) \<Rightarrow> 's \<Rightarrow> ('s \<times> mlist) go" where
  "iterate st l afterUid f s =
     go_bind (getPostingList st l) (\<lambda>(pl, l').
       go_bind (iterate_loop f (drop (search_after (Postings pl) afterUid) (Postings pl))
                  (drop (search_after (mlayer l) afterUid) (mlayer l)) s)
         (\<lambda>s'. Inr (s', l')))"

definition List_Length :: "store \<Rightarrow> mlist \<Rightarrow> u64 \<Rightarrow> (int \<times> mlist) go" where
  "List_Length st l afterUid =
     go_bind (getPostingList st l) (\<lambda>(pl, l').
       let pidx = search_after (Postings pl) afterUid;
           midx = search_after (mlayer l) afterUid;
           count = int (length (Postings pl)) - int pidx
       in Inr (fold (\<lambda>p count. if Op p = Add then count + 1
                               else if Op p = Del then count - 1 else count)
                 (drop midx (mlayer l)) count, l'))"

section \<open>Commit\<close>

text \<open>\<^verbatim>\<open>binary.PutUvarint\<close> is the loop of the posting encoder; \<^verbatim>\<open>binary.PutVarint\<close> maps the sign
  into the lowest bit. \<open>md5\<close> is the hash of \<^verbatim>\<open>crypto/md5\<close>, a parameter.\<close>

definition binary_PutUvarint :: "u64 \<Rightarrow> bytes" where
  "binary_PutUvarint v = encodeVarintTypes v"

definition binary_PutVarint :: "int \<Rightarrow> bytes" where
  "binary_PutVarint x =
     (let ux = push_bit 1 (word_of_int x :: u64) in
      binary_PutUvarint (if x < 0 then NOT ux else ux))"

text \<open>The callback of \<^verbatim>\<open>commit\<close>: the counter, the bytes hashed so far, and the merged postings.\<close>

definition commit_step ::
  "posting \<Rightarrow> nat \<times> bytes \<times> posting list \<Rightarrow> (bool \<times> nat \<times> bytes \<times> posting list) go" where
  "commit_step p s =
     (case s of (cnt, h, final) \<Rightarrow>
        Inr (True, Suc cnt,
             h @ binary_PutVarint (int cnt) @ binary_PutUvarint (Uid p) @ Value p @ Label p,
             final @ [p]))"

definition commit ::
  "(bytes \<Rightarrow> bytes) \<Rightarrow> nat \<Rightarrow> store \<Rightarrow> mlist \<Rightarrow> (bool \<times> store \<times> mlist) go" where
  "commit md5 now st l =
     (if length (mlayer l) = 0 then Inr (False, st, l\<lparr>dirtyTs := 0\<rparr>)
      else
        go_bind (iterate st l 0 commit_step (0, [], [])) (\<lambda>((cnt, h, postings), l').
          let final = \<lparr> Postings = postings, Checksum = md5 h, PL_Commit = 0 \<rparr> in
          go_bind (PostingList_Marshal final) (\<lambda>data.
            case store_SetOne st (key l) data of
              Inl e \<Rightarrow> Inl (Fatal ''Error while storing posting list'')
            | Inr st' \<Rightarrow>
                Inr (True, st', l'\<lparr>pbuffer := None, dirtyTs := 0, mlayer := [], lastCompact := now\<rparr>))))"

definition CommitIfDirty ::
  "(bytes \<Rightarrow> bytes) \<Rightarrow> nat \<Rightarrow> store \<Rightarrow> mlist \<Rightarrow> (bool \<times> store \<times> mlist) go" where
  "CommitIfDirty md5 now st l =
     (if dirtyTs l = 0 then Inr (False, st, l) else commit md5 now st l)"

section \<open>Readers\<close>

text \<open>\<^verbatim>\<open>task.List.Size\<close> is the size of the protobuf encoding of the list, in bytes.\<close>

definition sovTask :: "u64 \<Rightarrow> nat" where
  "sovTask x = sovTypes x"

definition List_Size :: "u64 list \<Rightarrow> nat" where
  "List_Size uids =
     (if length uids > 0
      then 1 + sovTask (word_of_nat (length uids * 8)) + length uids * 8 else 0)"

record list_options =
  AfterUID :: u64
  Intersect :: "u64 list option"

definition uids_step ::
  "u64 list option \<Rightarrow> posting \<Rightarrow> nat \<times> u64 list \<Rightarrow> (bool \<times> nat \<times> u64 list) go" where
  "uids_step intersect p s =
     (case s of (intersectIdx, result) \<Rightarrow>
        if Uid p = maxUint64 then Inr (False, intersectIdx, result)
        else
          case intersect of
            None \<Rightarrow> Inr (True, intersectIdx, result @ [Uid p])
          | Some us \<Rightarrow>
              let idx = advance us (Uid p) intersectIdx in
              if List_Size us \<le> idx then Inr (True, idx, result)
              else if length us \<le> idx then Inl (Panic ''index out of range'')
              else if Uid p < us ! idx then Inr (True, idx, result)
              else Inr (True, idx, result @ [Uid p]))"

definition Uids :: "store \<Rightarrow> mlist \<Rightarrow> list_options \<Rightarrow> (u64 list \<times> mlist) go" where
  "Uids st l opt =
     go_bind (iterate st l (AfterUID opt) (uids_step (Intersect opt)) (0, []))
       (\<lambda>((idx, result), l'). Inr (result, l'))"

definition value_step ::
  "posting \<Rightarrow> (bytes \<times> u8) option \<Rightarrow> (bool \<times> (bytes \<times> u8) option) go" where
  "value_step p found =
     Inr (False, if Uid p = maxUint64 then Some (Value p, ucast (ValType p)) else found)"

definition List_Value :: "store \<Rightarrow> mlist \<Rightarrow> ((bytes \<times> u8) \<times> mlist) go" where
  "List_Value st l =
     go_bind (iterate st l (maxUint64 - 1) value_step None) (\<lambda>(found, l').
       case found of None \<Rightarrow> Inl ErrNoValue | Some v \<Rightarrow> Inr (v, l'))"

section \<open>What the layers stand for\<close>

text \<open>The content of a posting, as \<^verbatim>\<open>samePosting\<close> compares it.\<close>

type_synonym content = "u32 \<times> bytes \<times> bytes"

definition content_of :: "posting \<Rightarrow> content" where
  "content_of p = (ValType p, Value p, Label p)"

definition at :: "posting list \<Rightarrow> u64 \<Rightarrow> posting option" where
  "at ps u = map_of (map (\<lambda>p. (Uid p, p)) ps) u"

definition view :: "posting list \<Rightarrow> posting list \<Rightarrow> u64 \<Rightarrow> content option" where
  "view ps ms u =
     (case at ms u of
        Some m \<Rightarrow> if Op m = Del then None else Some (content_of m)
      | None \<Rightarrow> map_option content_of (at ps u))"

definition postings_ok :: "posting list \<Rightarrow> bool" where
  "postings_ok ps \<longleftrightarrow> ssorted (map Uid ps) \<and> (\<forall>p \<in> set ps. Uid p \<noteq> 0)"

definition layers_ok :: "posting list \<Rightarrow> posting list \<Rightarrow> bool" where
  "layers_ok ps ms \<longleftrightarrow> postings_ok ps \<and> postings_ok ms
     \<and> (\<forall>m \<in> set ms. Op m \<in> {Set, Del, Add} \<and> (Op m = Add \<longleftrightarrow> Uid m \<notin> Uid ` set ps))"

text \<open>The live postings in the order of their uids.\<close>

definition live :: "posting list \<Rightarrow> posting list \<Rightarrow> posting list" where
  "live ps ms =
     sort_key Uid (filter (\<lambda>p. Uid p \<notin> Uid ` set ms) ps @ filter (\<lambda>m. Op m \<noteq> Del) ms)"

text \<open>A list is well formed over a store when its immutable layer can be read and the layers are.\<close>

definition list_ok :: "store \<Rightarrow> mlist \<Rightarrow> bool" where
  "list_ok st l \<longleftrightarrow>
     (case getPostingList st l of
        Inl e \<Rightarrow> False
      | Inr (pl, l') \<Rightarrow> layers_ok (Postings pl) (mlayer l))"

definition list_view :: "store \<Rightarrow> mlist \<Rightarrow> u64 \<Rightarrow> content option" where
  "list_view st l u =
     (case getPostingList st l of Inl e \<Rightarrow> None | Inr (pl, l') \<Rightarrow> view (Postings pl) (mlayer l) u)"

section \<open>Sorted layers\<close>

lemma op_distinct [simp]: "Set \<noteq> Del" "Del \<noteq> Set" "Set \<noteq> Add" "Add \<noteq> Set" "Del \<noteq> Add" "Add \<noteq> Del"
  by (simp_all add: Set_def Del_def Add_def)

lemma samePosting_iff: "samePosting a b \<longleftrightarrow> Uid a = Uid b \<and> content_of a = content_of b"
  by (auto simp: samePosting_def content_of_def)

lemma at_Nil [simp]: "at [] u = None"
  by (simp add: at_def)

lemma at_Cons [simp]: "at (p # ps) u = (if Uid p = u then Some p else at ps u)"
  by (simp add: at_def)

lemma at_None_iff: "at ps u = None \<longleftrightarrow> u \<notin> Uid ` set ps"
  by (simp add: at_def map_of_eq_None_iff image_image)

lemma at_SomeD: "at ps u = Some p \<Longrightarrow> p \<in> set ps \<and> Uid p = u"
  by (auto simp: at_def dest: map_of_SomeD)

lemma at_Some_iff: "ssorted (map Uid ps) \<Longrightarrow> at ps u = Some p \<longleftrightarrow> p \<in> set ps \<and> Uid p = u"
  unfolding at_def by (subst map_of_eq_Some_iff) (auto dest: ssorted_distinct simp: comp_def)

text \<open>Replacement and removal in a sorted layer.\<close>

definition put_posting :: "posting \<Rightarrow> posting list \<Rightarrow> posting list" where
  "put_posting p ms = filter (\<lambda>q. Uid q < Uid p) ms @ p # filter (\<lambda>q. Uid p < Uid q) ms"

definition del_posting :: "u64 \<Rightarrow> posting list \<Rightarrow> posting list" where
  "del_posting u ms = filter (\<lambda>q. Uid q \<noteq> u) ms"

lemma ssorted_map_filter: "ssorted (map f xs) \<Longrightarrow> ssorted (map f (filter P xs))"
  by (induction xs) auto

lemma set_put_posting: "set (put_posting p ms) = insert p {m \<in> set ms. Uid m \<noteq> Uid p}"
  by (auto simp: put_posting_def)

lemma set_del_posting: "set (del_posting u ms) = {m \<in> set ms. Uid m \<noteq> u}"
  by (auto simp: del_posting_def)

lemma postings_ok_put: "postings_ok ms \<Longrightarrow> Uid p \<noteq> 0 \<Longrightarrow> postings_ok (put_posting p ms)"
  unfolding postings_ok_def
  by (auto simp: put_posting_def sorted_wrt_append ssorted_map_filter intro: order_less_trans)

lemma postings_ok_del: "postings_ok ms \<Longrightarrow> postings_ok (del_posting u ms)"
  unfolding postings_ok_def by (auto simp: del_posting_def ssorted_map_filter)

lemma option_eqI: "(\<And>x. a = Some x \<longleftrightarrow> b = Some x) \<Longrightarrow> a = b"
  by (cases a; cases b) auto

lemma at_put:
  assumes "postings_ok ms" "Uid p \<noteq> 0"
  shows "at (put_posting p ms) = (at ms)(Uid p \<mapsto> p)"
proof (rule ext, rule option_eqI)
  fix u q
  have sorted: "ssorted (map Uid (put_posting p ms))" "ssorted (map Uid ms)"
    using postings_ok_put [OF assms] assms(1) by (simp_all add: postings_ok_def)
  show "at (put_posting p ms) u = Some q \<longleftrightarrow> ((at ms)(Uid p \<mapsto> p)) u = Some q"
    unfolding at_Some_iff [OF sorted(1)] fun_upd_apply
    using at_Some_iff [OF sorted(2), of u q] by (auto simp: set_put_posting)
qed

lemma at_del:
  assumes "postings_ok ms"
  shows "at (del_posting u ms) = (at ms)(u := None)"
proof (rule ext, rule option_eqI)
  fix v q
  have sorted: "ssorted (map Uid (del_posting u ms))" "ssorted (map Uid ms)"
    using postings_ok_del [OF assms] assms(1) by (simp_all add: postings_ok_def)
  show "at (del_posting u ms) v = Some q \<longleftrightarrow> ((at ms)(u := None)) v = Some q"
    unfolding at_Some_iff [OF sorted(1)] fun_upd_apply
    using at_Some_iff [OF sorted(2), of v q] by (auto simp: set_del_posting)
qed

text \<open>What the binary search finds.\<close>

lemma search_uid_cases:
  assumes "postings_ok ms"
  obtains (absent) ys zs where "ms = ys @ zs" "search_uid ms u = length ys" "at ms u = None"
      "\<forall>y \<in> set ys. Uid y < u" "\<forall>z \<in> set zs. u < Uid z"
  | (present) ys p zs where "ms = ys @ p # zs" "search_uid ms u = length ys" "at ms u = Some p"
      "Uid p = u" "\<forall>y \<in> set ys. Uid y < u" "\<forall>z \<in> set zs. u < Uid z"
proof -
  have sorted: "ssorted (map Uid ms)" using assms by (simp add: postings_ok_def)
  then have idx: "search_uid ms u = first_index (\<lambda>y. u \<le> Uid y) ms"
    unfolding search_uid_def by (intro sort_Search_sorted_ge ssorted_sorted)
  from sorted show thesis
  proof (cases rule: ssorted_key_split [where x = u])
    case (absent ys zs)
    moreover have "at ms u = None" using absent by (auto simp: at_None_iff)
    ultimately show thesis using that(1) idx by simp
  next
    case (present ys p zs)
    moreover have "at ms u = Some p" using present at_Some_iff [OF sorted] by simp
    ultimately show thesis using that(2) idx by simp
  qed
qed

lemma filter_split:
  assumes "\<forall>y \<in> set ys. f y < (u :: 'a::linorder)" "\<forall>z \<in> set zs. u < f z"
  shows "filter (\<lambda>q. f q < u) ys = ys" "filter (\<lambda>q. u < f q) ys = []"
    "filter (\<lambda>q. f q < u) zs = []" "filter (\<lambda>q. u < f q) zs = zs"
    "filter (\<lambda>q. f q \<noteq> u) ys = ys" "filter (\<lambda>q. f q \<noteq> u) zs = zs"
  using assms by (auto simp: filter_empty_conv filter_id_conv)

section \<open>Mutations refine sets and deletes on the view\<close>

lemma put_posting_split:
  "\<forall>y \<in> set ys. Uid y < Uid p \<Longrightarrow> \<forall>z \<in> set zs. Uid p < Uid z \<Longrightarrow>
     put_posting p (ys @ zs) = ys @ p # zs"
  "\<forall>y \<in> set ys. Uid y < Uid p \<Longrightarrow> \<forall>z \<in> set zs. Uid p < Uid z \<Longrightarrow> Uid q = Uid p \<Longrightarrow>
     put_posting p (ys @ q # zs) = ys @ p # zs"
  by (simp_all add: put_posting_def filter_split [where f = Uid])

lemma del_posting_split:
  "\<forall>y \<in> set ys. Uid y < u \<Longrightarrow> \<forall>z \<in> set zs. u < Uid z \<Longrightarrow> Uid q = u \<Longrightarrow>
     del_posting u (ys @ q # zs) = ys @ zs"
  by (simp add: del_posting_def filter_split [where f = Uid and u = u])

text \<open>The mutation as a function of the two layers, on sorted lists seen as maps.\<close>

definition layer_step :: "posting list \<Rightarrow> posting list \<Rightarrow> posting \<Rightarrow> bool \<times> posting list" where
  "layer_step ps ms mp =
     (case at ms (Uid mp) of
        Some old \<Rightarrow>
          if samePosting old mp \<and> ((Op mp = Del) = (Op old = Del)) then (False, ms)
          else if \<not> samePosting old mp \<and> Op mp = Del then (False, ms)
          else if Op old = Add then
            if Op mp = Del then (True, del_posting (Uid mp) ms)
            else (True, put_posting (mp\<lparr>Op := Add\<rparr>) ms)
          else (True, put_posting mp ms)
      | None \<Rightarrow>
          let psame = (case at ps (Uid mp) of None \<Rightarrow> False | Some p \<Rightarrow> samePosting p mp) in
          if (Op mp = Set) = psame then (False, ms)
          else (True, put_posting (if Op mp = Set \<and> at ps (Uid mp) = None
                                   then mp\<lparr>Op := Add\<rparr> else mp) ms))"

lemma getPostingList_pbuffer:
  "getPostingList st l = Inr (pl, l') \<Longrightarrow> l' = l\<lparr>pbuffer := Some pl\<rparr>"
  unfolding getPostingList_def
  by (auto simp: Let_def go_simps split: option.splits)

lemma getPostingList_loaded [simp]:
  "getPostingList st (l\<lparr>pbuffer := Some pl\<rparr>) = Inr (pl, l\<lparr>pbuffer := Some pl\<rparr>)"
  by (simp add: getPostingList_def)

lemma found_at:
  assumes "postings_ok ps"
  shows "search_uid ps u < length ps \<and> Uid (ps ! search_uid ps u) = u \<longleftrightarrow> at ps u \<noteq> None"
    and "at ps u = Some p \<Longrightarrow> search_uid ps u < length ps \<and> ps ! search_uid ps u = p \<and> Uid p = u"
  using assms
  by (cases rule: search_uid_cases [where u = u]; auto simp: nth_append)+

lemma updateMutationLayer_absent:
  assumes get: "getPostingList st l = Inr (pl, l0)" and ok: "layers_ok (Postings pl) (mlayer l)"
    and op: "Op mp = Set \<or> Op mp = Del" and absent: "at (mlayer l) (Uid mp) = None"
  shows "updateMutationLayer st l mp =
    Inr (fst (layer_step (Postings pl) (mlayer l) mp),
         l0\<lparr>mlayer := snd (layer_step (Postings pl) (mlayer l) mp)\<rparr>)"
proof -
  have oks: "postings_ok (Postings pl)" "postings_ok (mlayer l)" using ok by (auto simp: layers_ok_def)
  note l0 = getPostingList_pbuffer [OF get]
  define P where "P = Postings pl"
  define m where "m = search_uid (mlayer l) (Uid mp)"
  have no: "\<not> (m < length (mlayer l) \<and> Uid (mlayer l ! m) = Uid mp)"
    using found_at(1) [OF oks(2), of "Uid mp"] absent by (simp add: m_def)
  have "put_posting q (mlayer l) = take m (mlayer l) @ q # drop m (mlayer l)"
    if "Uid q = Uid mp" for q
    using oks(2)
  proof (cases rule: search_uid_cases [where u = "Uid mp"])
    case (absent ys zs)
    then show ?thesis using that by (simp add: put_posting_split m_def)
  qed (use absent in simp)
  note put = this [of mp] this [of "mp\<lparr>Op := Add\<rparr>"]
  show ?thesis
  proof (cases "at P (Uid mp)")
    case None
    then have "\<not> (search_uid P (Uid mp) < length P \<and> Uid mp = Uid (P ! search_uid P (Uid mp)))"
      using found_at(1) [OF oks(1), of "Uid mp"] by (auto simp: P_def)
    with None op absent no put show ?thesis
      by (auto simp: updateMutationLayer_def Let_def get layer_step_def l0 P_def [symmetric]
          m_def [symmetric])
  next
    case (Some p)
    then have "search_uid P (Uid mp) < length P" "P ! search_uid P (Uid mp) = p" "Uid p = Uid mp"
      using found_at(2) [OF oks(1), of "Uid mp"] by (auto simp: P_def)
    with Some op absent no put show ?thesis
      by (auto simp: updateMutationLayer_def Let_def get layer_step_def l0 P_def [symmetric]
          m_def [symmetric])
  qed
qed

lemma updateMutationLayer_present:
  assumes ok: "postings_ok (mlayer l)"
    and op: "Op mp = Set \<or> Op mp = Del" and present: "at (mlayer l) (Uid mp) = Some old"
  shows "updateMutationLayer st l mp =
    Inr (fst (layer_step ps (mlayer l) mp), l\<lparr>mlayer := snd (layer_step ps (mlayer l) mp)\<rparr>)"
  using ok
proof (cases rule: search_uid_cases [where u = "Uid mp"])
  case (present ys p zs)
  with assms(3) have p: "p = old" by simp
  have "put_posting q (mlayer l) = (mlayer l)[length ys := q]" if "Uid q = Uid mp" for q
    using present that by (simp add: put_posting_split)
  note put = this [of mp] this [of "mp\<lparr>Op := Add\<rparr>"]
  have del: "del_posting (Uid mp) (mlayer l)
      = take (length ys) (mlayer l) @ drop (Suc (length ys)) (mlayer l)"
    using present by (simp add: del_posting_split)
  have "length ys < length (mlayer l)" "mlayer l ! length ys = old" "Uid old = Uid mp"
    using present p by simp_all
  with op assms(3) put del present(2) show ?thesis
    by (auto simp: updateMutationLayer_def Let_def layer_step_def)
qed (use present in simp)

text \<open>The contract of a mutation: a set or a delete on the view, and whether it changed.\<close>

definition mutate_spec ::
  "u32 \<Rightarrow> u64 \<Rightarrow> content \<Rightarrow> (u64 \<Rightarrow> content option) \<Rightarrow> bool \<times> (u64 \<Rightarrow> content option)" where
  "mutate_spec op u c v =
     (if op = Set then (v u \<noteq> Some c, v(u \<mapsto> c))
      else (v u = Some c, if v u = Some c then v(u := None) else v))"

lemma view_put:
  assumes "postings_ok ms" "Uid p \<noteq> 0"
  shows "view ps (put_posting p ms)
    = (view ps ms)(Uid p := if Op p = Del then None else Some (content_of p))"
  by (rule ext) (simp add: view_def at_put [OF assms])

lemma view_del:
  assumes "postings_ok ms"
  shows "view ps (del_posting u ms) = (view ps ms)(u := map_option content_of (at ps u))"
  by (rule ext) (simp add: view_def at_del [OF assms])

lemma content_of_Op [simp]: "content_of (p\<lparr>Op := x\<rparr>) = content_of p"
  by (simp add: content_of_def)

lemma layers_ok_at:
  assumes "layers_ok ps ms" "at ms u = Some m"
  shows "Op m \<in> {Set, Del, Add}" "Op m = Add \<longleftrightarrow> at ps u = None" "Uid m = u"
  using assms at_SomeD [OF assms(2)] by (auto simp: layers_ok_def at_None_iff)

lemma layer_step_view:
  assumes ok: "layers_ok ps ms" and uid: "Uid mp \<noteq> 0" and op: "Op mp = Set \<or> Op mp = Del"
  shows "(fst (layer_step ps ms mp), view ps (snd (layer_step ps ms mp)))
    = mutate_spec (Op mp) (Uid mp) (content_of mp) (view ps ms)"
proof -
  have oks: "postings_ok ps" "postings_ok ms" using ok by (auto simp: layers_ok_def)
  note view_simps = view_put [OF oks(2)] view_del [OF oks(2)] at_put [OF oks(2)]
    at_del [OF oks(2)] uid
  show ?thesis
  proof (cases "at ms (Uid mp)")
    case None
    show ?thesis
    proof (cases "at ps (Uid mp)")
      case None
      with \<open>at ms (Uid mp) = None\<close> op show ?thesis
        by (auto simp: layer_step_def mutate_spec_def view_simps fun_eq_iff view_def)
    next
      case (Some p)
      with at_SomeD [OF Some] \<open>at ms (Uid mp) = None\<close> op show ?thesis
        by (auto simp: layer_step_def mutate_spec_def view_simps fun_eq_iff view_def samePosting_iff)
    qed
  next
    case (Some m)
    note m = layers_ok_at [OF ok Some]
    from Some m op show ?thesis
      by (auto simp: layer_step_def mutate_spec_def view_simps fun_eq_iff view_def samePosting_iff)
  qed
qed

lemma layers_ok_put:
  assumes "layers_ok ps ms" "Uid p \<noteq> 0" "Op p \<in> {Set, Del, Add}" "Op p = Add \<longleftrightarrow> at ps (Uid p) = None"
  shows "layers_ok ps (put_posting p ms)"
  using assms postings_ok_put [of ms p] by (auto simp: layers_ok_def set_put_posting at_None_iff)

lemma layers_ok_del: "layers_ok ps ms \<Longrightarrow> layers_ok ps (del_posting u ms)"
  using postings_ok_del [of ms u] by (auto simp: layers_ok_def set_del_posting)

lemma layer_step_ok:
  assumes ok: "layers_ok ps ms" and uid: "Uid mp \<noteq> 0" and op: "Op mp = Set \<or> Op mp = Del"
  shows "layers_ok ps (snd (layer_step ps ms mp))"
proof (cases "at ms (Uid mp)")
  case None
  with assms show ?thesis
    by (auto simp: layer_step_def Let_def intro!: layers_ok_put split: option.splits)
next
  case (Some m)
  with assms layers_ok_at [OF ok Some] show ?thesis
    by (auto simp: layer_step_def intro!: layers_ok_put layers_ok_del)
qed

lemma list_ok_getE:
  assumes "list_ok st l"
  obtains pl where "getPostingList st l = Inr (pl, l\<lparr>pbuffer := Some pl\<rparr>)"
    "layers_ok (Postings pl) (mlayer l)" "list_view st l = view (Postings pl) (mlayer l)"
proof -
  from assms obtain pl l' where get: "getPostingList st l = Inr (pl, l')"
    and ok: "layers_ok (Postings pl) (mlayer l)"
    by (auto simp: list_ok_def split: sum.splits)
  moreover have "list_view st l = view (Postings pl) (mlayer l)"
    using get by (simp add: list_view_def fun_eq_iff)
  ultimately show thesis using that getPostingList_pbuffer [OF get] by blast
qed

lemma list_ok_pbuffer:
  assumes "getPostingList st l = Inr (pl, l\<lparr>pbuffer := Some pl\<rparr>)"
  shows "getPostingList st (l\<lparr>mlayer := ms\<rparr>)
    = Inr (pl, l\<lparr>mlayer := ms, pbuffer := Some pl\<rparr>)"
  using assms by (auto simp: getPostingList_def Let_def go_simps split: option.splits)

lemma updateMutationLayer_refines:
  assumes "list_ok st l" "Uid mp \<noteq> 0" "Op mp = Set \<or> Op mp = Del"
  obtains ch l' where "updateMutationLayer st l mp = Inr (ch, l')" "list_ok st l'"
    "(ch, list_view st l') = mutate_spec (Op mp) (Uid mp) (content_of mp) (list_view st l)"
    "key l' = key l" "ghash l' = ghash l" "deleteMe l' = deleteMe l" "refcount l' = refcount l"
proof -
  from assms(1) obtain pl where get: "getPostingList st l = Inr (pl, l\<lparr>pbuffer := Some pl\<rparr>)"
    and ok: "layers_ok (Postings pl) (mlayer l)"
    and view: "list_view st l = view (Postings pl) (mlayer l)"
    by (rule list_ok_getE)
  let ?r = "layer_step (Postings pl) (mlayer l) mp"
  have "\<exists>l'. updateMutationLayer st l mp = Inr (fst ?r, l') \<and> mlayer l' = snd ?r
      \<and> (l' = l\<lparr>mlayer := snd ?r\<rparr> \<or> l' = l\<lparr>mlayer := snd ?r, pbuffer := Some pl\<rparr>)"
  proof (cases "at (mlayer l) (Uid mp)")
    case None
    then show ?thesis using updateMutationLayer_absent [OF get ok assms(3) None] by simp
  next
    case (Some old)
    then show ?thesis
      using updateMutationLayer_present [OF _ assms(3) Some, of st "Postings pl"] ok
      by (auto simp: layers_ok_def)
  qed
  then obtain l' where l': "updateMutationLayer st l mp = Inr (fst ?r, l')" "mlayer l' = snd ?r"
    "l' = l\<lparr>mlayer := snd ?r\<rparr> \<or> l' = l\<lparr>mlayer := snd ?r, pbuffer := Some pl\<rparr>" by blast
  have get': "\<exists>l''. getPostingList st l' = Inr (pl, l'')"
    using l'(3) list_ok_pbuffer [OF get, of "snd ?r"] by auto
  then have view_l': "list_view st l' = view (Postings pl) (snd ?r)"
    using l'(2) by (auto simp: list_view_def fun_eq_iff)
  show thesis
  proof (rule that [OF l'(1)])
    show "list_ok st l'" using get' layer_step_ok [OF ok assms(2,3)] l'(2) by (auto simp: list_ok_def)
    show "(fst ?r, list_view st l')
        = mutate_spec (Op mp) (Uid mp) (content_of mp) (list_view st l)"
      using view_l' layer_step_view [OF ok assms(2,3)] view by simp
  qed (use l'(3) in auto)
qed

definition edge_uid :: "edge \<Rightarrow> u64" where
  "edge_uid t = (if edge_bytes t \<noteq> [] then maxUint64 else ValueId t)"

lemma AddMutation_spec:
  assumes "list_ok st l" "\<not> deleteMe l" "op = Set \<or> op = Del" "edge_uid t \<noteq> 0"
  obtains ch l' where
    "AddMutation st now l t op = Inr (ch, l', if mlayer l' = [] then [] else [ghash l])"
    "list_ok st l'"
    "(ch, list_view st l')
      = mutate_spec op (edge_uid t) (ValueType t, edge_bytes t, ELabel t) (list_view st l)"
    "mlayer l' \<noteq> [] \<Longrightarrow> dirtyTs l' = now" "key l' = key l" "\<not> deleteMe l'"
proof -
  let ?mp = "\<lparr> Uid = edge_uid t, Value = edge_bytes t, ValType = ValueType t, Label = ELabel t,
    Commit = 0, Op = op \<rparr>"
  have "Uid ?mp \<noteq> 0" "Op ?mp = Set \<or> Op ?mp = Del" using assms by simp_all
  from assms(1) this obtain ch l' where run: "updateMutationLayer st l ?mp = Inr (ch, l')"
    and ok: "list_ok st l'"
    and "(ch, list_view st l') = mutate_spec (Op ?mp) (Uid ?mp) (content_of ?mp) (list_view st l)"
    and same: "key l' = key l" "ghash l' = ghash l" "deleteMe l' = deleteMe l"
    by (rule updateMutationLayer_refines)
  then have spec: "(ch, list_view st l')
      = mutate_spec op (edge_uid t) (ValueType t, edge_bytes t, ELabel t) (list_view st l)"
    by (simp add: content_of_def)
  let ?l = "if mlayer l' = [] then l' else l'\<lparr>dirtyTs := now\<rparr>"
  have "newPosting (if edge_bytes t \<noteq> [] then t\<lparr>ValueId := maxUint64\<rparr> else t) op = Inr ?mp"
    by (simp add: newPosting_def edge_uid_def edge_bytes_def)
  moreover have "ValueId (if edge_bytes t \<noteq> [] then t\<lparr>ValueId := maxUint64\<rparr> else t) = edge_uid t"
    by (simp add: edge_uid_def)
  ultimately have add: "AddMutation st now l t op
      = Inr (ch, ?l, if mlayer ?l = [] then [] else [ghash l])"
    using assms(2,4) run same(2) unfolding AddMutation_def Let_def by (simp split del: if_split) simp
  have get: "getPostingList st ?l = map_sum id (\<lambda>(pl, x). (pl, if mlayer l' = [] then x else x\<lparr>dirtyTs := now\<rparr>))
      (getPostingList st l')"
    by (auto simp: getPostingList_def Let_def go_bind_def split: option.splits sum.splits go_err.splits)
  show thesis
  proof (rule that [OF add])
    show "list_ok st ?l" using ok get by (auto simp: list_ok_def split: sum.splits if_splits)
    show "(ch, list_view st ?l)
      = mutate_spec op (edge_uid t) (ValueType t, edge_bytes t, ELabel t) (list_view st l)"
      unfolding spec [symmetric] using get by (auto simp: list_view_def fun_eq_iff split: sum.splits if_splits)
  qed (use same assms(2) in auto)
qed

section \<open>The live postings\<close>

definition live_set :: "posting list \<Rightarrow> posting list \<Rightarrow> posting set" where
  "live_set ps ms = {p \<in> set ps. Uid p \<notin> Uid ` set ms} \<union> {m \<in> set ms. Op m \<noteq> Del}"

lemma postings_ok_inj: "postings_ok ps \<Longrightarrow> inj_on Uid (set ps)"
  using ssorted_distinct [of "map Uid ps"] by (simp add: postings_ok_def distinct_map)

lemma live_set_inj:
  assumes "postings_ok ps" "postings_ok ms"
  shows "inj_on Uid (live_set ps ms)"
  unfolding live_set_def inj_on_Un
proof (intro conjI)
  show "inj_on Uid {p \<in> set ps. Uid p \<notin> Uid ` set ms}"
    by (rule inj_on_subset [OF postings_ok_inj [OF assms(1)]]) blast
  show "inj_on Uid {m \<in> set ms. Op m \<noteq> Del}"
    by (rule inj_on_subset [OF postings_ok_inj [OF assms(2)]]) blast
qed blast

lemma set_live: "set (live ps ms) = live_set ps ms"
  by (auto simp: live_def live_set_def)

lemma ssorted_live:
  assumes "postings_ok ps" "postings_ok ms"
  shows "ssorted (map Uid (live ps ms))"
proof -
  let ?a = "filter (\<lambda>p. Uid p \<notin> Uid ` set ms) ps" and ?b = "filter (\<lambda>m. Op m \<noteq> Del) ms"
  have "distinct (map Uid ?a)" "distinct (map Uid ?b)"
    using assms by (auto simp: postings_ok_def intro!: ssorted_distinct ssorted_map_filter)
  moreover have "set (map Uid ?a) \<inter> set (map Uid ?b) = {}" unfolding set_map set_filter by blast
  ultimately have "distinct (map Uid (?a @ ?b))" by (simp only: map_append distinct_append)
  moreover have "mset (map Uid (live ps ms)) = mset (map Uid (?a @ ?b))"
    unfolding live_def by (simp only: mset_map mset_sort)
  ultimately have "distinct (map Uid (live ps ms))" by (metis mset_eq_imp_distinct_iff)
  then show ?thesis by (simp add: live_def strict_sorted_iff)
qed

lemma live_unique:
  assumes "postings_ok ps" "postings_ok ms" "ssorted (map Uid xs)" "set xs = live_set ps ms"
  shows "live ps ms = xs"
proof (rule map_sorted_distinct_set_unique [of Uid])
  show "inj_on Uid (set (live ps ms) \<union> set xs)"
    using live_set_inj [OF assms(1,2)] assms(4) by (simp add: set_live)
qed (use assms ssorted_live [OF assms(1,2)] in \<open>auto simp: set_live strict_sorted_iff\<close>)

lemma postings_ok_ConsD: "postings_ok (p # ps) \<Longrightarrow> postings_ok ps"
  by (simp add: postings_ok_def)

lemma postings_ok_filter: "postings_ok ps \<Longrightarrow> postings_ok (filter P ps)"
  by (auto simp: postings_ok_def ssorted_map_filter)

lemma live_Nil: "postings_ok ps \<Longrightarrow> live ps [] = ps" "postings_ok ms \<Longrightarrow> live [] ms = filter (\<lambda>m. Op m \<noteq> Del) ms"
  by (rule live_unique; auto simp: postings_ok_def live_set_def ssorted_map_filter)+

lemma live_set_lower:
  "\<forall>p \<in> set ps. u < Uid p \<Longrightarrow> \<forall>m \<in> set ms. u < Uid m \<Longrightarrow> \<forall>q \<in> live_set ps ms. u < Uid q"
  by (auto simp: live_set_def)

lemma live_ConsI:
  assumes "postings_ok ps" "postings_ok ms" "postings_ok ps'" "postings_ok ms'"
    and "\<forall>p \<in> set ps. Uid x < Uid p" "\<forall>m \<in> set ms. Uid x < Uid m"
    and "live_set ps' ms' = insert x (live_set ps ms)"
  shows "live ps' ms' = x # live ps ms"
  using assms(3,4)
proof (rule live_unique)
  show "ssorted (map Uid (x # live ps ms))"
    using live_set_lower [OF assms(5,6)] ssorted_live [OF assms(1,2)] by (simp add: set_live)
  show "set (x # live ps ms) = live_set ps' ms'"
    using assms(7) by (simp add: set_live)
qed

lemma live_skipI:
  assumes "postings_ok ps" "postings_ok ms" "postings_ok ps'" "postings_ok ms'"
    and "live_set ps' ms' = live_set ps ms"
  shows "live ps' ms' = live ps ms"
  using assms(3,4) by (rule live_unique) (simp_all add: assms set_live ssorted_live)

lemma live_less:
  assumes "postings_ok (p # ps)" "postings_ok (m # ms)" "Uid p < Uid m"
  shows "live (p # ps) (m # ms) = p # live ps (m # ms)"
proof (rule live_ConsI)
  have lt: "\<forall>q \<in> set ps. Uid p < Uid q" "\<forall>q \<in> set ms. Uid m < Uid q"
    using assms by (auto simp: postings_ok_def)
  then have gt: "\<forall>q \<in> set (m # ms). Uid p < Uid q" using assms(3) by auto
  then have "Uid p \<notin> Uid ` set (m # ms)" by force
  then show "live_set (p # ps) (m # ms) = insert p (live_set ps (m # ms))"
    by (auto simp: live_set_def)
  show "\<forall>q \<in> set ps. Uid p < Uid q" "\<forall>q \<in> set (m # ms). Uid p < Uid q" using lt gt by auto
qed (use assms postings_ok_ConsD in blast)+

lemma live_greater:
  assumes "postings_ok (p # ps)" "postings_ok (m # ms)" "Uid m < Uid p"
  shows "live (p # ps) (m # ms) = (if Op m \<noteq> Del then m # live (p # ps) ms else live (p # ps) ms)"
proof -
  have ms: "postings_ok ms" using assms postings_ok_ConsD by blast
  have lt: "\<forall>q \<in> set ps. Uid p < Uid q" "\<forall>q \<in> set ms. Uid m < Uid q"
    using assms by (auto simp: postings_ok_def)
  then have gt: "\<forall>q \<in> set (p # ps). Uid m < Uid q" using assms(3) by auto
  then have "\<forall>q \<in> set (p # ps). Uid q \<noteq> Uid m" by auto
  then have eq: "live_set (p # ps) (m # ms)
      = (if Op m \<noteq> Del then insert m (live_set (p # ps) ms) else live_set (p # ps) ms)"
    by (auto simp: live_set_def)
  show ?thesis
    using live_ConsI [OF assms(1) ms assms(1,2) gt lt(2)] live_skipI [OF assms(1) ms assms(1,2)] eq
    by simp
qed

lemma live_equal:
  assumes "postings_ok (p # ps)" "postings_ok (m # ms)" "Uid p = Uid m"
  shows "live (p # ps) (m # ms) = (if Op m \<noteq> Del then m # live ps ms else live ps ms)"
proof -
  have ok: "postings_ok ps" "postings_ok ms" using assms postings_ok_ConsD by blast+
  have lt: "\<forall>q \<in> set ps. Uid m < Uid q" "\<forall>q \<in> set ms. Uid m < Uid q"
    using assms by (auto simp: postings_ok_def)
  then have "\<forall>q \<in> set ps. Uid q \<noteq> Uid m" by auto
  then have eq: "live_set (p # ps) (m # ms)
      = (if Op m \<noteq> Del then insert m (live_set ps ms) else live_set ps ms)"
    using assms(3) by (auto simp: live_set_def)
  show ?thesis
    using live_ConsI [OF ok assms(1,2) lt] live_skipI [OF ok assms(1,2)] eq by simp
qed

lemma live_filter:
  assumes "postings_ok ps" "postings_ok ms"
  shows "live (filter (\<lambda>p. P (Uid p)) ps) (filter (\<lambda>p. P (Uid p)) ms)
    = filter (\<lambda>p. P (Uid p)) (live ps ms)"
proof (rule live_unique)
  have "u \<in> Uid ` {m \<in> set ms. P (Uid m)} \<longleftrightarrow> u \<in> Uid ` set ms \<and> P u" for u by auto
  then show "set (filter (\<lambda>p. P (Uid p)) (live ps ms))
      = live_set (filter (\<lambda>p. P (Uid p)) ps) (filter (\<lambda>p. P (Uid p)) ms)"
    by (simp only: set_live set_filter live_set_def) auto
qed (use assms in \<open>simp_all add: postings_ok_filter ssorted_map_filter ssorted_live\<close>)

section \<open>Iteration visits the live postings\<close>

text \<open>Calling back on the elements of a list until told to stop.\<close>

fun iter_list :: "('a \<Rightarrow> 's \<Rightarrow> (bool \<times> 's) go) \<Rightarrow> 'a list \<Rightarrow> 's \<Rightarrow> 's go" where
  "iter_list f [] s = Inr s"
| "iter_list f (x # xs) s =
     (case f x s of
        Inl e \<Rightarrow> Inl e
      | Inr (cont, s') \<Rightarrow> if cont then iter_list f xs s' else Inr s')"

lemma Uid_empty [simp]: "Uid empty_posting = 0"
  by (simp add: empty_posting_def)

lemma head_posting_simps [simp]: "head_posting [] = empty_posting" "head_posting (p # ps) = p"
  by (simp_all add: head_posting_def)

lemma postings_ok_Uid: "postings_ok (p # ps) \<Longrightarrow> 0 < Uid p"
  by (simp add: postings_ok_def word_gt_0)

lemma iterate_loop_Nil2:
  "postings_ok ps \<Longrightarrow> iterate_loop f ps [] s = iter_list f ps s"
proof (induction ps arbitrary: s)
  case Nil
  show ?case by (simp add: iterate_loop.simps)
next
  case (Cons p ps)
  have "0 < Uid p" by (rule postings_ok_Uid [OF Cons.prems])
  moreover note IH = Cons.IH [OF postings_ok_ConsD [OF Cons.prems]]
  ultimately show ?case
    by (subst iterate_loop.simps) (simp add: IH word_gt_0 Let_def split: sum.splits prod.splits)
qed

lemma iterate_loop_Nil1:
  "postings_ok ms \<Longrightarrow> iterate_loop f [] ms s = iter_list f (filter (\<lambda>m. Op m \<noteq> Del) ms) s"
proof (induction ms arbitrary: s)
  case Nil
  show ?case by (simp add: iterate_loop.simps)
next
  case (Cons m ms)
  have "0 < Uid m" by (rule postings_ok_Uid [OF Cons.prems])
  moreover note IH = Cons.IH [OF postings_ok_ConsD [OF Cons.prems]]
  ultimately show ?case
    by (subst iterate_loop.simps) (simp add: IH word_gt_0 Let_def split: sum.splits prod.splits)
qed

lemma iterate_loop_live:
  "postings_ok ps \<Longrightarrow> postings_ok ms \<Longrightarrow> iterate_loop f ps ms s = iter_list f (live ps ms) s"
proof (induction "length ps + length ms" arbitrary: ps ms s rule: less_induct)
  case less
  show ?case
  proof (cases ps)
    case Nil
    with less.prems show ?thesis by (simp add: iterate_loop_Nil1 live_Nil)
  next
    case ps: (Cons p ps')
    show ?thesis
    proof (cases ms)
      case Nil
      with less.prems show ?thesis by (simp add: iterate_loop_Nil2 live_Nil)
    next
      case ms: (Cons m ms')
      have ok: "postings_ok (p # ps')" "postings_ok (m # ms')" using less.prems ps ms by auto
      note tl = postings_ok_ConsD [OF ok(1)] postings_ok_ConsD [OF ok(2)]
      have pos: "0 < Uid p" "0 < Uid m" using ok postings_ok_Uid by auto
      have IH: "iterate_loop f qs ns t = iter_list f (live qs ns) t"
        if "length qs + length ns < length ps + length ms" "postings_ok qs" "postings_ok ns" for qs ns t
        using less.hyps that by blast
      have IH1: "iterate_loop f ps' (m # ms') t = iter_list f (live ps' (m # ms')) t"
        and IH2: "iterate_loop f (p # ps') ms' t = iter_list f (live (p # ps') ms') t"
        and IH3: "iterate_loop f ps' ms' t = iter_list f (live ps' ms') t" for t
        using IH ok tl by (simp_all add: ps ms)
      consider "Uid p < Uid m" | "Uid m < Uid p" | "Uid p = Uid m" by fastforce
      then show ?thesis unfolding ps ms
      proof cases
        case 1
        with pos show "iterate_loop f (p # ps') (m # ms') s = iter_list f (live (p # ps') (m # ms')) s"
          by (subst iterate_loop.simps) (simp add: live_less [OF ok] IH1 word_gt_0 Let_def split: sum.splits prod.splits)
      next
        case 2
        with pos show "iterate_loop f (p # ps') (m # ms') s = iter_list f (live (p # ps') (m # ms')) s"
          by (subst iterate_loop.simps)
            (simp add: live_greater [OF ok] IH2 word_gt_0 Let_def order_less_not_sym
              split: sum.splits prod.splits)
      next
        case 3
        with pos show "iterate_loop f (p # ps') (m # ms') s = iter_list f (live (p # ps') (m # ms')) s"
          by (subst iterate_loop.simps) (simp add: live_equal [OF ok] IH3 word_gt_0 Let_def split: sum.splits prod.splits)
      qed
    qed
  qed
qed

lemma drop_search_after:
  assumes "postings_ok ps"
  shows "drop (search_after ps u) ps = filter (\<lambda>p. u < Uid p) ps"
proof (cases "0 < u")
  case True
  have sorted: "sorted (map Uid ps)" using assms by (simp add: postings_ok_def ssorted_sorted)
  have "search_after ps u = first_index (\<lambda>p. u < Uid p) ps"
    using True by (simp add: search_after_def sort_Search_sorted_gt [OF sorted])
  then show ?thesis by (simp add: first_index_drop sorted_dropWhile_filter [OF sorted])
next
  case False
  then have "u = 0" by (simp add: word_gt_0)
  then show ?thesis using assms
    by (simp add: search_after_def postings_ok_def filter_id_conv word_gt_0)
qed

lemma iterate_live:
  assumes "getPostingList st l = Inr (pl, l')" "layers_ok (Postings pl) (mlayer l)"
  shows "iterate st l u f s = go_bind
    (iter_list f (filter (\<lambda>p. u < Uid p) (live (Postings pl) (mlayer l))) s) (\<lambda>s'. Inr (s', l'))"
proof -
  have ok: "postings_ok (Postings pl)" "postings_ok (mlayer l)" using assms(2) by (auto simp: layers_ok_def)
  show ?thesis
    by (simp add: iterate_def assms(1) drop_search_after ok iterate_loop_live postings_ok_filter live_filter)
qed

lemma layers_ok_filter:
  assumes "layers_ok ps ms"
  shows "layers_ok (filter (\<lambda>p. P (Uid p)) ps) (filter (\<lambda>p. P (Uid p)) ms)"
  using assms by (auto simp: layers_ok_def postings_ok_filter)

lemma image_filter_inter: "f ` {x \<in> A. f x \<in> B} = f ` A \<inter> B"
  by auto

lemma shared_uids:
  assumes "layers_ok ps ms"
  shows "length (filter (\<lambda>p. Uid p \<in> Uid ` set ms) ps) = length (filter (\<lambda>m. Op m \<noteq> Add) ms)"
proof -
  let ?a = "map Uid (filter (\<lambda>p. Uid p \<in> Uid ` set ms) ps)"
  let ?b = "map Uid (filter (\<lambda>m. Op m \<noteq> Add) ms)"
  have "distinct ?a" "distinct ?b"
    using assms by (auto simp: layers_ok_def postings_ok_def intro!: ssorted_distinct ssorted_map_filter)
  moreover have "filter (\<lambda>m. Op m \<noteq> Add) ms = filter (\<lambda>m. Uid m \<in> Uid ` set ps) ms"
    by (rule filter_cong) (use assms in \<open>auto simp: layers_ok_def\<close>)
  then have "set ?b = Uid ` set ms \<inter> Uid ` set ps" "set ?a = Uid ` set ps \<inter> Uid ` set ms"
    by (simp_all only: set_map set_filter image_filter_inter)
  then have "set ?a = set ?b" by (simp only: Int_commute)
  ultimately have "length ?a = length ?b" by (metis distinct_card)
  then show ?thesis by simp
qed

lemma length_live:
  assumes "layers_ok ps ms"
  shows "int (length (live ps ms)) = int (length ps) + int (length (filter (\<lambda>m. Op m = Add) ms))
    - int (length (filter (\<lambda>m. Op m = Del) ms))"
proof -
  have "length (live ps ms) = length (filter (\<lambda>p. Uid p \<notin> Uid ` set ms) ps)
      + length (filter (\<lambda>m. Op m \<noteq> Del) ms)"
    by (simp add: live_def)
  moreover have "length (filter (\<lambda>p. Uid p \<in> Uid ` set ms) ps)
      + length (filter (\<lambda>p. Uid p \<notin> Uid ` set ms) ps) = length ps"
    by (rule sum_length_filter_compl)
  moreover have "length (filter (\<lambda>m. Op m = Add) ms) + length (filter (\<lambda>m. Op m \<noteq> Add) ms) = length ms"
    "length (filter (\<lambda>m. Op m = Del) ms) + length (filter (\<lambda>m. Op m \<noteq> Del) ms) = length ms"
    by (rule sum_length_filter_compl)+
  ultimately show ?thesis using shared_uids [OF assms] by linarith
qed

lemma fold_count:
  "fold (\<lambda>p c. if Op p = Add then c + 1 else if Op p = Del then c - 1 else c) ms c
   = c + int (length (filter (\<lambda>m. Op m = Add) ms)) - int (length (filter (\<lambda>m. Op m = Del) ms))"
  by (induction ms arbitrary: c) auto

lemma search_after_le:
  assumes "postings_ok ps"
  shows "int (length ps) - int (search_after ps u) = int (length (filter (\<lambda>p. u < Uid p) ps))"
proof -
  have "search_after ps u \<le> length ps"
  proof (cases "0 < u")
    case True
    have sorted: "sorted (map Uid ps)" using assms by (simp add: postings_ok_def ssorted_sorted)
    show ?thesis using True by (simp add: search_after_def sort_Search_sorted_gt [OF sorted])
  qed (simp add: search_after_def)
  then show ?thesis using arg_cong [OF drop_search_after [OF assms, of u], of length] by simp
qed

lemma List_Length_live:
  assumes "getPostingList st l = Inr (pl, l')" "layers_ok (Postings pl) (mlayer l)"
  shows "List_Length st l u
    = Inr (int (length (filter (\<lambda>p. u < Uid p) (live (Postings pl) (mlayer l)))), l')"
proof -
  have ok: "postings_ok (Postings pl)" "postings_ok (mlayer l)" using assms(2) by (auto simp: layers_ok_def)
  show ?thesis
    using length_live [OF layers_ok_filter [OF assms(2), of "\<lambda>x. u < x"]]
    by (simp add: List_Length_def assms(1) fold_count drop_search_after ok search_after_le live_filter)
qed

text \<open>The live postings are the domain of the view, with its contents.\<close>

lemma at_live:
  assumes "layers_ok ps ms"
  shows "map_option content_of (at (live ps ms) u) = view ps ms u"
proof -
  have ok: "postings_ok ps" "postings_ok ms" using assms by (auto simp: layers_ok_def)
  then have sorted: "ssorted (map Uid ps)" "ssorted (map Uid ms)" by (auto simp: postings_ok_def)
  have iff: "at (live ps ms) u = Some q \<longleftrightarrow> q \<in> live_set ps ms \<and> Uid q = u" for q
    by (simp add: at_Some_iff [OF ssorted_live [OF ok]] set_live)
  show ?thesis
  proof (cases "at ms u")
    case None
    then have no: "u \<notin> Uid ` set ms" by (simp add: at_None_iff)
    have "at (live ps ms) u = at ps u"
    proof (rule option_eqI)
      fix q
      show "at (live ps ms) u = Some q \<longleftrightarrow> at ps u = Some q"
        unfolding iff at_Some_iff [OF sorted(1)] live_set_def using no by auto
    qed
    with None show ?thesis by (simp add: view_def)
  next
    case (Some m)
    then have m: "m \<in> set ms" "Uid m = u" using at_SomeD by blast+
    have "at (live ps ms) u = (if Op m = Del then None else Some m)"
    proof (rule option_eqI)
      fix q
      have "q \<in> set ms \<Longrightarrow> Uid q = u \<Longrightarrow> q = m"
        using at_Some_iff [OF sorted(2), of u q] Some by simp
      then show "at (live ps ms) u = Some q \<longleftrightarrow> (if Op m = Del then None else Some m) = Some q"
        unfolding iff live_set_def using m by auto
    qed
    with Some show ?thesis by (simp add: view_def)
  qed
qed

lemma live_uids:
  assumes "layers_ok ps ms"
  shows "Uid ` set (live ps ms) = dom (view ps ms)"
proof (rule set_eqI)
  fix u
  have "u \<in> dom (view ps ms) \<longleftrightarrow> at (live ps ms) u \<noteq> None"
    unfolding domIff at_live [OF assms, symmetric] by simp
  also have "\<dots> \<longleftrightarrow> u \<in> Uid ` set (live ps ms)" by (simp only: at_None_iff not_not)
  finally show "u \<in> Uid ` set (live ps ms) \<longleftrightarrow> u \<in> dom (view ps ms)" by (simp only:)
qed

section \<open>Uids and values\<close>

lemma List_Size_gt: "us \<noteq> [] \<Longrightarrow> length us < List_Size us"
  by (simp add: List_Size_def)

lemma List_Size_Nil [simp]: "List_Size [] = 0"
  by (simp add: List_Size_def)

lemma iter_uids_None:
  "ssorted (map Uid xs) \<Longrightarrow>
   iter_list (uids_step None) xs (i, res) = Inr (i, res @ map Uid (filter (\<lambda>p. Uid p < maxUint64) xs))"
proof (induction xs arbitrary: res)
  case (Cons p xs)
  show ?case
  proof (cases "Uid p = maxUint64")
    case True
    then have "\<forall>q \<in> set xs. \<not> Uid q < maxUint64" using Cons.prems by (auto dest: order_less_asym)
    then have "filter (\<lambda>q. Uid q < maxUint64) xs = []" by (simp add: filter_empty_conv)
    with True show ?thesis by (simp add: uids_step_def)
  next
    case False
    then have "Uid p < maxUint64" by (simp add: maxUint64_def word_order.not_eq_extremum)
    with False Cons show ?thesis by (simp add: uids_step_def)
  qed
qed simp

text \<open>
  With an intersection, the callback indexes past the end of the list when it has passed all
  its uids: the guard compares the index with the encoded size.
\<close>

definition beyond :: "u64 list \<Rightarrow> posting \<Rightarrow> bool" where
  "beyond us p \<longleftrightarrow> us \<noteq> [] \<and> Uid p < maxUint64 \<and> (\<forall>u \<in> set us. u < Uid p)"

lemma uids_step_Some:
  assumes "sorted us" "i \<le> length us" "\<forall>k<i. us ! k < Uid p" "Uid p \<noteq> maxUint64"
  defines "idx \<equiv> advance us (Uid p) i"
  shows "uids_step (Some us) p (i, res) =
    (if beyond us p then Inl (Panic ''index out of range'')
     else Inr (True, idx, if Uid p \<in> set us then res @ [Uid p] else res))"
    and "idx \<le> length us" "\<forall>k<idx. us ! k < Uid p"
proof -
  note sp = advance_spec [OF assms(2,3), folded idx_def]
  note mem = advance_member [OF assms(1-3), folded idx_def]
  have max: "Uid p < maxUint64" using assms(4) by (simp add: maxUint64_def word_order.not_eq_extremum)
  have b: "beyond us p \<longleftrightarrow> us \<noteq> [] \<and> length us \<le> idx"
  proof
    assume b: "beyond us p"
    have "\<not> idx < length us"
    proof
      assume "idx < length us"
      then have "us ! idx < Uid p" "Uid p \<le> us ! idx" using b sp by (auto simp: beyond_def)
      then show False by simp
    qed
    with b show "us \<noteq> [] \<and> length us \<le> idx" by (simp add: beyond_def)
  next
    assume a: "us \<noteq> [] \<and> length us \<le> idx"
    then have "\<forall>u \<in> set us. u < Uid p" using sp by (auto simp: in_set_conv_nth)
    with a max show "beyond us p" by (simp add: beyond_def)
  qed
  show "uids_step (Some us) p (i, res) =
    (if beyond us p then Inl (Panic ''index out of range'')
     else Inr (True, idx, if Uid p \<in> set us then res @ [Uid p] else res))"
  proof (cases "us = []")
    case True
    then show ?thesis using assms(4) sp by (simp add: uids_step_def idx_def b beyond_def)
  next
    case False
    then have size: "\<not> List_Size us \<le> idx" using List_Size_gt [OF False] sp by linarith
    show ?thesis
      using assms(4) False size sp mem
      by (auto simp: uids_step_def idx_def [symmetric] b Let_def)
  qed
qed (use advance_spec [OF assms(2,3), folded idx_def] in auto)

lemma iter_uids_Some:
  assumes "sorted us" "ssorted (map Uid xs)" "i \<le> length us" "\<forall>p \<in> set xs. \<forall>k<i. us ! k < Uid p"
  shows "map_sum id snd (iter_list (uids_step (Some us)) xs (i, res)) =
    (if \<exists>p \<in> set xs. beyond us p then Inl (Panic ''index out of range'')
     else Inr (res @ map Uid (filter (\<lambda>p. Uid p < maxUint64 \<and> Uid p \<in> set us) xs)))"
  using assms(2-)
proof (induction xs arbitrary: i res)
  case (Cons p xs)
  show ?case
  proof (cases "Uid p = maxUint64")
    case True
    then have "\<forall>q \<in> set (p # xs). \<not> Uid q < maxUint64" using Cons.prems by (auto dest: order_less_asym)
    then have "filter (\<lambda>q. Uid q < maxUint64 \<and> Uid q \<in> set us) (p # xs) = []" "\<forall>q \<in> set (p # xs). \<not> beyond us q"
      by (auto simp: filter_empty_conv beyond_def)
    with True show ?thesis by (simp add: uids_step_def)
  next
    case False
    have pre: "\<forall>k<i. us ! k < Uid p" using Cons.prems by simp
    note step = uids_step_Some [OF assms(1) Cons.prems(2) pre False]
    let ?idx = "advance us (Uid p) i"
    have lt: "Uid p < maxUint64" using False by (simp add: maxUint64_def word_order.not_eq_extremum)
    have "\<forall>q \<in> set xs. \<forall>k<?idx. us ! k < Uid q"
      using step(3) Cons.prems(1) by (auto intro: order_less_trans)
    note IH = Cons.IH [OF _ step(2) this]
    show ?thesis using step(1) IH Cons.prems(1) lt by (auto simp: step(1))
  qed
qed simp

lemma above_max_pred:
  assumes "maxUint64 - 1 < w"
  shows "w = maxUint64"
proof -
  have "uint maxUint64 = 2 ^ 64 - 1" "uint (maxUint64 - 1) = 2 ^ 64 - 2"
    by (simp_all add: maxUint64_def unsigned_minus_1_eq_mask mask_eq_exp_minus_1)
  with assms uint_less_64 [of w] show ?thesis by (simp add: word_less_def word_uint_eq_iff)
qed

lemma iter_value:
  assumes "ssorted (map Uid xs)" "\<forall>p \<in> set xs. maxUint64 - 1 < Uid p"
  shows "iter_list value_step xs None
    = Inr (map_option (\<lambda>p. (Value p, ucast (ValType p))) (at xs maxUint64))"
proof (cases xs)
  case (Cons p ps)
  have "Uid p = maxUint64" using assms(2) Cons by (intro above_max_pred) simp
  then show ?thesis by (simp add: Cons value_step_def)
qed simp

section \<open>Commit keeps the view\<close>

lemma commit_step_simp: "commit_step p (cnt, h, final) = Inr (True, Suc cnt,
    h @ binary_PutVarint (int cnt) @ binary_PutUvarint (Uid p) @ Value p @ Label p, final @ [p])"
  by (simp add: commit_step_def)

lemma iter_commit: "\<exists>h'. iter_list commit_step xs (n, h, fin) = Inr (n + length xs, h', fin @ xs)"
proof (induction xs arbitrary: n h fin)
  case (Cons p xs)
  obtain h' where "iter_list commit_step xs (Suc n, h @ binary_PutVarint (int n)
      @ binary_PutUvarint (Uid p) @ Value p @ Label p, fin @ [p])
    = Inr (Suc n + length xs, h', (fin @ [p]) @ xs)"
    using Cons.IH by blast
  then show ?case by (simp add: commit_step_simp)
qed simp

lemma PostingList_Size_cong:
  "length c = length c' \<Longrightarrow> PostingList_Size \<lparr> Postings = ps, Checksum = c, PL_Commit = n \<rparr>
    = PostingList_Size \<lparr> Postings = ps, Checksum = c', PL_Commit = n \<rparr>"
  by (simp add: PostingList_Size_def)

lemma MarshalTo_empty: "PostingList_MarshalTo pl = [] \<Longrightarrow> Postings pl = []"
  by (simp add: PostingList_MarshalTo_def)

lemma store_Get_SetOne:
  assumes "kv_invar (entries st)" "store_SetOne st k v = Inr st'"
  shows "store_Get st' k' = (if k' = k \<and> k \<notin> set (unreadable st) then Inr v else store_Get st k')"
    and "kv_invar (entries st')" "unreadable st' = unreadable st" "readOnly st' = readOnly st"
  using assms
  by (auto simp: store_SetOne_def store_Get_def kv.lookup_put kv.invar_put split: if_splits)

text \<open>The bytes of the checksum do not matter for what fits: MD5 has sixteen of them.\<close>

definition commit_fits :: "posting list \<Rightarrow> bool" where
  "commit_fits ps \<longleftrightarrow>
     PostingList_Size \<lparr> Postings = ps, Checksum = replicate 16 (CHR 0x00), PL_Commit = 0 \<rparr> < 2 ^ 63"

lemma live_of_live:
  assumes "postings_ok ps" "postings_ok ms"
  shows "postings_ok (live ps ms)" "layers_ok (live ps ms) []"
  using assms ssorted_live [OF assms] by (auto simp: postings_ok_def layers_ok_def set_live live_set_def)

lemma commit_run:
  assumes ok: "list_ok st l" "kv_invar (entries st)" and w: "\<not> readOnly st" "key l \<notin> set (unreadable st)"
    and md5: "\<And>x. length (md5 x) = 16"
    and get: "getPostingList st l = Inr (pl, l1)" and fits: "commit_fits (live (Postings pl) (mlayer l))"
    and dirty: "mlayer l \<noteq> []"
  obtains st' h where "commit md5 now st l = Inr (True, st', l1\<lparr>pbuffer := None, dirtyTs := 0, mlayer := [], lastCompact := now\<rparr>)"
    "store_SetOne st (key l) (PostingList_MarshalTo
        \<lparr> Postings = live (Postings pl) (mlayer l), Checksum = md5 h, PL_Commit = 0 \<rparr>) = Inr st'"
proof -
  have lok: "layers_ok (Postings pl) (mlayer l)" using ok(1) get by (simp add: list_ok_def)
  have pos: "filter (\<lambda>p. 0 < Uid p) (live (Postings pl) (mlayer l)) = live (Postings pl) (mlayer l)"
    using lok live_of_live(1) [of "Postings pl" "mlayer l"]
    by (auto simp: layers_ok_def postings_ok_def filter_id_conv word_gt_0)
  obtain h where h: "iter_list commit_step (live (Postings pl) (mlayer l)) (0, [], [])
      = Inr (length (live (Postings pl) (mlayer l)), h, live (Postings pl) (mlayer l))"
    using iter_commit [of "live (Postings pl) (mlayer l)" 0 "[]" "[]"] by auto
  let ?data = "PostingList_MarshalTo
        \<lparr> Postings = live (Postings pl) (mlayer l), Checksum = md5 h, PL_Commit = 0 \<rparr>"
  let ?st = "st\<lparr>entries := kv_put (entries st) (key l) ?data\<rparr>"
  have set: "store_SetOne st (key l) ?data = Inr ?st" using w(1) by (simp add: store_SetOne_def)
  show thesis
    using dirty by (intro that [OF _ set])
      (simp add: commit_def iterate_live [OF get lok] pos h PostingList_Marshal_eq set)
qed

lemma getPostingList_stored:
  assumes "pbuffer l = None" "store_Get st (key l) = Inr (PostingList_MarshalTo pl)"
    "PostingList_Size pl < 2 ^ 63"
  obtains pl' where "getPostingList st l = Inr (pl', l\<lparr>pbuffer := Some pl'\<rparr>)" "Postings pl' = Postings pl"
proof (cases "PostingList_MarshalTo pl = []")
  case True
  then show thesis
    using assms MarshalTo_empty [OF True] that [of empty_posting_list]
    by (simp add: getPostingList_def empty_posting_list_def)
next
  case False
  then show thesis
    using assms PostingList_Unmarshal_MarshalTo [OF assms(3)] that [of pl]
    by (simp add: getPostingList_def)
qed

lemma commit_spec:
  assumes ok: "list_ok st l" "kv_invar (entries st)" and w: "\<not> readOnly st" "key l \<notin> set (unreadable st)"
    and md5: "\<And>x. length (md5 x) = 16"
    and get: "getPostingList st l = Inr (pl, l1)" and fits: "commit_fits (live (Postings pl) (mlayer l))"
    and dirty: "mlayer l \<noteq> []"
  obtains st' l' where "commit md5 now st l = Inr (True, st', l')" "list_ok st' l'"
    "list_view st' l' = list_view st l" "mlayer l' = []" "dirtyTs l' = 0" "kv_invar (entries st')"
    "key l' = key l" "\<forall>k. k \<noteq> key l \<longrightarrow> store_Get st' k = store_Get st k"
proof -
  have lok: "layers_ok (Postings pl) (mlayer l)" using ok(1) get by (simp add: list_ok_def)
  let ?live = "live (Postings pl) (mlayer l)"
  let ?l = "l1\<lparr>pbuffer := None, dirtyTs := 0, mlayer := [], lastCompact := now\<rparr>"
  from assms obtain st' h where run: "commit md5 now st l = Inr (True, st', ?l)"
    and set: "store_SetOne st (key l) (PostingList_MarshalTo
        \<lparr> Postings = ?live, Checksum = md5 h, PL_Commit = 0 \<rparr>) = Inr st'"
    by (rule commit_run)
  note st' = store_Get_SetOne [OF ok(2) set]
  have key: "key ?l = key l" using getPostingList_pbuffer [OF get] by simp
  have size: "PostingList_Size \<lparr> Postings = ?live, Checksum = md5 h, PL_Commit = 0 \<rparr> < 2 ^ 63"
    using fits PostingList_Size_cong [of "md5 h" "replicate 16 (CHR 0x00)"] md5
    by (simp add: commit_fits_def)
  have stored: "store_Get st' (key ?l) = Inr (PostingList_MarshalTo
        \<lparr> Postings = ?live, Checksum = md5 h, PL_Commit = 0 \<rparr>)"
    using st'(1) [of "key l"] w(2) unfolding key by simp
  have "pbuffer ?l = None" by simp
  from this stored size obtain pl'
    where get': "getPostingList st' ?l = Inr (pl', ?l\<lparr>pbuffer := Some pl'\<rparr>)"
      and "Postings pl' = Postings \<lparr> Postings = ?live, Checksum = md5 h, PL_Commit = 0 \<rparr>"
    by (rule getPostingList_stored)
  then have pl': "Postings pl' = ?live" by simp
  have lok': "layers_ok ?live []"
    by (rule live_of_live(2)) (use lok in \<open>simp_all add: layers_ok_def\<close>)
  show thesis
  proof (rule that [OF run])
    show "list_ok st' ?l" using get' pl' lok' by (simp add: list_ok_def)
    have "list_view st' ?l u = view ?live [] u" for u using get' pl' by (simp add: list_view_def)
    moreover have "view ?live [] u = view (Postings pl) (mlayer l) u" for u
      using at_live [OF lok, of u] by (simp add: view_def)
    ultimately show "list_view st' ?l = list_view st l"
      using get by (simp add: list_view_def fun_eq_iff)
  qed (use st' key in simp_all)
qed

section \<open>Keys and readers\<close>

lemma list_view_cong:
  assumes "pbuffer l' = pbuffer l" "key l' = key l" "mlayer l' = mlayer l"
  shows "list_view st l' = list_view st l"
  using assms
  by (auto simp: list_view_def getPostingList_def Let_def fun_eq_iff go_bind_def
      split: option.splits sum.splits go_err.splits)

lemma fold_write:
  "k + length s \<le> length buf \<Longrightarrow>
   fold (\<lambda>(i, ch) buf. buf[i := char_of ch]) (zip [k ..< k + length s] (map of_char s :: int list)) buf
   = take k buf @ s @ drop (k + length s) buf"
proof (induction s arbitrary: k buf)
  case (Cons c s)
  have "zip [k ..< k + length (c # s)] (map of_char (c # s) :: int list)
      = (k, of_char c) # zip [Suc k ..< Suc k + length s] (map of_char s)"
    by (simp add: upt_conv_Cons del: upt_Suc)
  then show ?case using Cons.prems Cons.IH [of "Suc k" "buf[k := c]"]
    by (simp add: take_Suc_conv_app_nth del: upt_Suc list.map length_Cons)
qed simp

lemma Key_ascii:
  assumes "ascii attr"
  shows "Key uid attr = attr @ CHR ''|'' # BigEndian_PutUint64 uid"
  using fold_write [of 0 attr "replicate (length attr + 9) (CHR 0x00)"]
  by (simp add: Key_def range_string_def range_from_ascii [OF assms])

lemma SplitKey_Key:
  assumes "ascii attr" "CHR ''|'' \<notin> set attr"
  shows "SplitKey (Key uid attr) =
    (if CHR ''|'' \<in> set (BigEndian_PutUint64 uid) then Inl (Fatal ''Assert failed'')
     else Inr (attr, uid))"
proof -
  have get: "BigEndian_Uint64 (BigEndian_PutUint64 uid) = Inr uid"
    using BigEndian_Uint64_Put [of uid "[]"] by simp
  show ?thesis
    using assms
    by (auto simp: SplitKey_def Key_ascii bytes_Split_append bytes_Split_absent bytes_Split_length
        Let_def get count_list_0_iff)
qed

lemma Key_inj:
  assumes "ascii a" "ascii b"
  shows "Key u a = Key v b \<longleftrightarrow> a = b \<and> u = v"
  by (auto simp: Key_ascii [OF assms(1)] Key_ascii [OF assms(2)] BigEndian_PutUint64_inj)

text \<open>The uids of the live postings that satisfy a predicate, from the view.\<close>

lemma live_uids_filter:
  assumes "layers_ok ps ms"
  shows "map Uid (filter (\<lambda>p. P (Uid p)) (live ps ms))
    = sorted_list_of_set {q. P q \<and> view ps ms q \<noteq> None}"
proof -
  let ?xs = "map Uid (filter (\<lambda>p. P (Uid p)) (live ps ms))"
  have "ssorted ?xs"
    using assms by (intro ssorted_map_filter ssorted_live) (auto simp: layers_ok_def)
  moreover have "set ?xs = {q. P q \<and> view ps ms q \<noteq> None}"
  proof -
    have "set ?xs = {q \<in> Uid ` set (live ps ms). P q}" by auto
    also have "\<dots> = {q \<in> dom (view ps ms). P q}" by (simp only: live_uids [OF assms])
    finally show ?thesis by (auto simp: domIff)
  qed
  ultimately show ?thesis
    using sorted_list_of_set.idem_if_sorted_distinct [of ?xs]
    by (simp add: ssorted_sorted ssorted_distinct)
qed

lemma live_uids_finite: "layers_ok ps ms \<Longrightarrow> finite {q. P q \<and> view ps ms q \<noteq> None}"
proof -
  assume "layers_ok ps ms"
  then have "finite (dom (view ps ms))" by (simp flip: live_uids)
  then show ?thesis by (rule rev_finite_subset) auto
qed

lemma Uids_None_spec:
  assumes "getPostingList st l = Inr (pl, l')" "layers_ok (Postings pl) (mlayer l)"
  shows "Uids st l \<lparr> AfterUID = u, Intersect = None \<rparr> = Inr (sorted_list_of_set
    {q. (u < q \<and> q < maxUint64) \<and> view (Postings pl) (mlayer l) q \<noteq> None}, l')"
proof -
  let ?xs = "live (Postings pl) (mlayer l)"
  have sorted: "ssorted (map Uid (filter (\<lambda>p. u < Uid p) ?xs))"
    using assms(2) by (intro ssorted_map_filter ssorted_live) (auto simp: layers_ok_def)
  have "filter (\<lambda>p. Uid p < maxUint64) (filter (\<lambda>p. u < Uid p) ?xs)
      = filter (\<lambda>p. u < Uid p \<and> Uid p < maxUint64) ?xs"
    by (simp add: conj_commute)
  then show ?thesis
    using live_uids_filter [OF assms(2), of "\<lambda>q. u < q \<and> q < maxUint64"]
    by (simp add: Uids_def iterate_live [OF assms] iter_uids_None [OF sorted])
qed

lemma go_bind_if: "go_bind (if c then Inl e else Inr x) f = (if c then Inl e else f x)"
  by simp

lemma Uids_Some_spec:
  assumes "getPostingList st l = Inr (pl, l')" "layers_ok (Postings pl) (mlayer l)" "sorted us"
  shows "Uids st l \<lparr> AfterUID = u, Intersect = Some us \<rparr> =
    (if \<exists>q. u < q \<and> q < maxUint64 \<and> view (Postings pl) (mlayer l) q \<noteq> None
          \<and> us \<noteq> [] \<and> (\<forall>x \<in> set us. x < q)
     then Inl (Panic ''index out of range'')
     else Inr (sorted_list_of_set {q. (u < q \<and> q < maxUint64 \<and> q \<in> set us)
            \<and> view (Postings pl) (mlayer l) q \<noteq> None}, l'))"
proof -
  let ?xs = "live (Postings pl) (mlayer l)"
  have sorted: "ssorted (map Uid (filter (\<lambda>p. u < Uid p) ?xs))"
    using assms(2) by (intro ssorted_map_filter ssorted_live) (auto simp: layers_ok_def)
  have "(\<exists>p \<in> set (filter (\<lambda>p. u < Uid p) ?xs). beyond us p) \<longleftrightarrow>
    (\<exists>q \<in> Uid ` set ?xs. u < q \<and> q < maxUint64 \<and> us \<noteq> [] \<and> (\<forall>x \<in> set us. x < q))"
    by (auto simp: beyond_def)
  also have "\<dots> \<longleftrightarrow> (\<exists>q. u < q \<and> q < maxUint64 \<and> view (Postings pl) (mlayer l) q \<noteq> None
          \<and> us \<noteq> [] \<and> (\<forall>x \<in> set us. x < q))"
    unfolding live_uids [OF assms(2)] by (auto simp: dom_def)
  finally have b: "(\<exists>p \<in> set (filter (\<lambda>p. u < Uid p) ?xs). beyond us p) \<longleftrightarrow>
    (\<exists>q. u < q \<and> q < maxUint64 \<and> view (Postings pl) (mlayer l) q \<noteq> None
          \<and> us \<noteq> [] \<and> (\<forall>x \<in> set us. x < q))" .
  have "filter (\<lambda>p. Uid p < maxUint64 \<and> Uid p \<in> set us) (filter (\<lambda>p. u < Uid p) ?xs)
      = filter (\<lambda>p. u < Uid p \<and> Uid p < maxUint64 \<and> Uid p \<in> set us) ?xs"
    by (auto intro: filter_cong)
  then have f: "map Uid (filter (\<lambda>p. Uid p < maxUint64 \<and> Uid p \<in> set us) (filter (\<lambda>p. u < Uid p) ?xs))
    = sorted_list_of_set {q. (u < q \<and> q < maxUint64 \<and> q \<in> set us)
            \<and> view (Postings pl) (mlayer l) q \<noteq> None}"
    using live_uids_filter [OF assms(2), of "\<lambda>q. u < q \<and> q < maxUint64 \<and> q \<in> set us"] by (simp only:)
  have run: "map_sum id snd (iter_list (uids_step (Some us)) (filter (\<lambda>p. u < Uid p) ?xs) (0, []))
    = (if \<exists>q. u < q \<and> q < maxUint64 \<and> view (Postings pl) (mlayer l) q \<noteq> None
          \<and> us \<noteq> [] \<and> (\<forall>x \<in> set us. x < q)
     then Inl (Panic ''index out of range'')
     else Inr (sorted_list_of_set {q. (u < q \<and> q < maxUint64 \<and> q \<in> set us)
            \<and> view (Postings pl) (mlayer l) q \<noteq> None}))"
    by (subst iter_uids_Some [OF assms(3) sorted]) (simp_all only: b f append_Nil, simp_all)
  have shape: "go_bind (go_bind r (\<lambda>s'. Inr (s', l'))) (\<lambda>((idx, result), l'). Inr (result, l'))
      = go_bind (map_sum id snd r) (\<lambda>x. Inr (x, l'))" for r :: "(nat \<times> u64 list) go"
    by (cases r) auto
  show ?thesis
    unfolding Uids_def list_options.simps iterate_live [OF assms(1,2)] shape run go_bind_if ..
qed

lemma List_Value_spec:
  assumes "getPostingList st l = Inr (pl, l')" "layers_ok (Postings pl) (mlayer l)"
  shows "List_Value st l = (case view (Postings pl) (mlayer l) maxUint64 of
      None \<Rightarrow> Inl ErrNoValue | Some (ty, v, lab) \<Rightarrow> Inr ((v, ucast ty), l'))"
proof -
  let ?xs = "live (Postings pl) (mlayer l)" and ?ys = "filter (\<lambda>p. maxUint64 - 1 < Uid p) (live (Postings pl) (mlayer l))"
  have ss: "ssorted (map Uid ?xs)" "ssorted (map Uid ?ys)"
    using assms(2) by (auto simp: layers_ok_def intro!: ssorted_map_filter ssorted_live)
  have "at ?ys maxUint64 = at ?xs maxUint64"
  proof (rule option_eqI)
    fix q
    have "maxUint64 - 1 < maxUint64" by (simp add: maxUint64_def)
    then show "at ?ys maxUint64 = Some q \<longleftrightarrow> at ?xs maxUint64 = Some q"
      unfolding at_Some_iff [OF ss(1)] at_Some_iff [OF ss(2)] by auto
  qed
  then have "iter_list value_step ?ys None = Inr (map_option (\<lambda>p. (Value p, ucast (ValType p))) (at ?xs maxUint64))"
    using iter_value [OF ss(2)] by simp
  then show ?thesis
    unfolding at_live [OF assms(2), symmetric]
    by (simp add: List_Value_def iterate_live [OF assms] content_of_def split: option.split)
qed

section \<open>Runs\<close>

text \<open>
  The life of a list over its store: mutations and commits that return, and the mark that it is
  about to be evicted. The bound on the size of the merged list is that of a Go slice.
\<close>

inductive list_step :: "(bytes \<Rightarrow> bytes) \<Rightarrow> store \<times> mlist \<Rightarrow> store \<times> mlist \<Rightarrow> bool" for md5 where
  step_mutate: "AddMutation st now l t op = Inr (ch, l', sent) \<Longrightarrow> list_step md5 (st, l) (st, l')"
| step_commit: "CommitIfDirty md5 now st l = Inr (done', st', l') \<Longrightarrow>
    getPostingList st l = Inr (pl, l1) \<Longrightarrow> commit_fits (live (Postings pl) (mlayer l)) \<Longrightarrow>
    list_step md5 (st, l) (st', l')"
| step_evict: "list_step md5 (st, l) (st, SetForDeletion l)"

inductive_cases list_stepE: "list_step md5 (st, l) (st', l')"

definition store_ok :: "store \<Rightarrow> bool" where
  "store_ok st \<longleftrightarrow> kv_invar (entries st) \<and> unreadable st = []"

lemma AddMutation_InrD:
  assumes "AddMutation st now l t op = Inr r"
  shows "\<not> deleteMe l" "edge_uid t \<noteq> 0"
  using assms by (auto simp: AddMutation_def edge_uid_def Let_def split: if_splits)

lemma AddMutation_op:
  assumes "AddMutation st now l t op = Inr r"
  shows "op = Set \<or> op = Del"
  using assms
  by (auto simp: AddMutation_def updateMutationLayer_def newPosting_def go_simps Let_def
      split: if_splits)

lemma list_ok_cong:
  assumes "pbuffer l' = pbuffer l" "key l' = key l" "mlayer l' = mlayer l"
  shows "list_ok st l' = list_ok st l"
  using assms
  by (auto simp: list_ok_def getPostingList_def Let_def go_bind_def
      split: option.splits sum.splits go_err.splits)

lemma commit_InrD: "commit md5 now st l = Inr r \<Longrightarrow> mlayer l \<noteq> [] \<Longrightarrow> \<not> readOnly st"
  by (auto simp: commit_def store_SetOne_def go_simps Let_def split: sum.splits)

lemma mutate_ok:
  assumes "AddMutation st now l t op = Inr (ch, l', sent)" "list_ok st l"
  shows "list_ok st l'"
proof -
  from assms(2) AddMutation_InrD(1) [OF assms(1)] AddMutation_op [OF assms(1)]
    AddMutation_InrD(2) [OF assms(1)]
  obtain ch' l'' where "AddMutation st now l t op
      = Inr (ch', l'', if mlayer l'' = [] then [] else [ghash l])" "list_ok st l''"
    by (rule AddMutation_spec)
  with assms(1) show ?thesis by simp
qed

lemma CommitIfDirty_ok:
  assumes md5: "\<And>x. length (md5 x) = 16" and run: "CommitIfDirty md5 now st l = Inr (c, st', l')"
    and get: "getPostingList st l = Inr (pl, l1)" and fits: "commit_fits (live (Postings pl) (mlayer l))"
    and ok: "store_ok st" "list_ok st l"
  shows "store_ok st' \<and> list_ok st' l'"
proof (cases "dirtyTs l = 0 \<or> mlayer l = []")
  case True
  then have "st' = st" "pbuffer l' = pbuffer l" "key l' = key l" "mlayer l' = mlayer l"
    using run by (auto simp: CommitIfDirty_def commit_def split: if_splits)
  with ok list_ok_cong [of l' l st] show ?thesis by simp
next
  case False
  then have run: "commit md5 now st l = Inr (c, st', l')"
    using run by (simp add: CommitIfDirty_def)
  have "kv_invar (entries st)" "\<not> readOnly st" "key l \<notin> set (unreadable st)" "mlayer l \<noteq> []"
    using ok False commit_InrD [OF run] by (simp_all add: store_ok_def)
  from ok(2) this(1-3) md5 get fits this(4)
  obtain st2 l2 where c: "commit md5 now st l = Inr (True, st2, l2)" "list_ok st2 l2"
    "kv_invar (entries st2)" by (rule commit_spec)
  have "unreadable st' = unreadable st"
    using run by (auto simp: commit_def store_SetOne_def go_simps Let_def split: sum.splits if_splits)
  with c run ok show ?thesis by (simp add: store_ok_def)
qed

lemma list_step_ok:
  assumes md5: "\<And>x. length (md5 x) = 16" and "list_step md5 s s'"
    and ok: "store_ok (fst s)" "list_ok (fst s) (snd s)"
  shows "store_ok (fst s') \<and> list_ok (fst s') (snd s')"
  using assms(2)
proof (cases rule: list_step.cases)
  case (step_mutate st now l t op ch l' sent)
  with ok show ?thesis using mutate_ok by simp
next
  case (step_commit now st l done' st' l' pl l1)
  with ok show ?thesis using CommitIfDirty_ok [OF md5 step_commit(3-5)] by simp
next
  case (step_evict st l)
  with ok show ?thesis using list_ok_cong [of "SetForDeletion l" l st] by (simp add: SetForDeletion_def)
qed

lemma list_steps_ok:
  assumes md5: "\<And>x. length (md5 x) = 16" and "(list_step md5)\<^sup>*\<^sup>* s s'"
    and ok: "store_ok (fst s)" "list_ok (fst s) (snd s)"
  shows "store_ok (fst s') \<and> list_ok (fst s') (snd s')"
  using assms(2)
proof (induction rule: rtranclp_induct)
  case base
  then show ?case using ok by blast
next
  case (step a b)
  then show ?case using list_step_ok [of md5 a b, OF md5] by blast
qed

lemma at_filter_Uid: "at (filter (\<lambda>p. P (Uid p)) ps) q = (if P q then at ps q else None)"
  by (induction ps) auto

section \<open>Properties\<close>

text \<open>
  C1: A mutation on a well formed list is a set or a delete on the map from uids to contents: a
  set overwrites, a delete removes the entry only when the content matches, and the answer says
  whether the map changed. The layers stay well formed, and the hash of the list goes to the
  channel of dirty lists exactly when the mutation layer is not empty.
\<close>

theorem add_mutation_refines:
  assumes "list_ok st l" "\<not> deleteMe l" "op = Set \<or> op = Del" "edge_uid t \<noteq> 0"
  shows "\<exists>ch l'. AddMutation st now l t op
        = Inr (ch, l', if mlayer l' = [] then [] else [ghash l])
    \<and> list_ok st l'
    \<and> (ch, list_view st l')
        = mutate_spec op (edge_uid t) (ValueType t, edge_bytes t, ELabel t) (list_view st l)
    \<and> (mlayer l' \<noteq> [] \<longrightarrow> dirtyTs l' = now)"
  using assms by (rule AddMutation_spec) blast

definition sample_edge :: edge where
  "sample_edge = \<lparr> Entity = 1, Attr = ''friend'', EValue = None, ValueType = 0, ValueId = 5,
     ELabel = ''x'' \<rparr>"

definition sample_list :: mlist where
  "sample_list = getNew\<lparr>key := ''k'',
     mlayer := [empty_posting\<lparr>Uid := 5, Label := ''x'', Op := Add\<rparr>,
                empty_posting\<lparr>Uid := 9, Op := Add\<rparr>]\<rparr>"

theorem add_mutation_refines_witness:
  "\<exists>ch l'. AddMutation empty_store 7 sample_list sample_edge Del
        = Inr (ch, l', if mlayer l' = [] then [] else [ghash sample_list])
    \<and> list_ok empty_store l'
    \<and> (ch, list_view empty_store l')
        = mutate_spec Del (edge_uid sample_edge)
            (ValueType sample_edge, edge_bytes sample_edge, ELabel sample_edge)
            (list_view empty_store sample_list)
    \<and> (mlayer l' \<noteq> [] \<longrightarrow> dirtyTs l' = 7)"
proof (rule add_mutation_refines)
  show "list_ok empty_store sample_list" "\<not> deleteMe sample_list" "edge_uid sample_edge \<noteq> 0"
    by code_simp+
qed simp

text \<open>
  C4: Iteration after a uid calls back on exactly the live postings beyond it, in the strictly
  increasing order of their uids: one list of postings, which the view determines, serves every
  callback, and the loop always ends.
\<close>

theorem iterate_visits_live:
  assumes "list_ok st l"
  shows "\<exists>xs. ssorted (map Uid xs)
    \<and> (\<forall>q. map_option content_of (at xs q) = (if u < q then list_view st l q else None))
    \<and> (\<forall>f s. \<exists>l'. iterate st l u f s = go_bind (iter_list f xs s) (\<lambda>s'. Inr (s', l')))"
proof -
  from assms obtain pl where get: "getPostingList st l = Inr (pl, l\<lparr>pbuffer := Some pl\<rparr>)"
    and ok: "layers_ok (Postings pl) (mlayer l)"
    and view: "list_view st l = view (Postings pl) (mlayer l)"
    by (rule list_ok_getE)
  let ?xs = "filter (\<lambda>p. u < Uid p) (live (Postings pl) (mlayer l))"
  have "map_option content_of (at ?xs q) = (if u < q then list_view st l q else None)" for q
    unfolding at_filter_Uid [where P = "\<lambda>q. u < q"] view at_live [OF ok, symmetric] by simp
  moreover have "ssorted (map Uid ?xs)"
    using ok by (intro ssorted_map_filter ssorted_live) (auto simp: layers_ok_def)
  moreover have "\<exists>l'. iterate st l u f s = go_bind (iter_list f ?xs s) (\<lambda>s'. Inr (s', l'))" for f s
    by (rule exI) (rule iterate_live [OF get ok])
  ultimately show ?thesis by (intro exI [of _ ?xs] conjI allI)
qed

theorem iterate_visits_live_witness:
  "\<exists>xs. ssorted (map Uid xs)
    \<and> (\<forall>q. map_option content_of (at xs q) = (if 5 < q then list_view empty_store sample_list q else None))
    \<and> (\<forall>(f :: posting \<Rightarrow> nat \<Rightarrow> (bool \<times> nat) go) s.
        \<exists>l'. iterate empty_store sample_list 5 f s = go_bind (iter_list f xs s) (\<lambda>s'. Inr (s', l')))"
proof -
  have "list_ok empty_store sample_list" by code_simp
  then show ?thesis by (rule iterate_visits_live)
qed

text \<open>
  \<^verbatim>\<open>Length\<close>, which counts from the sizes of the layers and the kinds of the mutations without
  merging them, is the number of uids beyond \<open>u\<close> that have a live posting.
\<close>

lemma length_counts_live:
  assumes "list_ok st l"
  shows "\<exists>l'. List_Length st l u = Inr (int (card {q. u < q \<and> list_view st l q \<noteq> None}), l')"
proof -
  from assms obtain pl where get: "getPostingList st l = Inr (pl, l\<lparr>pbuffer := Some pl\<rparr>)"
    and ok: "layers_ok (Postings pl) (mlayer l)"
    and view: "list_view st l = view (Postings pl) (mlayer l)"
    by (rule list_ok_getE)
  have "length (filter (\<lambda>p. u < Uid p) (live (Postings pl) (mlayer l)))
      = card {q. u < q \<and> list_view st l q \<noteq> None}"
    using arg_cong [OF live_uids_filter [OF ok, of "\<lambda>q. u < q"], of length] by (simp add: view)
  then show ?thesis using List_Length_live [OF get ok, of u] by simp
qed

lemma commit_pbuffer: "commit md5 now st l = Inr (c, st', l') \<Longrightarrow> mlayer l \<noteq> [] \<Longrightarrow> pbuffer l' = None"
  by (auto simp: commit_def store_SetOne_def go_simps Let_def split: if_splits)

text \<open>
  C2: A commit of a list with mutations writes both layers to the store and empties the mutation
  layer. The committed list, and any list loaded from the new store under the same key later,
  show what the list showed before; no other key of the store changes.
\<close>

theorem commit_durable:
  assumes "list_ok st l" "kv_invar (entries st)" "\<not> readOnly st" "key l \<notin> set (unreadable st)"
    and "\<forall>x. length (md5 x) = 16" "mlayer l \<noteq> []"
    and "getPostingList st l = Inr (pl, l1)" "commit_fits (live (Postings pl) (mlayer l))"
  shows "\<exists>st' l'. commit md5 now st l = Inr (True, st', l') \<and> list_ok st' l'
    \<and> mlayer l' = [] \<and> dirtyTs l' = 0 \<and> list_view st' l' = list_view st l
    \<and> (\<forall>l2. key l2 = key l \<and> pbuffer l2 = None \<and> mlayer l2 = [] \<longrightarrow>
          list_view st' l2 = list_view st l)
    \<and> (\<forall>k. k \<noteq> key l \<longrightarrow> store_Get st' k = store_Get st k)"
proof -
  have md5: "\<And>x. length (md5 x) = 16" using assms(5) by blast
  from assms(1-4) md5 assms(7,8,6) obtain st' l' where c: "commit md5 now st l = Inr (True, st', l')"
    "list_ok st' l'" "list_view st' l' = list_view st l" "mlayer l' = []" "dirtyTs l' = 0"
    "kv_invar (entries st')" "key l' = key l" "\<forall>k. k \<noteq> key l \<longrightarrow> store_Get st' k = store_Get st k"
    by (rule commit_spec [where ?md5.0 = md5 and now = now])
  have "pbuffer l' = None" by (rule commit_pbuffer [OF c(1) assms(6)])
  then have "list_view st' l2 = list_view st l"
    if "key l2 = key l" "pbuffer l2 = None" "mlayer l2 = []" for l2
    using list_view_cong [of l2 l' st'] that c by simp
  with c show ?thesis by blast
qed

theorem commit_durable_witness:
  "\<exists>st' l'. commit (\<lambda>_. replicate 16 (CHR 0x41)) 3 empty_store sample_list = Inr (True, st', l')
    \<and> list_ok st' l' \<and> mlayer l' = [] \<and> dirtyTs l' = 0
    \<and> list_view st' l' = list_view empty_store sample_list
    \<and> (\<forall>l2. key l2 = key sample_list \<and> pbuffer l2 = None \<and> mlayer l2 = [] \<longrightarrow>
          list_view st' l2 = list_view empty_store sample_list)
    \<and> (\<forall>k. k \<noteq> key sample_list \<longrightarrow> store_Get st' k = store_Get empty_store k)"
proof (rule commit_durable)
  show "list_ok empty_store sample_list" by code_simp
  show "kv_invar (entries empty_store)" "\<not> readOnly empty_store"
    "key sample_list \<notin> set (unreadable empty_store)" by (simp_all add: empty_store_def)
  show "mlayer sample_list \<noteq> []" by code_simp
  show "getPostingList empty_store sample_list
      = Inr (empty_posting_list, sample_list\<lparr>pbuffer := Some empty_posting_list\<rparr>)" by code_simp
  show "commit_fits (live (Postings empty_posting_list) (mlayer sample_list))"
  proof -
    have "live (Postings empty_posting_list) (mlayer sample_list) = mlayer sample_list" by code_simp
    moreover have "PostingList_Size \<lparr> Postings = mlayer sample_list,
        Checksum = replicate 16 (CHR 0x00), PL_Commit = 0 \<rparr> < 100" by code_simp
    ultimately show ?thesis by (simp add: commit_fits_def)
  qed
qed simp

text \<open>
  Without an intersection list, \<^verbatim>\<open>Uids\<close> returns in increasing order every uid beyond the
  requested one that has a live posting, except the one that stands for a value.
\<close>

lemma uids_lists_live:
  assumes "list_ok st l"
  shows "\<exists>l'. Uids st l \<lparr> AfterUID = u, Intersect = None \<rparr>
    = Inr (sorted_list_of_set {q. (u < q \<and> q < maxUint64) \<and> list_view st l q \<noteq> None}, l')"
proof -
  from assms obtain pl where get: "getPostingList st l = Inr (pl, l\<lparr>pbuffer := Some pl\<rparr>)"
    and ok: "layers_ok (Postings pl) (mlayer l)"
    and view: "list_view st l = view (Postings pl) (mlayer l)"
    by (rule list_ok_getE)
  show ?thesis unfolding view by (rule exI) (rule Uids_None_spec [OF get ok])
qed

text \<open>
  C5: With a sorted intersection list, \<^verbatim>\<open>Uids\<close> returns the common uids, provided that no live
  posting beyond the requested uid lies above all uids of a non-empty intersection list. If one
  does, the call panics: the guard that should stop at the end of the list compares the index
  with \<^verbatim>\<open>opt.Intersect.Size()\<close>, the size of the encoded message, which is larger.
\<close>

theorem uids_intersection_or_panic:
  assumes "list_ok st l" "sorted us"
  shows "\<exists>l'. Uids st l \<lparr> AfterUID = u, Intersect = Some us \<rparr> =
    (if \<exists>q. u < q \<and> q < maxUint64 \<and> list_view st l q \<noteq> None \<and> us \<noteq> [] \<and> (\<forall>x \<in> set us. x < q)
     then Inl (Panic ''index out of range'')
     else Inr (sorted_list_of_set
        {q. (u < q \<and> q < maxUint64 \<and> q \<in> set us) \<and> list_view st l q \<noteq> None}, l'))"
proof -
  from assms(1) obtain pl where get: "getPostingList st l = Inr (pl, l\<lparr>pbuffer := Some pl\<rparr>)"
    and ok: "layers_ok (Postings pl) (mlayer l)"
    and view: "list_view st l = view (Postings pl) (mlayer l)"
    by (rule list_ok_getE)
  show ?thesis unfolding view by (rule exI) (rule Uids_Some_spec [OF get ok assms(2)])
qed

theorem uids_intersection_or_panic_witness:
  "(\<exists>l'. Uids empty_store sample_list \<lparr> AfterUID = 0, Intersect = Some [5, 7] \<rparr> =
    (if \<exists>q. 0 < q \<and> q < maxUint64 \<and> list_view empty_store sample_list q \<noteq> None
         \<and> [5, 7] \<noteq> ([] :: u64 list) \<and> (\<forall>x \<in> set [5, 7]. x < q)
     then Inl (Panic ''index out of range'')
     else Inr (sorted_list_of_set {q. (0 < q \<and> q < maxUint64 \<and> q \<in> set [5, 7])
        \<and> list_view empty_store sample_list q \<noteq> None}, l')))
   \<and> Uids empty_store sample_list \<lparr> AfterUID = 0, Intersect = Some [5, 7] \<rparr>
     = Inl (Panic ''index out of range'')"
proof
  have "list_ok empty_store sample_list" "sorted [5, 7 :: u64]" by code_simp+
  then show "\<exists>l'. Uids empty_store sample_list \<lparr> AfterUID = 0, Intersect = Some [5, 7] \<rparr> =
    (if \<exists>q. 0 < q \<and> q < maxUint64 \<and> list_view empty_store sample_list q \<noteq> None
         \<and> [5, 7] \<noteq> ([] :: u64 list) \<and> (\<forall>x \<in> set [5, 7]. x < q)
     then Inl (Panic ''index out of range'')
     else Inr (sorted_list_of_set {q. (0 < q \<and> q < maxUint64 \<and> q \<in> set [5, 7])
        \<and> list_view empty_store sample_list q \<noteq> None}, l'))"
    by (rule uids_intersection_or_panic)
  show "Uids empty_store sample_list \<lparr> AfterUID = 0, Intersect = Some [5, 7] \<rparr>
     = Inl (Panic ''index out of range'')" by code_simp
qed

text \<open>
  C9: \<^verbatim>\<open>Value\<close> returns the bytes and the type of the content the view has at the uid reserved for
  values, and \<^verbatim>\<open>ErrNoValue\<close> when it has none.
\<close>

theorem value_reads_view:
  assumes "list_ok st l"
  shows "\<exists>l'. List_Value st l = (case list_view st l maxUint64 of
      None \<Rightarrow> Inl ErrNoValue | Some (ty, v, lab) \<Rightarrow> Inr ((v, ucast ty), l'))"
proof -
  from assms obtain pl where get: "getPostingList st l = Inr (pl, l\<lparr>pbuffer := Some pl\<rparr>)"
    and ok: "layers_ok (Postings pl) (mlayer l)"
    and view: "list_view st l = view (Postings pl) (mlayer l)"
    by (rule list_ok_getE)
  show ?thesis unfolding view by (rule exI) (rule List_Value_spec [OF get ok])
qed

theorem value_reads_view_witness:
  "\<exists>l'. List_Value empty_store sample_list = (case list_view empty_store sample_list maxUint64 of
      None \<Rightarrow> Inl ErrNoValue | Some (ty, v, lab) \<Rightarrow> Inr ((v, ucast ty), l'))"
proof -
  have "list_ok empty_store sample_list" by code_simp
  then show ?thesis by (rule value_reads_view)
qed

text \<open>
  C7: Every list that mutations, commits and eviction marks produce from a fresh list over an
  empty store is well formed, whatever the order of the calls, so the properties of the readers
  hold at every moment of its life.
\<close>

theorem reachable_lists_ok:
  assumes "\<forall>x. length (md5 x) = 16"
    and "(list_step md5)\<^sup>*\<^sup>* (empty_store, getNew\<lparr>key := k\<rparr>) (st, l)"
  shows "list_ok st l"
proof -
  have "store_ok empty_store" by (simp add: store_ok_def empty_store_def)
  moreover have "list_ok empty_store (getNew\<lparr>key := k\<rparr>)"
    by (simp add: list_ok_def getPostingList_def getNew_def empty_store_def store_Get_def
        layers_ok_def postings_ok_def empty_posting_list_def)
  moreover have "\<And>x. length (md5 x) = 16" using assms(1) by blast
  ultimately show ?thesis using list_steps_ok [OF _ assms(2)] by simp
qed

theorem reachable_lists_ok_witness:
  "\<exists>l. (list_step (\<lambda>_. replicate 16 (CHR 0x41)))\<^sup>*\<^sup>* (empty_store, getNew\<lparr>key := ''k''\<rparr>) (empty_store, l)
    \<and> mlayer l \<noteq> [] \<and> list_ok empty_store l"
proof -
  obtain ch l sent where run: "AddMutation empty_store 7 (getNew\<lparr>key := ''k''\<rparr>) sample_edge Set
      = Inr (ch, l, sent)" and ne: "mlayer l \<noteq> []"
  proof -
    have "(case AddMutation empty_store 7 (getNew\<lparr>key := ''k''\<rparr>) sample_edge Set of
        Inl e \<Rightarrow> False | Inr (ch, l, sent) \<Rightarrow> mlayer l \<noteq> [])" by code_simp
    then show thesis using that by (auto split: sum.splits)
  qed
  then have steps: "(list_step (\<lambda>_. replicate 16 (CHR 0x41)))\<^sup>*\<^sup>*
      (empty_store, getNew\<lparr>key := ''k''\<rparr>) (empty_store, l)"
    by (blast intro: list_step.step_mutate)
  have "list_ok empty_store l" by (rule reachable_lists_ok [OF _ steps]) simp
  with steps ne show ?thesis by blast
qed

text \<open>
  C10: The keys of ASCII attributes identify attribute and uid, and \<^verbatim>\<open>SplitKey\<close> recovers them when
  the attribute has no separator; but when one of the eight bytes of the uid is the byte of the
  separator, for instance for uid 124, its assertion ends the process.
\<close>

theorem split_key_roundtrip:
  assumes "ascii attr" "CHR ''|'' \<notin> set attr"
  shows "SplitKey (Key uid attr) =
    (if CHR ''|'' \<in> set (BigEndian_PutUint64 uid) then Inl (Fatal ''Assert failed'')
     else Inr (attr, uid))
    \<and> (\<forall>v b. ascii b \<longrightarrow> Key uid attr = Key v b \<longleftrightarrow> attr = b \<and> uid = v)"
  using SplitKey_Key [OF assms] Key_inj [OF assms(1)] by blast

theorem split_key_roundtrip_witness:
  "SplitKey (Key 3 ''name'') = Inr (''name'', 3)
   \<and> SplitKey (Key 124 ''name'') = Inl (Fatal ''Assert failed'')"
proof -
  have "ascii ''name''" "CHR ''|'' \<notin> set ''name''" by code_simp+
  moreover have "CHR ''|'' \<notin> set (BigEndian_PutUint64 3)" "CHR ''|'' \<in> set (BigEndian_PutUint64 124)"
    by code_simp+
  ultimately show ?thesis
    using split_key_roundtrip [of "''name''" 3] split_key_roundtrip [of "''name''" 124] by simp
qed

text \<open>
  \<^verbatim>\<open>Key\<close> keeps the low byte of every rune, so two attributes that differ in a character
  beyond ASCII can share all their keys: here the one-character attributes U+0169 and U+0269.
\<close>

lemma key_collision:
  "Key uid [CHR 0xC5, CHR 0xA9] = Key uid [CHR 0xC9, CHR 0xA9]"
proof -
  have "range_string [CHR 0xC5, CHR 0xA9] = [(0, 0x169)]" "range_string [CHR 0xC9, CHR 0xA9] = [(0, 0x269)]"
    by code_simp+
  moreover have "char_of (0x169 :: int) = CHR 0x69" "char_of (0x269 :: int) = CHR 0x69" by code_simp+
  ultimately show ?thesis by (simp add: Key_def)
qed

end
