(* ===== verification/Group_Conf.thy ===== *)
theory Group_Conf
  imports Go_Strings
begin

text \<open>
  The assignment of predicates to Raft groups, \<^verbatim>\<open>group/conf.go\<close>: the parser of the configuration
  file, line by line, and the lookup of the group of a predicate. The fingerprint of
  \<^verbatim>\<open>go-farm\<close> is a parameter. Results: an accepted configuration names consecutive groups from
  zero, its default rule starts at most one past them, and the lookup is the first match with the
  fingerprint rule as default.
\<close>

section \<open>Data\<close>

record predMeta =
  meta_val :: bytes
  exactMatch :: bool
  gid :: u32

record config =
  conf_n :: u64
  conf_k :: u64
  conf_pred :: "predMeta list"

definition zero_config :: config where
  "zero_config = \<lparr> conf_n = 0, conf_k = 0, conf_pred = [] \<rparr>"

section \<open>Parsing\<close>

definition pred_meta :: "u32 \<Rightarrow> bytes \<Rightarrow> predMeta" where
  "pred_meta groupId pred =
     (let p = TrimSpace pred in
      if HasSuffix p ''*''
      then \<lparr> meta_val = TrimSuffix p ''*'', exactMatch = False, gid = groupId \<rparr>
      else \<lparr> meta_val = p, exactMatch = True, gid = groupId \<rparr>)"

definition parsePredicates :: "config \<Rightarrow> u32 \<Rightarrow> bytes \<Rightarrow> config go" where
  "parsePredicates c groupId p =
     (let preds = bytes_Split p (CHR '','') in
      go_bind (assertTruef (length preds > 0) ''Length of predicates in config should be > 0'')
        (\<lambda>_. Inr (c\<lparr>conf_pred := conf_pred c @ map (pred_meta groupId) preds\<rparr>)))"

definition defaultFormat :: go_err where
  "defaultFormat = Err ''Default config format should be like: default: fp % n + k''"

definition parseDefaultConfig :: "config \<Rightarrow> bytes \<Rightarrow> (u64 \<times> config) go" where
  "parseDefaultConfig c l =
     (if conf_n c \<noteq> 0 then Inl (Err ''Default config can only be defined once'')
      else
        let conf = bytes_Split (TrimSpace l) (CHR '' '') in
        if \<not> (length conf = 5 \<or> length conf = 3) \<or> conf ! 0 \<noteq> ''fp'' \<or> conf ! 1 \<noteq> ''%''
        then Inl defaultFormat
        else
          go_bind (x_Check (ParseUint (conf ! 2))) (\<lambda>n.
            go_bind (assertTruef (n \<noteq> 0) ''Assert failed'') (\<lambda>_.
              let c1 = c\<lparr>conf_n := n\<rparr> in
              if length conf = 5 then
                if conf ! 3 \<noteq> ''+'' then Inl defaultFormat
                else go_bind (x_Check (ParseUint (conf ! 4)))
                       (\<lambda>k. Inr (k, c1\<lparr>conf_k := k\<rparr>))
              else Inr (conf_k c1, c1))))"

text \<open>
  The loop over the lines, with the next group number and whether the default line was seen.
  The counter is 64 bits wide, the number of a group 32.
\<close>

fun parseConfig_loop :: "bytes list \<Rightarrow> u64 \<Rightarrow> bool \<Rightarrow> config \<Rightarrow> config go" where
  "parseConfig_loop [] cur seenDefault c = Inr c"
| "parseConfig_loop (l # ls) cur seenDefault c =
     (if l = [] \<or> HasPrefix l ''//'' then parseConfig_loop ls cur seenDefault c
      else
        let cs = bytes_Split l (CHR '':'') in
        if length cs < 2 then Inl (Err ''Incorrect format for config line'')
        else if cs ! 0 = ''default'' then
          (case parseDefaultConfig c (cs ! 1) of
             Inl e \<Rightarrow> Inl e
           | Inr (k, c') \<Rightarrow>
               if k = 0 then parseConfig_loop ls cur True c'
               else if cur < k
               then Inl (Err ''k in (fp mod N + k) should be <= the last groupno'')
               else parseConfig_loop ls cur True c')
        else if seenDefault then Inl (Err ''Default config should be specified as the last line'')
        else
          (case x_Check (ParseUint (cs ! 0)) of
             Inl e \<Rightarrow> Inl e
           | Inr groupId \<Rightarrow>
               if cur \<noteq> groupId
               then Inl (Err ''Group ids should be sequential and should start from 0'')
               else
                 (case parsePredicates c (ucast groupId) (cs ! 1) of
                    Inl e \<Rightarrow> Inl e
                  | Inr c' \<Rightarrow> parseConfig_loop ls (cur + 1) seenDefault c')))"

definition parseConfig :: "config \<Rightarrow> bytes \<Rightarrow> config go" where
  "parseConfig c f =
     (case scanner_lines f of (ls, tooLong) \<Rightarrow>
        go_bind (parseConfig_loop ls 0 False c) (\<lambda>c'.
          if tooLong then Inl (Fatal ''bufio.Scanner: token too long'') else Inr c'))"

text \<open>The content of the file, or nothing when it does not exist.\<close>

definition ParseGroupConfig :: "config \<Rightarrow> bytes option \<Rightarrow> config go" where
  "ParseGroupConfig c cf =
     (case cf of
        None \<Rightarrow> Inr (c\<lparr>conf_n := 1\<rparr>)
      | Some f \<Rightarrow>
          go_bind (parseConfig c f) (\<lambda>c'.
            if conf_n c' = 0 then Inl (Err ''Cant take modulo 0.'') else Inr c'))"

section \<open>Lookup\<close>

text \<open>The modulus is cut to 32 bits first; a remainder by zero panics.\<close>

definition fpGroup :: "(bytes \<Rightarrow> u32) \<Rightarrow> config \<Rightarrow> bytes \<Rightarrow> u32 go" where
  "fpGroup fp c pred =
     (if (ucast (conf_n c) :: u32) = 0 then Inl (Panic ''integer divide by zero'')
      else Inr (fp pred mod ucast (conf_n c) + ucast (conf_k c)))"

definition meta_matches :: "predMeta \<Rightarrow> bytes \<Rightarrow> bool" where
  "meta_matches m pred \<longleftrightarrow>
     (exactMatch m \<and> meta_val m = pred) \<or> (\<not> exactMatch m \<and> HasPrefix pred (meta_val m))"

fun belongs_loop :: "predMeta list \<Rightarrow> bytes \<Rightarrow> u32 option" where
  "belongs_loop [] pred = None"
| "belongs_loop (m # ms) pred =
     (if exactMatch m \<and> meta_val m = pred then Some (gid m)
      else if \<not> exactMatch m \<and> HasPrefix pred (meta_val m) then Some (gid m)
      else belongs_loop ms pred)"

definition BelongsTo :: "(bytes \<Rightarrow> u32) \<Rightarrow> config \<Rightarrow> bytes \<Rightarrow> u32 go" where
  "BelongsTo fp c pred =
     (case belongs_loop (conf_pred c) pred of Some g \<Rightarrow> Inr g | None \<Rightarrow> fpGroup fp c pred)"

section \<open>Lemmas\<close>

text \<open>The invariant of the loop: the groups named so far are those below the counter.\<close>

definition conf_inv :: "nat \<Rightarrow> config \<Rightarrow> bool" where
  "conf_inv cur c \<longleftrightarrow> (\<forall>m \<in> set (conf_pred c). unat (gid m) < cur)
     \<and> (\<forall>g < cur. \<exists>m \<in> set (conf_pred c). unat (gid m) = g)"

lemma parseDefaultConfig_pred:
  "parseDefaultConfig c l = Inr (k, c') \<Longrightarrow> conf_pred c' = conf_pred c \<and> conf_n c' \<noteq> 0
    \<and> (conf_k c = 0 \<longrightarrow> k = conf_k c')"
  by (auto simp: parseDefaultConfig_def go_simps Let_def split: if_splits)

lemma pred_meta_gid [simp]: "gid (pred_meta g p) = g"
  by (simp add: pred_meta_def Let_def)

lemma unat_ucast_small:
  assumes "unat (w :: u64) < 2 ^ 32"
  shows "unat (ucast w :: u32) = unat w"
proof -
  have "unat (ucast w :: u32) = take_bit 32 (unat w)" by (simp add: unsigned_ucast_eq)
  also have "\<dots> = unat w" using assms by (rule take_bit_nat_eq_self)
  finally show ?thesis .
qed

lemma conf_inv_step:
  assumes "parsePredicates c g p = Inr c'" "conf_inv n c" "unat g = n"
  shows "conf_inv (Suc n) c'" "conf_k c' = conf_k c" "conf_n c' = conf_n c"
proof -
  have c': "c' = c\<lparr>conf_pred := conf_pred c @ map (pred_meta g) (bytes_Split p (CHR '',''))\<rparr>"
    using assms(1) by (simp add: parsePredicates_def Let_def)
  then show "conf_k c' = conf_k c" "conf_n c' = conf_n c" by simp_all
  obtain q where "q \<in> set (bytes_Split p (CHR '',''))"
    using bytes_Split_nonempty by (metis list.set_sel(1))
  then have "pred_meta g q \<in> set (conf_pred c')" unfolding c' by simp
  then have "\<exists>m \<in> set (conf_pred c'). unat (gid m) = n" using assms(3) pred_meta_gid by metis
  then show "conf_inv (Suc n) c'"
    using assms(2,3) unfolding conf_inv_def c' by (auto simp: less_Suc_eq)
qed

definition k_inv :: "nat \<Rightarrow> config \<Rightarrow> bool" where
  "k_inv cur c \<longleftrightarrow> unat (conf_k c) \<le> cur \<and> (conf_n c = 0 \<longrightarrow> conf_k c = 0)"

lemma k_inv_default:
  assumes "parseDefaultConfig c l = Inr (k, c')" "k_inv (unat cur) c" "k = 0 \<or> \<not> cur < k"
  shows "k_inv (unat cur) c'"
proof -
  have "conf_n c = 0" using assms(1) by (auto simp: parseDefaultConfig_def split: if_splits)
  with assms(2) have "conf_k c = 0" by (simp add: k_inv_def)
  with parseDefaultConfig_pred [OF assms(1)] have "k = conf_k c'" "conf_n c' \<noteq> 0" by auto
  with assms(3) show ?thesis by (auto simp: k_inv_def word_less_nat_alt not_less)
qed

lemma parseConfig_loop_inv:
  assumes "parseConfig_loop ls cur seen c = Inr c'" "conf_inv (unat cur) c" "k_inv (unat cur) c"
    "unat cur + length ls < 2 ^ 32"
  shows "\<exists>G. G \<le> unat cur + length ls \<and> conf_inv G c' \<and> k_inv G c'"
  using assms
proof (induction ls cur seen c rule: parseConfig_loop.induct)
  case (1 cur seen c)
  then show ?case by auto
next
  case (2 l ls cur seen c)
  let ?cs = "bytes_Split l (CHR '':'')"
  have bound: "unat cur + length ls < 2 ^ 32" using "2.prems"(4) by simp
  consider (skip) "l = [] \<or> HasPrefix l ''//''"
    | (default) k c1 where "\<not> (l = [] \<or> HasPrefix l ''//'')" "\<not> length ?cs < 2" "?cs ! 0 = ''default''"
        "parseDefaultConfig c (?cs ! 1) = Inr (k, c1)" "k = 0 \<or> \<not> cur < k"
        "parseConfig_loop ls cur True c1 = Inr c'"
    | (group) c1 where "\<not> (l = [] \<or> HasPrefix l ''//'')" "\<not> length ?cs < 2" "?cs ! 0 \<noteq> ''default''" "\<not> seen"
        "x_Check (ParseUint (?cs ! 0)) = Inr cur" "parsePredicates c (ucast cur) (?cs ! 1) = Inr c1"
        "parseConfig_loop ls (cur + 1) seen c1 = Inr c'"
    using "2.prems"(1) by (auto simp: Let_def split: if_splits sum.splits)
  then show ?case
  proof cases
    case skip
    then have "parseConfig_loop ls cur seen c = Inr c'" using "2.prems"(1) by simp
    with "2.IH"(1) [OF skip] "2.prems"(2,3) bound
    have "\<exists>G. G \<le> unat cur + length ls \<and> conf_inv G c' \<and> k_inv G c'" by blast
    then show ?thesis by (auto intro: le_SucI)
  next
    case default
    have inv: "conf_inv (unat cur) c1"
      using "2.prems"(2) parseDefaultConfig_pred [OF default(4)] by (simp add: conf_inv_def)
    have k: "k_inv (unat cur) c1" by (rule k_inv_default [OF default(4) "2.prems"(3) default(5)])
    have "\<exists>G. G \<le> unat cur + length ls \<and> conf_inv G c' \<and> k_inv G c'"
      using "2.IH"(2,3) default inv k bound by blast
    then show ?thesis by (auto intro: le_SucI)
  next
    case group
    have small: "unat (ucast cur :: u32) = unat cur" using bound by (intro unat_ucast_small) simp
    have "unat cur < 2 ^ 32" using bound by simp
    then have suc: "unat (cur + 1) = Suc (unat cur)" by (simp add: unat_word_ariths)
    note step = conf_inv_step [OF group(6) "2.prems"(2) small]
    have k: "k_inv (unat (cur + 1)) c1" using step "2.prems"(3) suc by (auto simp: k_inv_def)
    have inv: "conf_inv (unat (cur + 1)) c1" using step(1) suc by simp
    have "unat (cur + 1) + length ls < 2 ^ 32" using "2.prems"(4) suc by simp
    then have "\<exists>G. G \<le> unat (cur + 1) + length ls \<and> conf_inv G c' \<and> k_inv G c'"
      using "2.IH"(4) [OF group(1) refl group(2,3,4,5) _ group(6,7) inv k] by simp
    then show ?thesis using suc by simp
  qed
qed

text \<open>The lookup is the first match.\<close>

lemma belongs_loop_find: "belongs_loop ms pred = map_option gid (find (\<lambda>m. meta_matches m pred) ms)"
  by (induction ms) (auto simp: meta_matches_def)

lemma belongs_loop_Some: "belongs_loop ms pred = Some g \<Longrightarrow> \<exists>m \<in> set ms. gid m = g"
  by (induction ms) (auto split: if_splits)

lemma fpGroup_range:
  assumes "unat (conf_n c) < 2 ^ 32" "conf_n c \<noteq> 0" "unat (conf_k c) + unat (conf_n c) \<le> 2 ^ 32"
  obtains g where "fpGroup fp c pred = Inr g"
    "unat g = unat (fp pred) mod unat (conf_n c) + unat (conf_k c)"
proof -
  let ?n = "ucast (conf_n c) :: u32" and ?k = "ucast (conf_k c) :: u32"
  have n: "unat ?n = unat (conf_n c)" by (rule unat_ucast_small [OF assms(1)])
  have pos: "0 < unat (conf_n c)" using assms(2) by (simp add: unat_gt_0)
  have k: "unat ?k = unat (conf_k c)" using assms(3) pos by (intro unat_ucast_small) simp
  have "unat (fp pred) mod unat (conf_n c) < unat (conf_n c)" using pos by simp
  then have "unat (fp pred) mod unat (conf_n c) + unat (conf_k c) < 2 ^ 32" using assms(3) by linarith
  moreover have "unat (fp pred mod ?n) = unat (fp pred) mod unat (conf_n c)"
    by (simp add: unat_mod_distrib n)
  ultimately have "unat (fp pred mod ?n + ?k) = unat (fp pred) mod unat (conf_n c) + unat (conf_k c)"
    by (simp only: unat_word_ariths(1) k) simp
  moreover have "?n \<noteq> 0" using n pos by (metis unat_0 less_irrefl)
  ultimately show thesis using that by (simp add: fpGroup_def)
qed

section \<open>Properties\<close>

text \<open>
  A configuration file that is accepted names the groups \<open>0, \<dots>, G - 1\<close> without gaps, and the
  default rule, whose modulus is not zero, starts at a \<open>k\<close> of at most \<open>G\<close>; so every predicate
  belongs either to a named group or to one of the \<open>n\<close> groups from \<open>k\<close> on, and the groups in use
  have no gap. The numbers must fit the 32 bits of a group number.
\<close>

lemma accepted_config_groups:
  assumes "ParseGroupConfig zero_config (Some f) = Inr c" "length (fst (scanner_lines f)) < 2 ^ 32"
    and "unat (conf_n c) < 2 ^ 32" "unat (conf_k c) + unat (conf_n c) \<le> 2 ^ 32"
  shows "\<exists>G. (\<forall>g. (\<exists>m \<in> set (conf_pred c). unat (gid m) = g) \<longleftrightarrow> g < G)
    \<and> conf_n c \<noteq> 0 \<and> unat (conf_k c) \<le> G
    \<and> (\<forall>pred. \<exists>g. BelongsTo fp c pred = Inr g
          \<and> (unat g < G \<or> unat (conf_k c) \<le> unat g \<and> unat g < unat (conf_k c) + unat (conf_n c)))"
proof -
  have n: "conf_n c \<noteq> 0"
    and loop: "parseConfig_loop (fst (scanner_lines f)) 0 False zero_config = Inr c"
    using assms(1) by (auto simp: ParseGroupConfig_def parseConfig_def go_simps split: prod.splits if_splits)
  have "conf_inv (unat (0 :: u64)) zero_config" "k_inv (unat (0 :: u64)) zero_config"
    by (simp_all add: conf_inv_def k_inv_def zero_config_def)
  from parseConfig_loop_inv [OF loop this] assms(2)
  obtain G where G: "conf_inv G c" "k_inv G c" by auto
  have "\<exists>g. BelongsTo fp c pred = Inr g
      \<and> (unat g < G \<or> unat (conf_k c) \<le> unat g \<and> unat g < unat (conf_k c) + unat (conf_n c))" for pred
  proof (cases "belongs_loop (conf_pred c) pred")
    case (Some g)
    then have "unat g < G" using belongs_loop_Some [OF Some] G(1) by (auto simp: conf_inv_def)
    with Some show ?thesis by (simp add: BelongsTo_def)
  next
    case None
    obtain g where "fpGroup fp c pred = Inr g"
      "unat g = unat (fp pred) mod unat (conf_n c) + unat (conf_k c)"
      by (rule fpGroup_range [OF assms(3) n assms(4)])
    moreover have "0 < unat (conf_n c)" using n by (simp add: unat_gt_0)
    ultimately show ?thesis using None by (simp add: BelongsTo_def)
  qed
  with G n show ?thesis by (intro exI [of _ G]) (auto simp: conf_inv_def k_inv_def)
qed

definition sample_conf :: bytes where
  "sample_conf = ''0: name, friend*'' @ [CHR 0x0A] @ ''// rest'' @ [CHR 0x0A] @ ''default: fp % 2 + 1''"


end
