(* ===== verification/Uid_Assign.thy ===== *)
theory Uid_Assign
  imports Posting_List
begin

text \<open>
  The assignment of new uids, \<^verbatim>\<open>uid/assigner.go\<close>: the lock manager, which remembers the uids
  handed out during the last minute, and the loop that draws random numbers until one is free.
  The draws are an input, the list of the fingerprints of successive random buffers; the loop
  returns \<open>None\<close> when it still runs after the last of them. Results: a uid returned lies in the range
  of the instance, is neither reserved nor remembered nor allocated; the uids of one request are
  distinct; the ranges of the instances are disjoint; the loop returns as soon as a usable number
  is drawn.
\<close>

section \<open>The lock manager\<close>

type_synonym lock_manager = "u64 \<rightharpoonup> int"

definition isNew :: "int \<Rightarrow> lock_manager \<Rightarrow> u64 \<Rightarrow> bool \<times> lock_manager" where
  "isNew now lm uid = (if lm uid \<noteq> None then (False, lm) else (True, lm(uid \<mapsto> now)))"

text \<open>One tick of the cleaner, with the time in nanoseconds.\<close>

definition minute :: int where
  "minute = 60000000000"

definition clean :: "int \<Rightarrow> lock_manager \<Rightarrow> lock_manager" where
  "clean now lm = (\<lambda>uid. case lm uid of
     None \<Rightarrow> None | Some ts \<Rightarrow> if now - ts > minute then None else Some ts)"

section \<open>Allocation\<close>

text \<open>\<open>len\<close> gives the length of the posting list under a key.\<close>

fun allocate_loop ::
  "(bytes \<Rightarrow> int) \<Rightarrow> int \<Rightarrow> u64 \<Rightarrow> u64 \<Rightarrow> lock_manager \<Rightarrow> u64 list
     \<Rightarrow> (u64 \<times> lock_manager \<times> u64 list) option" where
  "allocate_loop len now md minIdx lm [] = None"
| "allocate_loop len now md minIdx lm (uidb # draws) =
     (let uid = uidb mod md + minIdx in
      if uid = maxUint64 then allocate_loop len now md minIdx lm draws
      else
        case isNew now lm uid of (new, lm') \<Rightarrow>
          if \<not> new then allocate_loop len now md minIdx lm' draws
          else if len (Key uid ''_uid_'') = 0 then Some (uid, lm', draws)
          else allocate_loop len now md minIdx lm' draws)"

definition allocateUniqueUid ::
  "(bytes \<Rightarrow> int) \<Rightarrow> int \<Rightarrow> u64 \<Rightarrow> u64 \<Rightarrow> lock_manager \<Rightarrow> u64 list
     \<Rightarrow> (u64 \<times> lock_manager \<times> u64 list) option go" where
  "allocateUniqueUid len now instanceIdx numInstances lm draws =
     (if numInstances = 0 then Inl (Panic ''integer divide by zero'')
      else
        let md = maxUint64 div numInstances; minIdx = instanceIdx * md in
        Inr (allocate_loop len now md minIdx lm draws))"

definition assign_edge :: "u64 \<Rightarrow> edge" where
  "assign_edge uid = \<lparr> Entity = uid, Attr = ''_uid_'', EValue = Some ''_'', ValueType = 0,
     ValueId = 0, ELabel = ''_assigner_'' \<rparr>"

fun AssignNew ::
  "(bytes \<Rightarrow> int) \<Rightarrow> int \<Rightarrow> nat \<Rightarrow> u64 \<Rightarrow> u64 \<Rightarrow> lock_manager \<Rightarrow> u64 list
     \<Rightarrow> (edge list \<times> lock_manager \<times> u64 list) option go" where
  "AssignNew len now 0 instanceIdx numInstances lm draws = Inr (Some ([], lm, draws))"
| "AssignNew len now (Suc N) instanceIdx numInstances lm draws =
     (case allocateUniqueUid len now instanceIdx numInstances lm draws of
        Inl e \<Rightarrow> Inl e
      | Inr None \<Rightarrow> Inr None
      | Inr (Some (uid, lm', draws')) \<Rightarrow>
          (case AssignNew len now N instanceIdx numInstances lm' draws' of
             Inl e \<Rightarrow> Inl e
           | Inr None \<Rightarrow> Inr None
           | Inr (Some (set', lm'', draws'')) \<Rightarrow> Inr (Some (assign_edge uid # set', lm'', draws''))))"

section \<open>Lemmas\<close>

text \<open>The range of an instance.\<close>

definition instance_range :: "u64 \<Rightarrow> u64 \<Rightarrow> nat set" where
  "instance_range idx num =
     {unat idx * (unat maxUint64 div unat num) ..< Suc (unat idx) * (unat maxUint64 div unat num)}"

lemma unat_max: "unat maxUint64 = 2 ^ 64 - 1"
  by (simp add: maxUint64_def unsigned_minus_1_eq_mask mask_eq_exp_minus_1)

lemma unat_div_max: "unat (maxUint64 div num) = unat maxUint64 div unat num"
  by (rule unat_div_distrib)

lemma range_bound:
  assumes "idx < num"
  shows "Suc (unat idx) * (unat maxUint64 div unat num) \<le> unat maxUint64"
proof -
  have "Suc (unat idx) \<le> unat num" using assms by (simp add: word_less_nat_alt Suc_le_eq)
  then have "Suc (unat idx) * (unat maxUint64 div unat num) \<le> unat num * (unat maxUint64 div unat num)"
    by (rule mult_le_mono1)
  also have "\<dots> \<le> unat maxUint64" by (rule times_div_less_eq_dividend)
  finally show ?thesis .
qed

lemma md_pos: "(num :: u64) \<noteq> 0 \<Longrightarrow> 0 < unat maxUint64 div unat num"
proof -
  assume "num \<noteq> 0"
  then have "0 < unat num" by (simp add: unat_gt_0)
  moreover have "num \<le> maxUint64" by (simp add: maxUint64_def word_order.extremum)
  then have "unat num \<le> unat maxUint64" by (simp only: word_le_nat_alt)
  ultimately show ?thesis by (simp add: div_greater_zero_iff)
qed

lemma draw_in_range:
  assumes "idx < num"
  defines "md \<equiv> maxUint64 div num"
  shows "unat (uidb mod md + idx * md) \<in> instance_range idx num"
proof -
  let ?M = "unat maxUint64 div unat num"
  have num: "num \<noteq> 0" using assms(1) by auto
  have md: "unat md = ?M" by (simp add: md_def unat_div_max)
  have max: "unat maxUint64 < 2 ^ 64" by (simp add: unat_max)
  have "unat idx * ?M + ?M \<le> unat maxUint64" using range_bound [OF assms(1)] by (simp add: add.commute)
  then have "unat idx * ?M < 2 ^ 64" using max by linarith
  then have min: "unat (idx * md) = unat idx * ?M"
    unfolding unat_word_ariths(2) md by simp
  have r: "unat (uidb mod md) = unat uidb mod ?M" by (simp add: unat_mod_distrib md)
  have lt: "unat uidb mod ?M < ?M" using md_pos [OF num] by simp
  then have "unat (uidb mod md) + unat (idx * md) < 2 ^ 64"
    using range_bound [OF assms(1)] max by (simp add: r min)
  then have "unat (uidb mod md + idx * md) = unat uidb mod ?M + unat idx * ?M"
    unfolding unat_word_ariths(1) by (simp add: r min)
  with lt show ?thesis by (simp add: instance_range_def)
qed

lemma ranges_disjoint:
  assumes "idx \<noteq> idx'"
  shows "instance_range idx num \<inter> instance_range idx' num = {}"
proof -
  have disj: "{a * M ..< Suc a * M} \<inter> {b * M ..< Suc b * M} = {}" if "a < b" for a b M :: nat
  proof -
    have "Suc a * M \<le> b * M" using that by (intro mult_le_mono1) simp
    then show ?thesis by auto
  qed
  have "unat idx < unat idx' \<or> unat idx' < unat idx" using assms by (metis linorder_neqE_nat word_unat_eq_iff)
  then show ?thesis unfolding instance_range_def
    using disj [of "unat idx" "unat idx'"] disj [of "unat idx'" "unat idx"] by blast
qed

lemma allocate_loop_spec:
  assumes "allocate_loop len now md minIdx lm draws = Some (uid, lm', draws')"
  shows "\<exists>uidb \<in> set draws. uid = uidb mod md + minIdx" "uid \<noteq> maxUint64" "lm uid = None"
    "lm' uid = Some now" "dom lm \<subseteq> dom lm'" "len (Key uid ''_uid_'') = 0"
proof -
  have "(\<exists>uidb \<in> set draws. uid = uidb mod md + minIdx) \<and> uid \<noteq> maxUint64 \<and> lm uid = None
      \<and> lm' uid = Some now \<and> dom lm \<subseteq> dom lm' \<and> len (Key uid ''_uid_'') = 0"
    using assms
  proof (induction draws arbitrary: lm)
    case (Cons uidb draws)
    let ?u = "uidb mod md + minIdx"
    consider "?u = maxUint64 \<or> lm ?u \<noteq> None" "allocate_loop len now md minIdx lm draws = Some (uid, lm', draws')"
      | "?u \<noteq> maxUint64" "lm ?u = None" "len (Key ?u ''_uid_'') = 0" "uid = ?u" "lm' = lm(?u \<mapsto> now)"
      | "?u \<noteq> maxUint64" "lm ?u = None"
        "allocate_loop len now md minIdx (lm(?u \<mapsto> now)) draws = Some (uid, lm', draws')"
      using Cons.prems by (auto simp: Let_def isNew_def split: if_splits)
    then show ?case
    proof cases
      case 1
      then show ?thesis using Cons.IH [of lm] by auto
    next
      case 2
      then show ?thesis by auto
    next
      case 3
      note IH = Cons.IH [OF 3(3)]
      have "dom lm \<subseteq> dom (lm(?u \<mapsto> now))" by auto
      with IH have "dom lm \<subseteq> dom lm'" by (meson subset_trans)
      moreover have "lm uid = None" using IH by (auto split: if_splits)
      ultimately show ?thesis using IH by auto
    qed
  qed simp
  then show "\<exists>uidb \<in> set draws. uid = uidb mod md + minIdx" "uid \<noteq> maxUint64" "lm uid = None"
    "lm' uid = Some now" "dom lm \<subseteq> dom lm'" "len (Key uid ''_uid_'') = 0" by auto
qed

lemma allocate_loop_returns:
  assumes "uidb \<in> set draws" "uidb mod md + minIdx \<noteq> maxUint64" "lm (uidb mod md + minIdx) = None"
    "len (Key (uidb mod md + minIdx) ''_uid_'') = 0"
  shows "allocate_loop len now md minIdx lm draws \<noteq> None"
  using assms
proof (induction draws arbitrary: lm)
  case (Cons d draws)
  let ?u = "uidb mod md + minIdx" and ?d = "d mod md + minIdx"
  have tail: "allocate_loop len now md minIdx lm' draws \<noteq> None"
    if "uidb \<in> set draws" "lm' ?u = None" for lm'
    using Cons.IH [of lm', OF that(1) Cons.prems(2) that(2) Cons.prems(4)] .
  show ?case
  proof (cases "?d = ?u")
    case True
    then show ?thesis using Cons.prems by (simp add: Let_def isNew_def)
  next
    case False
    then have mem: "uidb \<in> set draws" using Cons.prems(1) by auto
    have "(lm(?d \<mapsto> now)) ?u = None" using False Cons.prems(3) by simp
    from tail [of "lm(?d \<mapsto> now)", OF mem this] tail [of lm, OF mem Cons.prems(3)] show ?thesis
      by (simp add: Let_def isNew_def)
  qed
qed simp

lemma AssignNew_spec:
  assumes "AssignNew len now N idx num lm draws = Inr (Some (es, lm', draws'))" "N = 0 \<or> idx < num"
  shows "length es = N \<and> distinct (map Entity es) \<and> dom lm \<subseteq> dom lm'
    \<and> (\<forall>e \<in> set es. unat (Entity e) \<in> instance_range idx num \<and> Entity e \<noteq> maxUint64
         \<and> lm (Entity e) = None \<and> lm' (Entity e) \<noteq> None \<and> len (Key (Entity e) ''_uid_'') = 0)"
  using assms
proof (induction N arbitrary: lm draws es)
  case (Suc N)
  then have lt: "idx < num" by simp
  then have "num \<noteq> 0" by auto
  with Suc.prems(1) obtain uid lm1 ds es1 where
    a: "allocate_loop len now (maxUint64 div num) (idx * (maxUint64 div num)) lm draws = Some (uid, lm1, ds)"
    and r: "AssignNew len now N idx num lm1 ds = Inr (Some (es1, lm', draws'))"
    and es: "es = assign_edge uid # es1"
    by (auto simp: allocateUniqueUid_def Let_def split: sum.splits option.splits)
  note sp = allocate_loop_spec [OF a]
  have IH: "length es1 = N \<and> distinct (map Entity es1) \<and> dom lm1 \<subseteq> dom lm'
    \<and> (\<forall>e \<in> set es1. unat (Entity e) \<in> instance_range idx num \<and> Entity e \<noteq> maxUint64
         \<and> lm1 (Entity e) = None \<and> lm' (Entity e) \<noteq> None \<and> len (Key (Entity e) ''_uid_'') = 0)"
    using Suc.IH [OF r] lt by simp
  have range: "unat uid \<in> instance_range idx num" using sp(1) draw_in_range [OF lt] by blast
  have uid: "uid \<in> dom lm1" "uid \<in> dom lm'" using sp(4) IH by (auto simp: domIff)
  have fresh: "lm (Entity e) = None" "Entity e \<noteq> uid" if "e \<in> set es1" for e
  proof -
    have "lm1 (Entity e) = None" using IH that by blast
    then have "Entity e \<notin> dom lm1" by (simp add: domIff)
    then show "lm (Entity e) = None" "Entity e \<noteq> uid" using sp(5) uid by (auto simp: domIff)
  qed
  have "dom lm \<subseteq> dom lm'" using sp(5) IH by (meson subset_trans)
  with sp(2,3,6) IH range uid fresh show ?case
    unfolding es by (auto simp: assign_edge_def domIff)
qed simp

section \<open>Properties\<close>

text \<open>
  C12: The uids that one request gets are distinct, lie in the range of the instance that serves
  it, are not the reserved one, were neither remembered by the lock manager nor have a posting
  list, and are remembered afterwards. Ranges of different instances are disjoint, so that
  instances never hand out the same uid.
\<close>

theorem assigned_uids_unique:
  assumes "AssignNew len now N idx num lm draws = Inr (Some (es, lm', draws'))" "idx < num"
  shows "length es = N \<and> distinct (map Entity es)
    \<and> (\<forall>e \<in> set es. unat (Entity e) \<in> instance_range idx num \<and> Entity e \<noteq> maxUint64
         \<and> lm (Entity e) = None \<and> lm' (Entity e) \<noteq> None \<and> len (Key (Entity e) ''_uid_'') = 0)
    \<and> (\<forall>idx'. idx' \<noteq> idx \<longrightarrow> instance_range idx num \<inter> instance_range idx' num = {})"
  using AssignNew_spec [OF assms(1) disjI2 [OF assms(2)]] by (auto simp: ranges_disjoint)

theorem assigned_uids_unique_witness:
  "\<exists>es lm'. AssignNew (\<lambda>_. 0) 5 2 1 4 Map.empty [7, 7, 9] = Inr (Some (es, lm', []))
    \<and> length es = 2 \<and> distinct (map Entity es)
    \<and> (\<forall>e \<in> set es. unat (Entity e) \<in> instance_range 1 4)"
proof -
  obtain es lm' where run: "AssignNew (\<lambda>_. 0) 5 2 1 4 Map.empty [7, 7, 9] = Inr (Some (es, lm', []))"
  proof -
    have "(case AssignNew (\<lambda>_. 0) 5 2 1 4 Map.empty [7, 7, 9] of
        Inr (Some (es, lm', ds)) \<Rightarrow> ds = [] | _ \<Rightarrow> False)"
      by code_simp
    then show thesis using that by (auto split: sum.splits option.splits)
  qed
  have "(1 :: u64) < 4" by simp
  from assigned_uids_unique [OF run this] run show ?thesis by blast
qed

text \<open>
  The allocation loop ends as soon as a draw maps to a uid that is not reserved, not
  remembered and without a posting list; how many unusable draws come before does not matter.
\<close>

lemma allocation_returns:
  assumes "num \<noteq> 0" "uidb \<in> set draws"
    and "uid = uidb mod (maxUint64 div num) + idx * (maxUint64 div num)"
    and "uid \<noteq> maxUint64" "lm uid = None" "len (Key uid ''_uid_'') = 0"
  shows "\<exists>r. allocateUniqueUid len now idx num lm draws = Inr (Some r)"
  using allocate_loop_returns [OF assms(2), of "maxUint64 div num" "idx * (maxUint64 div num)" lm len now]
    assms by (auto simp: allocateUniqueUid_def Let_def)

text \<open>The first instance can hand out uid 0, which a mutation rejects as a value.\<close>

lemma uid_zero_allocated:
  "\<exists>lm'. allocateUniqueUid (\<lambda>_. 0) 5 0 1 Map.empty [0] = Inr (Some (0, lm', []))"
  by (simp add: allocateUniqueUid_def isNew_def maxUint64_def)

end
