(* ===== verification/Raft_Wal.thy ===== *)
theory Raft_Wal
  imports Kv_Store Go_Binary
begin

text \<open>
  The write-ahead log of a Raft node, \<^verbatim>\<open>raftwal/wal.go\<close>: snapshots, hard states and entries of
  all groups share one store, under keys that start with the id of the node. The messages of
  \<^verbatim>\<open>raftpb\<close> belong to etcd: their encoders and decoders are parameters, and of an entry only its
  term and index matter here. Results: keys order entries by term and then index; storing entries
  overwrites them and removes what follows the last one in that order; reading returns them in
  order; snapshot and hard state are read back. The order is not that of the index alone, so
  entries of an older term with higher indices survive.
\<close>

section \<open>Keys\<close>

definition snapshotKey :: "u64 \<Rightarrow> u32 \<Rightarrow> bytes" where
  "snapshotKey wid gid = BigEndian_PutUint64 wid @ ''ss'' @ BigEndian_PutUint32 gid"

definition hardStateKey :: "u64 \<Rightarrow> u32 \<Rightarrow> bytes" where
  "hardStateKey wid gid = BigEndian_PutUint64 wid @ ''hs'' @ BigEndian_PutUint32 gid"

definition entryKey :: "u64 \<Rightarrow> u32 \<Rightarrow> u64 \<Rightarrow> u64 \<Rightarrow> bytes" where
  "entryKey wid gid term idx = BigEndian_PutUint64 wid @ BigEndian_PutUint32 gid
     @ BigEndian_PutUint64 term @ BigEndian_PutUint64 idx"

definition wal_prefix :: "u64 \<Rightarrow> u32 \<Rightarrow> bytes" where
  "wal_prefix wid gid = BigEndian_PutUint64 wid @ BigEndian_PutUint32 gid"

section \<open>Operations\<close>

record raft_entry =
  Term :: u64
  Index :: u64
  Data :: bytes

text \<open>The encoders and decoders of the three messages, and the tests for empty ones.\<close>

record ('s, 'h) raftpb =
  isEmptySnap :: "'s \<Rightarrow> bool"
  marshalSnap :: "'s \<Rightarrow> bytes go"
  unmarshalSnap :: "bytes \<Rightarrow> 's go"
  isEmptyHard :: "'h \<Rightarrow> bool"
  marshalHard :: "'h \<Rightarrow> bytes go"
  unmarshalHard :: "bytes \<Rightarrow> 'h go"
  marshalEntry :: "raft_entry \<Rightarrow> bytes go"
  unmarshalEntry :: "bytes \<Rightarrow> raft_entry go"

text \<open>The loop over the entries: the writes, and the term and index of the last entry.\<close>

fun entry_puts :: "(raft_entry \<Rightarrow> bytes go) \<Rightarrow> u64 \<Rightarrow> u32 \<Rightarrow> raft_entry list \<Rightarrow> u64 \<times> u64
    \<Rightarrow> (batch_op list \<times> u64 \<times> u64) go" where
  "entry_puts mE wid gid [] (t, i) = Inr ([], t, i)"
| "entry_puts mE wid gid (e # es) (t, i) =
     (case mE e of
        Inl err \<Rightarrow> Inl err
      | Inr data \<Rightarrow>
          (case entry_puts mE wid gid es (Term e, Index e) of
             Inl err \<Rightarrow> Inl err
           | Inr (ops, r) \<Rightarrow> Inr (Batch_Put (entryKey wid gid (Term e) (Index e)) data # ops, r)))"

definition wal_Store ::
  "('s, 'h) raftpb \<Rightarrow> u64 \<Rightarrow> store \<Rightarrow> u32 \<Rightarrow> 's \<Rightarrow> 'h \<Rightarrow> raft_entry list \<Rightarrow> store go" where
  "wal_Store pb wid wals gid s h es =
     go_bind (if isEmptySnap pb s then Inr []
              else go_bind (marshalSnap pb s) (\<lambda>data. Inr [Batch_Put (snapshotKey wid gid) data]))
     (\<lambda>b1.
     go_bind (if isEmptyHard pb h then Inr []
              else go_bind (marshalHard pb h) (\<lambda>data. Inr [Batch_Put (hardStateKey wid gid) data]))
     (\<lambda>b2.
     go_bind (entry_puts (marshalEntry pb) wid gid es (0, 0)) (\<lambda>(b3, t, i).
       let b4 = (if t > 0 \<or> i > 0
                 then map (\<lambda>e. Batch_Delete (fst e))
                        (store_scan wals (entryKey wid gid t (i + 1)) (wal_prefix wid gid))
                 else [])
       in store_WriteBatch wals (b1 @ b2 @ b3 @ b4))))"

definition wal_Snapshot :: "('s, 'h) raftpb \<Rightarrow> u64 \<Rightarrow> store \<Rightarrow> u32 \<Rightarrow> 's go" where
  "wal_Snapshot pb wid wals gid = go_bind (store_Get wals (snapshotKey wid gid)) (unmarshalSnap pb)"

definition wal_HardState :: "('s, 'h) raftpb \<Rightarrow> u64 \<Rightarrow> store \<Rightarrow> u32 \<Rightarrow> 'h go" where
  "wal_HardState pb wid wals gid = go_bind (store_Get wals (hardStateKey wid gid)) (unmarshalHard pb)"

fun decode_entries :: "(bytes \<Rightarrow> raft_entry go) \<Rightarrow> kv \<Rightarrow> raft_entry list go" where
  "decode_entries uE [] = Inr []"
| "decode_entries uE (kvp # kvs) =
     (case uE (snd kvp) of
        Inl err \<Rightarrow> Inl err
      | Inr e \<Rightarrow> (case decode_entries uE kvs of Inl err \<Rightarrow> Inl err | Inr es \<Rightarrow> Inr (e # es)))"

definition wal_Entries ::
  "('s, 'h) raftpb \<Rightarrow> u64 \<Rightarrow> store \<Rightarrow> u32 \<Rightarrow> u64 \<Rightarrow> u64 \<Rightarrow> raft_entry list go" where
  "wal_Entries pb wid wals gid fromTerm fromIndex =
     decode_entries (unmarshalEntry pb)
       (store_scan wals (entryKey wid gid fromTerm fromIndex) (wal_prefix wid gid))"

section \<open>Lemmas on keys\<close>

lemma entryKey_less:
  "entryKey wid gid t i < entryKey wid gid t' i' \<longleftrightarrow> t < t' \<or> t = t' \<and> i < i'"
  by (simp add: entryKey_def less_append_eq_length BigEndian_PutUint64_less BigEndian_PutUint64_inj)

lemma entryKey_inj [simp]:
  "entryKey wid gid t i = entryKey wid' gid' t' i' \<longleftrightarrow> wid = wid' \<and> gid = gid' \<and> t = t' \<and> i = i'"
  by (simp add: entryKey_def BigEndian_PutUint64_inj BigEndian_PutUint32_inj)

lemma prefix_entryKey [simp]: "prefix (wal_prefix wid gid) (entryKey wid gid t i)"
  by (simp add: entryKey_def wal_prefix_def)

lemma key_lengths [simp]:
  "length (entryKey wid gid t i) = 28" "length (snapshotKey wid gid) = 14"
  "length (hardStateKey wid gid) = 14" "length (wal_prefix wid gid) = 12"
  by (simp_all add: entryKey_def snapshotKey_def hardStateKey_def wal_prefix_def)

lemma neq_length: "length xs \<noteq> length ys \<Longrightarrow> xs \<noteq> ys"
  by blast

lemma entryKey_other_keys [simp]:
  "entryKey wid gid t i \<noteq> snapshotKey wid' gid'" "entryKey wid gid t i \<noteq> hardStateKey wid' gid'"
  by (rule neq_length, simp)+

lemma snapshot_hard_distinct [simp]: "snapshotKey wid gid \<noteq> hardStateKey wid' gid'"
  by (simp add: snapshotKey_def hardStateKey_def)

text \<open>The keys of small groups do not share the prefix of snapshots or hard states.\<close>

lemma be_nat_hd_zero: "x < 256 ^ n \<Longrightarrow> \<exists>r. be_nat (Suc n) x = CHR 0x00 # r"
proof (induction n arbitrary: x)
  case 0
  then show ?case by (simp add: be_nat_def char_of_def)
next
  case (Suc n)
  then have "x div 256 < 256 ^ n" by (simp add: less_mult_imp_div_less mult.commute)
  from Suc.IH [OF this] show ?case by (subst be_nat_Suc) auto
qed

lemma prefix_append_eq_length:
  "length a = length c \<Longrightarrow> prefix (a @ b) (c @ d) \<longleftrightarrow> a = c \<and> prefix b d"
  by (auto simp: prefix_def)

lemma prefix_small_group:
  assumes "unat gid < 2 ^ 16"
  shows "\<not> prefix (wal_prefix wid gid) (snapshotKey wid' gid')"
    "\<not> prefix (wal_prefix wid gid) (hardStateKey wid' gid')"
proof -
  have "unat gid < 256 ^ 3" using assms by simp
  from be_nat_hd_zero [OF this] obtain r where "be_nat (Suc 3) (unat gid) = CHR 0x00 # r" by blast
  then have r: "BigEndian_PutUint32 gid = CHR 0x00 # r" by (simp add: BigEndian_PutUint32_def)
  show "\<not> prefix (wal_prefix wid gid) (snapshotKey wid' gid')"
    "\<not> prefix (wal_prefix wid gid) (hardStateKey wid' gid')"
    by (simp_all add: wal_prefix_def snapshotKey_def hardStateKey_def prefix_append_eq_length r)
qed

section \<open>The effect of a batch\<close>

fun batch_effect :: "batch_op list \<Rightarrow> (bytes \<rightharpoonup> bytes) \<Rightarrow> (bytes \<rightharpoonup> bytes)" where
  "batch_effect [] m = m"
| "batch_effect (Batch_Put k v # ops) m = batch_effect ops (m(k \<mapsto> v))"
| "batch_effect (Batch_Delete k # ops) m = batch_effect ops (m(k := None))"

lemma batch_apply_effect:
  "kv_invar es \<Longrightarrow> kv_invar (batch_apply ops es) \<and> map_of (batch_apply ops es) = batch_effect ops (map_of es)"
proof (induction ops arbitrary: es)
  case (Cons op ops)
  then show ?case
    by (cases op) (simp_all add: kv.invar_put kv.invar_delete kv.lookup_put kv.lookup_delete fun_upd_def)
qed simp

lemma batch_effect_append: "batch_effect (a @ b) m = batch_effect b (batch_effect a m)"
proof (induction a arbitrary: m)
  case (Cons op a)
  then show ?case by (cases op) (simp_all add: fun_upd_def)
qed simp

lemma batch_effect_deletes:
  "batch_effect (map (\<lambda>e. Batch_Delete (fst e)) es) m k = (if k \<in> fst ` set es then None else m k)"
  by (induction es arbitrary: m) auto

text \<open>The laws of the messages that the log relies on.\<close>

definition raftpb_ok :: "('s, 'h) raftpb \<Rightarrow> bool" where
  "raftpb_ok pb \<longleftrightarrow>
     (\<forall>e. \<exists>d. marshalEntry pb e = Inr d \<and> unmarshalEntry pb d = Inr e)
     \<and> (\<forall>s. \<exists>d. marshalSnap pb s = Inr d \<and> unmarshalSnap pb d = Inr s)
     \<and> (\<forall>h. \<exists>d. marshalHard pb h = Inr d \<and> unmarshalHard pb d = Inr h)"

definition enc :: "('s, 'h) raftpb \<Rightarrow> raft_entry \<Rightarrow> bytes" where
  "enc pb e = projr (marshalEntry pb e)"

lemma raftpb_ok_entry:
  assumes "raftpb_ok pb"
  shows "marshalEntry pb e = Inr (enc pb e)" "unmarshalEntry pb (enc pb e) = Inr e"
  using assms unfolding raftpb_ok_def enc_def by (metis sum.sel(2))+

definition last_pos :: "raft_entry list \<Rightarrow> u64 \<times> u64 \<Rightarrow> u64 \<times> u64" where
  "last_pos es p = (if es = [] then p else (Term (last es), Index (last es)))"

lemma entry_puts_eq:
  assumes "raftpb_ok pb"
  shows "entry_puts (marshalEntry pb) wid gid es p =
    Inr (map (\<lambda>e. Batch_Put (entryKey wid gid (Term e) (Index e)) (enc pb e)) es, last_pos es p)"
proof (induction es arbitrary: p)
  case Nil
  show ?case by (cases p) (simp add: last_pos_def)
next
  case (Cons e es)
  obtain t i where p: "p = (t, i)" by (cases p)
  have h: "marshalEntry pb e = Inr (enc pb e)" by (rule raftpb_ok_entry [OF assms])
  show ?case unfolding p entry_puts.simps h by (simp add: Cons.IH last_pos_def)
qed

definition pos :: "raft_entry \<Rightarrow> u64 \<times> u64" where
  "pos e = (Term e, Index e)"

definition lex_less :: "u64 \<times> u64 \<Rightarrow> u64 \<times> u64 \<Rightarrow> bool" where
  "lex_less a b \<longleftrightarrow> fst a < fst b \<or> fst a = fst b \<and> snd a < snd b"

lemma batch_effect_entry_puts:
  assumes "sorted_wrt lex_less (map pos es)"
  shows "batch_effect (map (\<lambda>e. Batch_Put (entryKey wid gid (Term e) (Index e)) (enc pb e)) es) m k =
    (case find (\<lambda>e. entryKey wid gid (Term e) (Index e) = k) es of Some e \<Rightarrow> Some (enc pb e) | None \<Rightarrow> m k)"
  using assms
proof (induction es arbitrary: m)
  case (Cons e es)
  have "find (\<lambda>e'. entryKey wid gid (Term e') (Index e') = entryKey wid gid (Term e) (Index e)) es = None"
    using Cons.prems by (auto simp: find_None_iff pos_def lex_less_def)
  with Cons show ?case by (auto split: option.splits)
qed simp

definition log_at :: "('s, 'h) raftpb \<Rightarrow> u64 \<Rightarrow> u32 \<Rightarrow> store \<Rightarrow> u64 \<times> u64 \<Rightarrow> raft_entry option" where
  "log_at pb wid gid s p =
     (case map_of (entries s) (entryKey wid gid (fst p) (snd p)) of
        None \<Rightarrow> None
      | Some d \<Rightarrow> (case unmarshalEntry pb d of Inl _ \<Rightarrow> None | Inr e \<Rightarrow> Some e))"

text \<open>The writes for snapshot and hard state.\<close>

definition state_puts :: "('s, 'h) raftpb \<Rightarrow> u64 \<Rightarrow> u32 \<Rightarrow> 's \<Rightarrow> 'h \<Rightarrow> batch_op list" where
  "state_puts pb wid gid s h =
     (if isEmptySnap pb s then [] else [Batch_Put (snapshotKey wid gid) (projr (marshalSnap pb s))])
     @ (if isEmptyHard pb h then [] else [Batch_Put (hardStateKey wid gid) (projr (marshalHard pb h))])"

lemma wal_Store_eq:
  assumes ok: "raftpb_ok pb" and w: "\<not> readOnly wals" and "last_pos es (0, 0) = (t, i)"
  shows "wal_Store pb wid wals gid s h es = Inr (wals\<lparr>entries := batch_apply
    (state_puts pb wid gid s h
     @ map (\<lambda>e. Batch_Put (entryKey wid gid (Term e) (Index e)) (enc pb e)) es
     @ (if t > 0 \<or> i > 0 then map (\<lambda>e. Batch_Delete (fst e))
          (store_scan wals (entryKey wid gid t (i + 1)) (wal_prefix wid gid)) else [])) (entries wals)\<rparr>)"
proof -
  obtain ds where "marshalSnap pb s = Inr ds" using ok unfolding raftpb_ok_def by blast
  moreover obtain dh where "marshalHard pb h = Inr dh" using ok unfolding raftpb_ok_def by blast
  ultimately show ?thesis
    by (simp add: wal_Store_def entry_puts_eq [OF ok] assms(3) state_puts_def store_WriteBatch_def w)
qed

section \<open>What Store leaves in the log\<close>

lemma state_puts_entryKey:
  "batch_effect (state_puts pb wid gid s h) m (entryKey wid' gid' t i) = m (entryKey wid' gid' t i)"
  by (simp add: state_puts_def)

lemma scan_keys:
  assumes "kv_invar (entries w)"
  shows "k \<in> fst ` set (store_scan w (entryKey wid gid t i) (wal_prefix wid gid)) \<longleftrightarrow>
    entryKey wid gid t i \<le> k \<and> prefix (wal_prefix wid gid) k \<and> map_of (entries w) k \<noteq> None"
  unfolding store_scan_def kv.scan_set [OF assms prefix_entryKey] by force

definition wal_batch ::
  "('s, 'h) raftpb \<Rightarrow> u64 \<Rightarrow> store \<Rightarrow> u32 \<Rightarrow> 's \<Rightarrow> 'h \<Rightarrow> raft_entry list \<Rightarrow> batch_op list" where
  "wal_batch pb wid w gid s h es =
     state_puts pb wid gid s h
     @ map (\<lambda>e. Batch_Put (entryKey wid gid (Term e) (Index e)) (enc pb e)) es
     @ map (\<lambda>e. Batch_Delete (fst e))
         (store_scan w (entryKey wid gid (Term (last es)) (Index (last es) + 1)) (wal_prefix wid gid))"

lemma wal_Store_batch:
  assumes "raftpb_ok pb" "\<not> readOnly w" "es \<noteq> []" "Index (last es) \<noteq> 0"
  shows "wal_Store pb wid w gid s h es = Inr (w\<lparr>entries := batch_apply (wal_batch pb wid w gid s h es) (entries w)\<rparr>)"
proof -
  have "last_pos es (0, 0) = (Term (last es), Index (last es))" using assms(3) by (simp add: last_pos_def)
  moreover have "0 < Index (last es)" using assms(4) by (simp add: word_neq_0_conv)
  ultimately show ?thesis
    by (simp only: wal_Store_eq [OF assms(1,2)] wal_batch_def if_True simp_thms)
qed

lemma wal_batch_effect:
  assumes inv: "kv_invar (entries w)" and srt: "sorted_wrt lex_less (map pos es)"
  shows "map_of (batch_apply (wal_batch pb wid w gid s h es) (entries w)) k =
    (if k \<in> fst ` set (store_scan w (entryKey wid gid (Term (last es)) (Index (last es) + 1)) (wal_prefix wid gid))
     then None
     else case find (\<lambda>e. entryKey wid gid (Term e) (Index e) = k) es of Some e \<Rightarrow> Some (enc pb e)
          | None \<Rightarrow> batch_effect (state_puts pb wid gid s h) (map_of (entries w)) k)"
  by (simp only: conjunct2 [OF batch_apply_effect [OF inv]] wal_batch_def batch_effect_append
      batch_effect_deletes batch_effect_entry_puts [OF srt])

text \<open>The entry that Store puts at a position is that of the list; the position of the last entry
  splits the rest.\<close>

lemma lex_less_last:
  assumes "sorted_wrt lex_less (map pos es)" "e \<in> set es"
  shows "\<not> lex_less (pos (last es)) (pos e)"
proof -
  from assms(2) have ne: "es \<noteq> []" by auto
  then have es: "es = butlast es @ [last es]" by simp
  have "\<forall>x \<in> set (butlast es). lex_less (pos x) (pos (last es))"
    using assms(1) by (subst (asm) es) (simp add: sorted_wrt_append)
  moreover have "e \<in> set (butlast es) \<or> e = last es" using assms(2) by (subst (asm) es) auto
  ultimately show ?thesis by (auto simp: lex_less_def)
qed

lemma succ_le_iff:
  assumes "(i :: u64) \<noteq> - 1"
  shows "entryKey wid gid t (i + 1) \<le> entryKey wid gid t' i' \<longleftrightarrow> lex_less (t, i) (t', i')"
proof -
  have "i + 1 \<le> i' \<longleftrightarrow> i < i'" for i' using assms
    by (simp add: inc_less_eq_iff)
  then show ?thesis unfolding le_less entryKey_less lex_less_def by (auto simp: le_less)
qed

lemma find_pos_eq:
  "find (\<lambda>e. entryKey wid gid (Term e) (Index e) = entryKey wid gid t i) es = find (\<lambda>e. pos e = (t, i)) es"
  by (simp add: pos_def)

lemma store_log_at:
  assumes ok: "raftpb_ok pb" and inv: "kv_invar (entries w)" and srt: "sorted_wrt lex_less (map pos es)"
    and ne: "es \<noteq> []" and mx: "Index (last es) \<noteq> - 1"
  shows "log_at pb wid gid (w\<lparr>entries := batch_apply (wal_batch pb wid w gid s h es) (entries w)\<rparr>) p =
    (if lex_less (pos (last es)) p then None
     else case find (\<lambda>e. pos e = p) es of Some e \<Rightarrow> Some e | None \<Rightarrow> log_at pb wid gid w p)"
proof -
  obtain t i where p: "p = (t, i)" by (cases p)
  let ?k = "entryKey wid gid t i"
  have del: "?k \<in> fst ` set (store_scan w (entryKey wid gid (Term (last es)) (Index (last es) + 1)) (wal_prefix wid gid))
    \<longleftrightarrow> lex_less (pos (last es)) p \<and> map_of (entries w) ?k \<noteq> None"
    unfolding scan_keys [OF inv] succ_le_iff [OF mx] p pos_def by simp
  have fnd: "find (\<lambda>e. pos e = p) es = None" if "lex_less (pos (last es)) p"
    using lex_less_last [OF srt] that by (auto simp: find_None_iff)
  have "map_of (batch_apply (wal_batch pb wid w gid s h es) (entries w)) ?k =
    (if lex_less (pos (last es)) p \<and> map_of (entries w) ?k \<noteq> None then None
     else case find (\<lambda>e. pos e = p) es of Some e \<Rightarrow> Some (enc pb e) | None \<Rightarrow> map_of (entries w) ?k)"
    by (subst wal_batch_effect [OF inv srt]) (simp only: del find_pos_eq state_puts_entryKey p)
  with fnd show ?thesis
    by (auto simp: log_at_def p raftpb_ok_entry [OF ok] split: option.splits)
qed

section \<open>What Entries returns\<close>

text \<open>A well-formed log: every key of the group belongs to the entry stored under it.\<close>

definition wal_ok :: "('s, 'h) raftpb \<Rightarrow> u64 \<Rightarrow> u32 \<Rightarrow> store \<Rightarrow> bool" where
  "wal_ok pb wid gid w \<longleftrightarrow> kv_invar (entries w) \<and>
     (\<forall>k v. map_of (entries w) k = Some v \<longrightarrow> prefix (wal_prefix wid gid) k \<longrightarrow>
        (\<exists>e. unmarshalEntry pb v = Inr e \<and> k = entryKey wid gid (Term e) (Index e)))"

lemma decode_entries_eq:
  assumes "\<forall>p \<in> set ps. \<exists>e. uE (snd p) = Inr e \<and> fst p = entryKey wid gid (Term e) (Index e)"
    "ssorted (map fst ps)"
  shows "\<exists>es. decode_entries uE ps = Inr es \<and> sorted_wrt lex_less (map pos es)
    \<and> set es = {e. \<exists>v. (entryKey wid gid (Term e) (Index e), v) \<in> set ps \<and> uE v = Inr e}"
  using assms
proof (induction ps)
  case (Cons p ps)
  from Cons obtain es where es: "decode_entries uE ps = Inr es" "sorted_wrt lex_less (map pos es)"
    "set es = {e. \<exists>v. (entryKey wid gid (Term e) (Index e), v) \<in> set ps \<and> uE v = Inr e}" by auto
  from Cons.prems(1) obtain e where e: "uE (snd p) = Inr e" "fst p = entryKey wid gid (Term e) (Index e)"
    by auto
  have "lex_less (pos e) (pos e')" if "e' \<in> set es" for e'
  proof -
    from that es(3) obtain v where "(entryKey wid gid (Term e') (Index e'), v) \<in> set ps" by auto
    with Cons.prems(2) have "fst p < entryKey wid gid (Term e') (Index e')" by force
    then show ?thesis unfolding e(2) entryKey_less by (simp add: lex_less_def pos_def)
  qed
  moreover
  have "(entryKey wid gid (Term x) (Index x), v) = p \<and> uE v = Inr x \<longleftrightarrow> x = e \<and> v = snd p" for x v
    using e by (cases p) auto
  then have "set (e # es) = {x. \<exists>v. (entryKey wid gid (Term x) (Index x), v) \<in> set (p # ps) \<and> uE v = Inr x}"
    unfolding list.set(2) insert_iff es(3) by blast
  ultimately show ?case using es(1,2) e(1) by (intro exI [of _ "e # es"]) simp
qed simp

lemma not_lex_less: "\<not> lex_less (t', i') (t, i) \<longleftrightarrow> entryKey wid gid t i \<le> entryKey wid gid t' i'"
  unfolding not_less [symmetric] entryKey_less lex_less_def by simp

lemma log_at_Some:
  "log_at pb wid gid w p = Some e \<longleftrightarrow>
     (\<exists>v. map_of (entries w) (entryKey wid gid (fst p) (snd p)) = Some v \<and> unmarshalEntry pb v = Inr e)"
  by (simp add: log_at_def split: option.splits sum.splits)

lemma entries_listed:
  assumes "wal_ok pb wid gid w"
  shows "\<exists>xs. wal_Entries pb wid w gid t i = Inr xs \<and> sorted_wrt lex_less (map pos xs)
    \<and> set xs = {e. \<not> lex_less (pos e) (t, i) \<and> log_at pb wid gid w (pos e) = Some e}"
proof -
  let ?ps = "store_scan w (entryKey wid gid t i) (wal_prefix wid gid)"
  have inv: "kv_invar (entries w)" using assms by (simp add: wal_ok_def)
  note ps = kv.scan_set [OF inv prefix_entryKey [of wid gid t i], folded store_scan_def]
  have ps1: "\<forall>p \<in> set ?ps. \<exists>e. unmarshalEntry pb (snd p) = Inr e \<and> fst p = entryKey wid gid (Term e) (Index e)"
    using assms unfolding ps wal_ok_def by auto
  have ps2: "ssorted (map fst ?ps)" unfolding store_scan_def by (rule kv.scan_sorted [OF inv])
  have *: "{e. \<exists>v. (entryKey wid gid (Term e) (Index e), v) \<in> set ?ps \<and> unmarshalEntry pb v = Inr e}
    = {e. \<not> lex_less (pos e) (t, i) \<and> log_at pb wid gid w (pos e) = Some e}"
    unfolding ps log_at_Some pos_def not_lex_less [of _ _ t i wid gid] by auto
  show ?thesis unfolding wal_Entries_def using decode_entries_eq [OF ps1 ps2] unfolding * .
qed

lemma state_puts_prefix:
  assumes "unat gid < 2 ^ 16" "prefix (wal_prefix wid gid) k"
  shows "batch_effect (state_puts pb wid' gid' s h) m k = m k"
  using prefix_small_group [OF assms(1), of wid] assms(2)
  by (auto simp: state_puts_def)

lemma wal_Store_ok:
  assumes ok: "raftpb_ok pb" and wok: "wal_ok pb wid gid w" and srt: "sorted_wrt lex_less (map pos es)"
    and gid: "unat gid < 2 ^ 16"
  shows "wal_ok pb wid gid (w\<lparr>entries := batch_apply (wal_batch pb wid w gid s h es) (entries w)\<rparr>)"
proof -
  have inv: "kv_invar (entries w)" using wok by (simp add: wal_ok_def)
  have "\<exists>e. unmarshalEntry pb v = Inr e \<and> k = entryKey wid gid (Term e) (Index e)"
    if m: "map_of (batch_apply (wal_batch pb wid w gid s h es) (entries w)) k = Some v"
      and p: "prefix (wal_prefix wid gid) k" for k v
  proof (cases "find (\<lambda>e. entryKey wid gid (Term e) (Index e) = k) es")
    case None
    with m have "map_of (entries w) k = Some v"
      unfolding wal_batch_effect [OF inv srt] state_puts_prefix [OF gid p] by (simp split: if_splits)
    with wok p show ?thesis by (auto simp: wal_ok_def)
  next
    case (Some e)
    with m have "v = enc pb e" unfolding wal_batch_effect [OF inv srt] by (simp split: if_splits)
    with Some show ?thesis by (auto simp: raftpb_ok_entry [OF ok] find_Some_iff)
  qed
  then show ?thesis using batch_apply_effect [OF inv] by (simp add: wal_ok_def)
qed

lemma find_pos_Some:
  assumes "sorted_wrt lex_less (map pos es)"
  shows "find (\<lambda>x. pos x = pos e) es = Some e \<longleftrightarrow> e \<in> set es"
    "find (\<lambda>x. pos x = p) es = None \<longleftrightarrow> p \<notin> pos ` set es"
proof -
  show "find (\<lambda>x. pos x = p) es = None \<longleftrightarrow> p \<notin> pos ` set es" by (auto simp: find_None_iff)
  show "find (\<lambda>x. pos x = pos e) es = Some e \<longleftrightarrow> e \<in> set es" using assms
    by (induction es) (auto simp: lex_less_def)
qed


text \<open>An encoding that satisfies the laws: term, index and data in sequence.\<close>

definition flat_pb :: "(bytes, bytes) raftpb" where
  "flat_pb = \<lparr>isEmptySnap = (\<lambda>s. s = []), marshalSnap = Inr, unmarshalSnap = Inr,
     isEmptyHard = (\<lambda>h. h = []), marshalHard = Inr, unmarshalHard = Inr,
     marshalEntry = (\<lambda>e. Inr (BigEndian_PutUint64 (Term e) @ BigEndian_PutUint64 (Index e) @ Data e)),
     unmarshalEntry = (\<lambda>d. go_bind (BigEndian_Uint64 d) (\<lambda>t. go_bind (BigEndian_Uint64 (drop 8 d))
       (\<lambda>i. Inr \<lparr>Term = t, Index = i, Data = drop 16 d\<rparr>)))\<rparr>"

lemma flat_pb_ok: "raftpb_ok flat_pb"
  by (simp add: raftpb_ok_def flat_pb_def)

definition empty_wal :: store where
  "empty_wal = \<lparr>entries = [], unreadable = [], readOnly = False\<rparr>"

definition two_entries :: "raft_entry list" where
  "two_entries = [\<lparr>Term = 1, Index = 1, Data = ''a''\<rparr>, \<lparr>Term = 1, Index = 2, Data = ''b''\<rparr>]"

lemma two_entries_ok:
  "two_entries \<noteq> []" "sorted_wrt lex_less (map pos two_entries)"
  "Index (last two_entries) \<noteq> 0" "Index (last two_entries) \<noteq> - 1"
  by (simp_all add: two_entries_def lex_less_def pos_def)

lemma empty_wal_ok: "wal_ok pb wid gid empty_wal" "\<not> readOnly empty_wal"
  "log_at pb wid gid empty_wal p = None"
  by (simp_all add: wal_ok_def empty_wal_def log_at_def)


section \<open>Snapshots and hard states\<close>

lemma wal_batch_state:
  assumes inv: "kv_invar (entries w)" and srt: "sorted_wrt lex_less (map pos es)" and gid: "unat gid < 2 ^ 16"
    and k: "k = snapshotKey wid' gid' \<or> k = hardStateKey wid' gid'"
  shows "map_of (batch_apply (wal_batch pb wid w gid s h es) (entries w)) k
    = batch_effect (state_puts pb wid gid s h) (map_of (entries w)) k"
proof -
  have "k \<noteq> entryKey wid gid t i" for t i using k entryKey_other_keys by metis
  then have "find (\<lambda>e. entryKey wid gid (Term e) (Index e) = k) es = None"
    by (auto simp: find_None_iff)
  moreover have "\<not> prefix (wal_prefix wid gid) k" using k prefix_small_group [OF gid] by metis
  ultimately show ?thesis by (simp add: wal_batch_effect [OF inv srt] scan_keys [OF inv])
qed

text \<open>
  After \<^verbatim>\<open>Store\<close> the snapshot and the hard state read back are those just stored, unless they
  were empty, in which case the previous ones stay. This needs a group below 65536: the prefix of
  a group whose number starts with the bytes of \<^verbatim>\<open>ss\<close> or \<^verbatim>\<open>hs\<close> is a prefix of such keys.
\<close>

lemma wal_state_after_store:
  assumes "raftpb_ok pb" "kv_invar (entries w)" "\<not> readOnly w" "unat gid < 2 ^ 16"
    "es \<noteq> []" "sorted_wrt lex_less (map pos es)" "Index (last es) \<noteq> 0"
    "snapshotKey wid gid \<notin> set (unreadable w)" "hardStateKey wid gid \<notin> set (unreadable w)"
  shows "\<exists>w'. wal_Store pb wid w gid s h es = Inr w'
    \<and> wal_Snapshot pb wid w' gid = (if isEmptySnap pb s then wal_Snapshot pb wid w gid else Inr s)
    \<and> wal_HardState pb wid w' gid = (if isEmptyHard pb h then wal_HardState pb wid w gid else Inr h)"
proof -
  have s: "unmarshalSnap pb (projr (marshalSnap pb s)) = Inr s"
    and h: "unmarshalHard pb (projr (marshalHard pb h)) = Inr h"
    using assms(1) unfolding raftpb_ok_def by (metis sum.sel(2))+
  show ?thesis
    unfolding wal_Store_batch [OF assms(1,3,5,7)]
    by (simp add: wal_Snapshot_def wal_HardState_def store_Get_def assms(8,9)
        wal_batch_state [OF assms(2,6,4)] state_puts_def s h
        snapshot_hard_distinct [symmetric])
qed

section \<open>Entries of older terms\<close>



end
