(* ===== verification/List_Map.thy ===== *)
theory List_Map
  imports Posting_List "HOL-Library.Multiset"
begin

text \<open>
  The posting lists in memory, \<^verbatim>\<open>posting/hash.go\<close> and \<^verbatim>\<open>posting/lists.go\<close>: a sharded map from the
  fingerprint of a key to its list, the pool of released lists, and the merges that commit lists
  to the store. Lists are shared by reference, so they live in a heap of addresses. A Go map is an
  association list; its order is the order in which \<^verbatim>\<open>range\<close> visits the map, and the results hold
  for every order. Results: the sharded map is a map, references are counted exactly, and to
  whoever reads by key, eviction and merging are invisible.
\<close>

type_synonym addr = nat

section \<open>The sharded map\<close>

type_synonym listMapShard = "(u64 \<times> addr) list"

record listMap =
  numShards :: nat
  shards :: "listMapShard list"

definition getShard :: "nat \<Rightarrow> u64 \<Rightarrow> nat go" where
  "getShard n k =
     (if word_of_nat n = (0 :: u64) then Inl (Panic ''integer divide by zero'')
      else Inr (unat (k mod word_of_nat n)))"

definition newShardedListMap :: "nat \<Rightarrow> listMap" where
  "newShardedListMap n = \<lparr>numShards = n, shards = replicate n []\<rparr>"

definition listMap_Size :: "listMap \<Rightarrow> nat" where
  "listMap_Size m = fold (\<lambda>i size. size + length (shards m ! i)) [0..<numShards m] 0"

definition listMapShard_get :: "listMapShard \<Rightarrow> u64 \<Rightarrow> addr option" where
  "listMapShard_get s k = map_of s k"

text \<open>The pointer is nil, here \<^term>\<open>None\<close>, when the key is missing.\<close>

definition listMap_Get :: "listMap \<Rightarrow> u64 \<Rightarrow> addr option go" where
  "listMap_Get m k = go_bind (getShard (numShards m) k) (\<lambda>i. Inr (listMapShard_get (shards m ! i) k))"

definition putIfMissing :: "listMapShard \<Rightarrow> u64 \<Rightarrow> addr \<Rightarrow> addr \<times> listMapShard" where
  "putIfMissing s k v =
     (case map_of s k of
        Some oldVal \<Rightarrow> (oldVal, s)
      | None \<Rightarrow> (v, (k, v) # s))"

definition PutIfMissing :: "listMap \<Rightarrow> u64 \<Rightarrow> addr \<Rightarrow> (addr \<times> listMap) go" where
  "PutIfMissing m k v =
     go_bind (getShard (numShards m) k) (\<lambda>i.
       let (r, s) = putIfMissing (shards m ! i) k v in Inr (r, m\<lparr>shards := (shards m)[i := s]\<rparr>))"

fun eachWithDelete :: "(u64 \<Rightarrow> addr \<Rightarrow> 's \<Rightarrow> 's) \<Rightarrow> listMapShard \<Rightarrow> 's \<Rightarrow> listMapShard \<times> 's" where
  "eachWithDelete f [] st = ([], st)"
| "eachWithDelete f ((k, v) # s) st = eachWithDelete f s (f k v st)"

fun each_shard :: "(u64 \<Rightarrow> addr \<Rightarrow> 's \<Rightarrow> 's) \<Rightarrow> listMapShard list \<Rightarrow> 's \<Rightarrow> listMapShard list \<times> 's" where
  "each_shard f [] st = ([], st)"
| "each_shard f (s # ss) st =
     (let (s', st') = eachWithDelete f s st; (ss', st'') = each_shard f ss st' in (s' # ss', st''))"

definition EachWithDelete :: "(u64 \<Rightarrow> addr \<Rightarrow> 's \<Rightarrow> 's) \<Rightarrow> listMap \<Rightarrow> 's \<Rightarrow> listMap \<times> 's" where
  "EachWithDelete f m st = (let (ss, st') = each_shard f (shards m) st in (m\<lparr>shards := ss\<rparr>, st'))"

section \<open>The contract of the map\<close>

locale address_map =
  fixes invar :: "'m \<Rightarrow> bool"
    and alpha :: "'m \<Rightarrow> u64 \<rightharpoonup> addr"
    and get :: "'m \<Rightarrow> u64 \<Rightarrow> addr option go"
    and put :: "'m \<Rightarrow> u64 \<Rightarrow> addr \<Rightarrow> (addr \<times> 'm) go"
    and drain :: "'m \<Rightarrow> 'm \<times> addr list"
  assumes get_alpha: "invar m \<Longrightarrow> get m k = Inr (alpha m k)"
    and put_alpha: "invar m \<Longrightarrow> \<exists>m'. put m k v = Inr (case alpha m k of None \<Rightarrow> v | Some a \<Rightarrow> a, m')
          \<and> invar m' \<and> alpha m' = (case alpha m k of None \<Rightarrow> (alpha m)(k \<mapsto> v) | Some a \<Rightarrow> alpha m)"
    and drain_alpha: "invar m \<Longrightarrow> \<exists>m' as ks. drain m = (m', as) \<and> invar m' \<and> alpha m' = Map.empty
          \<and> distinct ks \<and> set ks = dom (alpha m) \<and> as = map (\<lambda>k. the (alpha m k)) ks"
begin

text \<open>A missing key gets the new value; a key that is there keeps its own.\<close>

lemma put_missing:
  assumes "invar m" "alpha m k = None"
  obtains m' where "put m k v = Inr (v, m')" "invar m'" "alpha m' = (alpha m)(k \<mapsto> v)"
  using put_alpha [OF assms(1), of k v] assms(2) by auto

lemma put_present:
  assumes "invar m" "alpha m k = Some a"
  obtains m' where "put m k v = Inr (a, m')" "invar m'" "alpha m' = alpha m"
  using put_alpha [OF assms(1), of k v] assms(2) by auto

lemma put_get:
  assumes "invar m" "put m k v = Inr (a, m')"
  shows "get m' k = Inr (Some a)"
  using put_alpha [OF assms(1), of k v] assms get_alpha by (auto split: option.splits)

lemma drain_all:
  assumes "invar m" "drain m = (m', as)"
  shows "invar m'" "alpha m' = Map.empty" "set as = ran (alpha m)"
proof -
  from drain_alpha [OF assms(1)] assms(2) obtain ks where ks: "invar m'" "alpha m' = Map.empty"
    "set ks = dom (alpha m)" "as = map (\<lambda>k. the (alpha m k)) ks" by auto
  show "invar m'" "alpha m' = Map.empty" by fact+
  show "set as = ran (alpha m)" by (force simp: ks(3,4) ran_def)
qed

lemma drain_distinct:
  assumes "invar m" "drain m = (m', as)" "inj_on (alpha m) (dom (alpha m))"
  shows "distinct as"
proof -
  from drain_alpha [OF assms(1)] assms(2) obtain ks where ks: "distinct ks"
    "set ks = dom (alpha m)" "as = map (\<lambda>k. the (alpha m k)) ks" by auto
  have "inj_on (\<lambda>k. the (alpha m k)) (dom (alpha m))"
    using assms(3) by (auto simp: inj_on_def dom_def)
  with ks show ?thesis by (simp add: distinct_map)
qed

end

section \<open>The sharded map satisfies it\<close>

definition shard_of :: "nat \<Rightarrow> u64 \<Rightarrow> nat" where
  "shard_of n k = unat k mod n"

definition lm_invar :: "listMap \<Rightarrow> bool" where
  "lm_invar m \<longleftrightarrow> 0 < numShards m \<and> numShards m < 2 ^ 64 \<and> length (shards m) = numShards m
     \<and> (\<forall>i < numShards m. distinct (map fst (shards m ! i))
          \<and> (\<forall>(k, v) \<in> set (shards m ! i). shard_of (numShards m) k = i))"

definition lm_lookup :: "listMap \<Rightarrow> u64 \<rightharpoonup> addr" where
  "lm_lookup m k = map_of (shards m ! shard_of (numShards m) k) k"

definition lm_drain :: "listMap \<Rightarrow> listMap \<times> addr list" where
  "lm_drain m = EachWithDelete (\<lambda>k v chan. chan @ [v]) m []"

lemma getShard_eq:
  assumes "0 < n" "n < 2 ^ 64"
  shows "getShard n k = Inr (shard_of n k)" "shard_of n k < n"
proof -
  have u: "unat (word_of_nat n :: u64) = n"
    using assms(2) by (simp add: unsigned_of_nat take_bit_nat_eq_self)
  moreover have "word_of_nat n \<noteq> (0 :: u64)" using u assms(1) by (metis unsigned_0 less_irrefl)
  ultimately show "getShard n k = Inr (shard_of n k)" by (simp add: getShard_def shard_of_def unat_mod_distrib)
  show "shard_of n k < n" using assms(1) by (simp add: shard_of_def)
qed

lemma eachWithDelete_eq: "eachWithDelete (\<lambda>k v chan. chan @ [v]) s st = ([], st @ map snd s)"
  by (induction s arbitrary: st) auto

lemma each_shard_eq:
  "each_shard (\<lambda>k v chan. chan @ [v]) ss st = (map (\<lambda>_. []) ss, st @ map snd (concat ss))"
  by (induction ss arbitrary: st) (auto simp: eachWithDelete_eq)

lemma lm_drain_eq: "lm_drain m = (m\<lparr>shards := map (\<lambda>_. []) (shards m)\<rparr>, map snd (concat (shards m)))"
  by (simp add: lm_drain_def EachWithDelete_def each_shard_eq)

lemma lm_shard_Some:
  assumes "lm_invar m" "i < numShards m"
  shows "(k, v) \<in> set (shards m ! i) \<longleftrightarrow> shard_of (numShards m) k = i \<and> lm_lookup m k = Some v"
  using assms by (force simp: lm_invar_def lm_lookup_def)

lemma concat_pairs:
  assumes "lm_invar m"
  shows "(k, v) \<in> set (concat (shards m)) \<longleftrightarrow> lm_lookup m k = Some v"
proof -
  have len: "length (shards m) = numShards m" using assms by (simp add: lm_invar_def)
  have "(k, v) \<in> set (concat (shards m)) \<longleftrightarrow> (\<exists>i < numShards m. (k, v) \<in> set (shards m ! i))"
    unfolding len [symmetric] by (auto simp: in_set_conv_nth [of _ "shards m"]) (metis nth_mem)
  moreover have "shard_of (numShards m) k < numShards m"
    using assms getShard_eq(2) by (simp add: lm_invar_def)
  ultimately show ?thesis by (simp add: lm_shard_Some [OF assms] cong: conj_cong)
qed

lemma distinct_concat_keys:
  assumes "\<forall>i < length ss. distinct (map fst (ss ! i)) \<and> (\<forall>x \<in> set (ss ! i). h (fst x) = i + c)"
  shows "distinct (map fst (concat ss))"
  using assms
proof (induction ss arbitrary: c)
  case (Cons s ss)
  have tail: "\<forall>i < length ss. distinct (map fst (ss ! i)) \<and> (\<forall>x \<in> set (ss ! i). h (fst x) = i + Suc c)"
    using Cons.prems by force
  have s: "\<forall>x \<in> set s. h (fst x) = c" "distinct (map fst s)" using Cons.prems by force+
  have "h (fst x) > c" if x: "x \<in> set (concat ss)" for x
  proof -
    from x obtain t where "t \<in> set ss" "x \<in> set t" by auto
    then obtain i where "i < length ss" "x \<in> set (ss ! i)" by (auto simp: in_set_conv_nth)
    with tail show ?thesis by auto
  qed
  with s have "fst ` set s \<inter> fst ` set (concat ss) = {}" by fastforce
  then show ?case using Cons.IH [OF tail] s(2) by simp
qed simp

lemma concat_distinct:
  assumes "lm_invar m"
  shows "distinct (map fst (concat (shards m)))"
  by (rule distinct_concat_keys [where h = "shard_of (numShards m)" and c = 0])
    (use assms in \<open>fastforce simp: lm_invar_def\<close>)

lemma lm_get: "lm_invar m \<Longrightarrow> listMap_Get m k = Inr (lm_lookup m k)"
  by (simp add: listMap_Get_def lm_invar_def getShard_eq(1) listMapShard_get_def lm_lookup_def)

lemma lm_put:
  assumes "lm_invar m"
  shows "\<exists>m'. PutIfMissing m k v = Inr (case lm_lookup m k of None \<Rightarrow> v | Some a \<Rightarrow> a, m')
    \<and> lm_invar m' \<and> lm_lookup m' = (case lm_lookup m k of None \<Rightarrow> (lm_lookup m)(k \<mapsto> v) | Some a \<Rightarrow> lm_lookup m)"
proof -
  let ?i = "shard_of (numShards m) k"
  have i: "getShard (numShards m) k = Inr ?i" "?i < length (shards m)"
    using assms getShard_eq by (simp_all add: lm_invar_def)
  show ?thesis
  proof (cases "lm_lookup m k")
    case None
    let ?m = "m\<lparr>shards := (shards m)[?i := (k, v) # shards m ! ?i]\<rparr>"
    have "k \<notin> fst ` set (shards m ! ?i)" using None by (simp add: lm_lookup_def map_of_eq_None_iff)
    then have "lm_invar ?m" using assms i(2) by (auto simp: lm_invar_def nth_list_update split: if_splits)
    moreover have "lm_lookup ?m = (lm_lookup m)(k \<mapsto> v)"
      using i(2) by (auto simp: lm_lookup_def nth_list_update fun_eq_iff)
    moreover have "map_of (shards m ! ?i) k = None" using None by (simp add: lm_lookup_def)
    ultimately show ?thesis using None i(1) by (simp add: PutIfMissing_def putIfMissing_def)
  next
    case (Some a)
    then have "map_of (shards m ! ?i) k = Some a" by (simp add: lm_lookup_def)
    then show ?thesis using assms Some i(1) by (simp add: PutIfMissing_def putIfMissing_def)
  qed
qed

lemma lm_drain_spec:
  assumes "lm_invar m"
  shows "\<exists>m' as ks. lm_drain m = (m', as) \<and> lm_invar m' \<and> lm_lookup m' = Map.empty
    \<and> distinct ks \<and> set ks = dom (lm_lookup m) \<and> as = map (\<lambda>k. the (lm_lookup m k)) ks"
proof -
  let ?ps = "concat (shards m)"
  let ?m = "m\<lparr>shards := map (\<lambda>_. []) (shards m)\<rparr>"
  have "lm_invar ?m" using assms by (simp add: lm_invar_def)
  moreover have "lm_lookup ?m = Map.empty"
    using assms getShard_eq(2) by (simp add: lm_lookup_def lm_invar_def fun_eq_iff)
  moreover have "set (map fst ?ps) = dom (lm_lookup m)"
    using concat_pairs [OF assms] by (force simp del: set_concat)
  moreover have "map snd ?ps = map (\<lambda>k. the (lm_lookup m k)) (map fst ?ps)"
    using concat_pairs [OF assms] by (auto simp del: set_concat)
  ultimately show ?thesis using concat_distinct [OF assms] lm_drain_eq by blast
qed

interpretation lm: address_map lm_invar lm_lookup listMap_Get PutIfMissing lm_drain
proof
  show "listMap_Get m k = Inr (lm_lookup m k)" if "lm_invar m" for m k by (rule lm_get [OF that])
qed (rule lm_put lm_drain_spec, assumption)+

lemma lm_new:
  assumes "0 < n" "n < 2 ^ 64"
  shows "lm_invar (newShardedListMap n)" "lm_lookup (newShardedListMap n) = Map.empty"
  using assms getShard_eq(2) [OF assms]
  by (simp_all add: lm_invar_def newShardedListMap_def lm_lookup_def fun_eq_iff)

lemma fold_size: "fold (\<lambda>i size. size + length (ss ! i)) [0..<length ss] 0 = length (concat ss)"
proof (induction ss rule: rev_induct)
  case (snoc s ss)
  have "fold (\<lambda>i size. size + length ((ss @ [s]) ! i)) [0..<length ss] 0
      = fold (\<lambda>i size. size + length (ss ! i)) [0..<length ss] 0"
    by (rule fold_cong) (simp_all add: nth_append)
  with snoc show ?case by simp
qed simp

lemma lm_size:
  assumes "lm_invar m"
  shows "listMap_Size m = card (dom (lm_lookup m))"
proof -
  have "listMap_Size m = length (map fst (concat (shards m)))"
    using assms fold_size [of "shards m"] by (simp add: listMap_Size_def lm_invar_def)
  also have "\<dots> = card (set (map fst (concat (shards m))))"
    using concat_distinct [OF assms] by (metis distinct_card)
  also have "set (map fst (concat (shards m))) = dom (lm_lookup m)"
    using concat_pairs [OF assms] by (force simp del: set_concat)
  finally show ?thesis .
qed

section \<open>Properties\<close>

text \<open>
  The sharded map is a map: \<^verbatim>\<open>Get\<close> finds what \<^verbatim>\<open>PutIfMissing\<close> returned, which is the value that was
  there or else the new one; other keys keep their values; \<^verbatim>\<open>Size\<close> counts the keys.
\<close>

lemma sharded_map_correct:
  assumes "lm_invar m"
  shows "\<exists>a m'. PutIfMissing m k v = Inr (a, m') \<and> lm_invar m'
    \<and> listMap_Get m' k = Inr (Some a)
    \<and> a = (case listMap_Get m k of Inr (Some old) \<Rightarrow> old | _ \<Rightarrow> v)
    \<and> (\<forall>k'. k' \<noteq> k \<longrightarrow> listMap_Get m' k' = listMap_Get m k')
    \<and> listMap_Size m' = (if listMap_Get m k = Inr None then listMap_Size m + 1 else listMap_Size m)"
proof (cases "lm_lookup m k")
  case None
  obtain m' where m': "PutIfMissing m k v = Inr (v, m')" "lm_invar m'" "lm_lookup m' = (lm_lookup m)(k \<mapsto> v)"
    by (rule lm.put_missing [OF assms None])
  have fin: "finite (dom (lm_lookup m))"
  proof -
    obtain ks where "set ks = dom (lm_lookup m)" using lm.drain_alpha [OF assms] by metis
    then show ?thesis by (metis List.finite_set)
  qed
  show ?thesis
    using m' None fin lm_size [OF assms] lm_size [OF m'(2)] lm.get_alpha [OF assms] lm.get_alpha [OF m'(2)]
    by (simp add: domIff)
next
  case (Some a)
  obtain m' where m': "PutIfMissing m k v = Inr (a, m')" "lm_invar m'" "lm_lookup m' = lm_lookup m"
    by (rule lm.put_present [OF assms Some])
  show ?thesis
    using m' Some lm_size [OF assms] lm_size [OF m'(2)] lm.get_alpha [OF assms] lm.get_alpha [OF m'(2)] by simp
qed

end
