(* ===== verification/List_Cache.thy ===== *)
theory List_Cache
  imports List_Map
begin

text \<open>
  The cache of posting lists, \<^verbatim>\<open>posting/lists.go\<close>: lists are handed out by key with a reference,
  mutated, merged into the store while they stay in memory, and evicted all at once when memory
  runs short. The state is a heap of lists, the pool of released ones, the map of those in use, the
  channel and the set of dirty keys, the batches of keys under way and the store. Locks make each
  operation atomic: the steps of \<open>cache_step\<close> are the calls of clients and the turns of the merging
  goroutines. Results: references are counted exactly, a released list is never reachable, no
  assertion on counts fails, and reads by key see mutations only.
\<close>

section \<open>State\<close>

record cache =
  lheap :: "addr \<Rightarrow> mlist"
  lnext :: addr
  lpool :: "addr list"
  lhmap :: listMap
  dirtyChan :: "u64 list"
  dirtyMap :: "u64 list"
  batches :: "u64 list list"
  pstore :: store

record counters =
  added :: u64
  merged :: u64
  clean :: u64
  lastVal :: u64

definition newCounters :: counters where
  "newCounters = \<lparr>added = 0, merged = 0, clean = 0, lastVal = 0\<rparr>"

text \<open>The call logs the counters unless nothing was merged since the last one; what it prints is the
  second result.\<close>

definition counters_log :: "counters \<Rightarrow> counters \<times> (u64 \<times> u64 \<times> u64 \<times> u64) option" where
  "counters_log c =
     (if merged c = lastVal c then (c, None)
      else (c\<lparr>lastVal := merged c\<rparr>,
            Some (added c, merged c, clean c, if added c > merged c then added c - merged c else 0)))"

section \<open>References\<close>

text \<open>The pool yields a list that was put there, or a new one; either is reset.\<close>

definition cache_getNew :: "cache \<Rightarrow> addr \<times> cache" where
  "cache_getNew w =
     (case lpool w of
        a # as \<Rightarrow> (a, w\<lparr>lheap := (lheap w)(a := getNew), lpool := as\<rparr>)
      | [] \<Rightarrow> (lnext w, w\<lparr>lheap := (lheap w)(lnext w := getNew), lnext := lnext w + 1\<rparr>))"

definition cache_incr :: "addr \<Rightarrow> cache \<Rightarrow> cache" where
  "cache_incr a w = w\<lparr>lheap := (lheap w)(a := snd (incr (lheap w a)))\<rparr>"

definition cache_decr :: "addr \<Rightarrow> cache \<Rightarrow> cache go" where
  "cache_decr a w =
     go_bind (decr (lheap w a)) (\<lambda>(release, l).
       Inr (w\<lparr>lheap := (lheap w)(a := l), lpool := if release then a # lpool w else lpool w\<rparr>))"

definition getFromMap :: "u64 \<Rightarrow> cache \<Rightarrow> (addr option \<times> cache) go" where
  "getFromMap k w =
     go_bind (listMap_Get (lhmap w) k) (\<lambda>lp.
       case lp of None \<Rightarrow> Inr (None, w) | Some a \<Rightarrow> Inr (Some a, cache_incr a w))"

definition GetOrCreate ::
  "(bytes \<Rightarrow> u32) \<Rightarrow> (bytes \<Rightarrow> u64) \<Rightarrow> bytes \<Rightarrow> cache \<Rightarrow> (addr \<times> cache) go" where
  "GetOrCreate fp32 fp64 k w =
     (let fp = fp64 k in
      go_bind (listMap_Get (lhmap w) fp) (\<lambda>lp0.
        case lp0 of
          Some lp \<Rightarrow> Inr (lp, cache_incr lp w)
        | None \<Rightarrow>
            let (l, w1) = cache_getNew w in
            go_bind (PutIfMissing (lhmap w1) fp l) (\<lambda>(lp, m).
              let w2 = cache_incr lp (w1\<lparr>lhmap := m\<rparr>) in
              if lp = l
              then Inr (lp, w2\<lparr>lheap := (lheap w2)(l := List_init fp32 fp64 k (lheap w2 l))\<rparr>)
              else go_bind (cache_decr l w2) (\<lambda>w3. Inr (lp, w3)))))"

section \<open>Merging\<close>

text \<open>An error of the commit is logged and dropped; a fatal one ends the process.\<close>

definition mergeAndUpdate ::
  "(bytes \<Rightarrow> bytes) \<Rightarrow> nat \<Rightarrow> addr \<Rightarrow> cache \<times> counters \<Rightarrow> (cache \<times> counters) go" where
  "mergeAndUpdate md5 now a wc =
     (case wc of (w, c) \<Rightarrow>
        (case CommitIfDirty md5 now (pstore w) (lheap w a) of
           Inl (Err e) \<Rightarrow> Inr (w, c)
         | Inl e \<Rightarrow> Inl e
         | Inr (done, st, l) \<Rightarrow>
             Inr (w\<lparr>pstore := st, lheap := (lheap w)(a := l)\<rparr>,
                  if done then c\<lparr>merged := merged c + 1\<rparr> else c\<lparr>clean := clean c + 1\<rparr>)))"

fun mergeKeys_loop ::
  "(bytes \<Rightarrow> bytes) \<Rightarrow> nat \<Rightarrow> u64 list \<Rightarrow> cache \<times> counters \<Rightarrow> (cache \<times> counters) go" where
  "mergeKeys_loop md5 now [] (w, c) = Inr (w, c)"
| "mergeKeys_loop md5 now (k # ks) (w, c) =
     (case listMap_Get (lhmap w) k of
        Inl e \<Rightarrow> Inl e
      | Inr None \<Rightarrow> mergeKeys_loop md5 now ks (w, c)
      | Inr (Some a) \<Rightarrow>
          (case mergeAndUpdate md5 now a (w, c) of
             Inl e \<Rightarrow> Inl e
           | Inr wc \<Rightarrow> mergeKeys_loop md5 now ks wc))"

definition mergeAndUpdateKeys :: "(bytes \<Rightarrow> bytes) \<Rightarrow> nat \<Rightarrow> u64 list \<Rightarrow> cache \<Rightarrow> cache go" where
  "mergeAndUpdateKeys md5 now ks w =
     (if ks = [] then Inr w
      else go_bind (mergeKeys_loop md5 now ks (w, newCounters)) (\<lambda>(w', c). Inr w'))"

text \<open>The goroutines that drain the work channel, each list in turn.\<close>

fun merge_worker ::
  "(bytes \<Rightarrow> bytes) \<Rightarrow> nat \<Rightarrow> addr list \<Rightarrow> cache \<times> counters \<Rightarrow> (cache \<times> counters) go" where
  "merge_worker md5 now [] (w, c) = Inr (w, c)"
| "merge_worker md5 now (a # as) (w, c) =
     (case mergeAndUpdate md5 now a (w\<lparr>lheap := (lheap w)(a := SetForDeletion (lheap w a))\<rparr>, c) of
        Inl e \<Rightarrow> Inl e
      | Inr (w', c') \<Rightarrow>
          (case cache_decr a w' of
             Inl e \<Rightarrow> Inl e
           | Inr w'' \<Rightarrow> merge_worker md5 now as (w'', c')))"

definition MergeLists :: "(bytes \<Rightarrow> bytes) \<Rightarrow> nat \<Rightarrow> cache \<Rightarrow> cache go" where
  "MergeLists md5 now w =
     (let (m, workChan) = EachWithDelete (\<lambda>k v chan. chan @ [v]) (lhmap w) [] in
      go_bind (merge_worker md5 now workChan (w\<lparr>lhmap := m\<rparr>, newCounters)) (\<lambda>(w', c). Inr w'))"

text \<open>
  A gentle merge takes a batch off the dirty keys, unless eighteen are under way. \<open>frac\<close> is the
  number of keys that the flag \<^verbatim>\<open>gentlemerge\<close> makes of the size of the set, a product of floats.
\<close>

fun take_keys :: "nat \<Rightarrow> u64 list \<Rightarrow> u64 list \<Rightarrow> u64 list \<times> u64 list" where
  "take_keys n [] buf = (buf, [])"
| "take_keys n (k # ks) buf =
     (let buf' = buf @ [k] in if n \<le> length buf' then (buf', ks) else take_keys n ks buf')"

definition gentleMerge :: "(nat \<Rightarrow> nat) \<Rightarrow> cache \<Rightarrow> cache" where
  "gentleMerge frac w =
     (if length (batches w) < 18 then
        let n = frac (length (dirtyMap w)); n' = (if n < 300 then 300 else n);
            (buf, rest) = take_keys n' (dirtyMap w) []
        in w\<lparr>dirtyMap := rest, batches := batches w @ [buf]\<rparr>
      else w)"

text \<open>The two cases of the loop of \<^verbatim>\<open>periodicMerging\<close>.\<close>

definition periodic_dirty :: "cache \<Rightarrow> cache" where
  "periodic_dirty w =
     (case dirtyChan w of
        [] \<Rightarrow> w
      | k # ks \<Rightarrow> w\<lparr>dirtyChan := ks, dirtyMap := List.insert k (dirtyMap w)\<rparr>)"

definition periodic_tick ::
  "(bytes \<Rightarrow> bytes) \<Rightarrow> (nat \<Rightarrow> nat) \<Rightarrow> int \<Rightarrow> int \<Rightarrow> nat \<Rightarrow> cache \<Rightarrow> cache go" where
  "periodic_tick md5 frac maxmemory totMemory now w =
     (if totMemory > maxmemory
      then go_bind (MergeLists md5 now (w\<lparr>dirtyChan := []\<rparr>)) (\<lambda>w'. Inr (w'\<lparr>dirtyMap := []\<rparr>))
      else Inr (gentleMerge frac w))"

definition cache_Init :: "nat \<Rightarrow> store \<Rightarrow> cache" where
  "cache_Init lhmapNumShards ps =
     \<lparr>lheap = (\<lambda>_. getNew), lnext = 0, lpool = [], lhmap = newShardedListMap lhmapNumShards,
       dirtyChan = [], dirtyMap = [], batches = [], pstore = ps\<rparr>"

section \<open>What a key shows\<close>

definition fresh :: "bytes \<Rightarrow> mlist" where
  "fresh k = getNew\<lparr>key := k\<rparr>"

text \<open>The immutable layer of a list alone.\<close>

definition base_view :: "store \<Rightarrow> mlist \<Rightarrow> u64 \<Rightarrow> content option" where
  "base_view st l = list_view st (l\<lparr>mlayer := []\<rparr>)"

definition synced :: "store \<Rightarrow> mlist \<Rightarrow> bool" where
  "synced st l \<longleftrightarrow> (mlayer l \<noteq> [] \<longrightarrow> dirtyTs l \<noteq> 0) \<and> base_view st l = list_view st (fresh (key l))"

definition fits_list :: "store \<Rightarrow> mlist \<Rightarrow> bool" where
  "fits_list st l \<longleftrightarrow>
     (case getPostingList st l of Inl e \<Rightarrow> True | Inr (pl, l1) \<Rightarrow> commit_fits (live (Postings pl) (mlayer l)))"

definition mapped_ok :: "(bytes \<Rightarrow> u64) \<Rightarrow> bytes set \<Rightarrow> store \<Rightarrow> u64 \<Rightarrow> mlist \<Rightarrow> bool" where
  "mapped_ok fp64 K st fp l \<longleftrightarrow>
     fp64 (key l) = fp \<and> key l \<in> K \<and> \<not> deleteMe l \<and> list_ok st l \<and> synced st l"

lemma fresh_simps [simp]:
  "key (fresh k) = k" "pbuffer (fresh k) = None" "mlayer (fresh k) = []"
  "dirtyTs (fresh k) = 0" "deleteMe (fresh k) = False" "refcount (fresh k) = 1"
  by (simp_all add: fresh_def getNew_def)

lemma getPostingList_store_cong:
  "store_Get st' (key l) = store_Get st (key l) \<Longrightarrow> getPostingList st' l = getPostingList st l"
  by (cases "pbuffer l") (simp_all add: getPostingList_def)

lemma store_cong:
  assumes "store_Get st' (key l) = store_Get st (key l)"
  shows "list_ok st' l = list_ok st l" "list_view st' l = list_view st l"
    "base_view st' l = base_view st l" "synced st' l = synced st l" "fits_list st' l = fits_list st l"
    "mapped_ok fp64 K st' fp l = mapped_ok fp64 K st fp l"
proof -
  note g = getPostingList_store_cong [OF assms]
  have g0: "getPostingList st' (l\<lparr>mlayer := []\<rparr>) = getPostingList st (l\<lparr>mlayer := []\<rparr>)"
    by (rule getPostingList_store_cong) (use assms in simp)
  have gf: "getPostingList st' (fresh (key l)) = getPostingList st (fresh (key l))"
    by (rule getPostingList_store_cong) (use assms in simp)
  show ok: "list_ok st' l = list_ok st l" by (simp add: list_ok_def g)
  show "list_view st' l = list_view st l" by (simp add: list_view_def g fun_eq_iff)
  show "fits_list st' l = fits_list st l" by (simp add: fits_list_def g)
  show b: "base_view st' l = base_view st l" by (simp add: base_view_def list_view_def g0 fun_eq_iff)
  show s: "synced st' l = synced st l" by (simp add: synced_def b list_view_def gf fun_eq_iff)
  show "mapped_ok fp64 K st' fp l = mapped_ok fp64 K st fp l" by (simp only: mapped_ok_def ok s)
qed

lemma fields_cong:
  assumes "pbuffer l' = pbuffer l" "key l' = key l" "mlayer l' = mlayer l"
  shows "list_ok st l' = list_ok st l" "list_view st l' = list_view st l" "base_view st l' = base_view st l"
    "dirtyTs l' = dirtyTs l \<Longrightarrow> synced st l' = synced st l"
proof -
  show "list_ok st l' = list_ok st l" by (rule list_ok_cong [OF assms])
  show "list_view st l' = list_view st l" by (rule list_view_cong [OF assms])
  show b: "base_view st l' = base_view st l" unfolding base_view_def
    by (rule list_view_cong) (use assms in simp_all)
  show "dirtyTs l' = dirtyTs l \<Longrightarrow> synced st l' = synced st l"
    using assms b by (simp add: synced_def)
qed

lemma synced_fresh: "synced st (fresh k)"
  by (simp add: synced_def base_view_def list_view_cong [of "(fresh k)\<lparr>mlayer := []\<rparr>" "fresh k"])

lemma synced_empty:
  assumes "synced st l" "mlayer l = []"
  shows "list_view st l = list_view st (fresh (key l))"
proof -
  have "l\<lparr>mlayer := []\<rparr> = l" using assms(2) by simp
  then show ?thesis using assms(1) by (simp add: synced_def base_view_def)
qed

section \<open>Committing a list of the cache\<close>

lemma commit_frame:
  assumes "commit md5 now st l = Inr (c, st', l')"
  shows "refcount l' = refcount l" "deleteMe l' = deleteMe l" "key l' = key l" "ghash l' = ghash l"
    "unreadable st' = unreadable st" "readOnly st' = readOnly st"
  using assms
  by (auto simp: commit_def iterate_def getPostingList_def store_SetOne_def go_simps Let_def
      split: if_splits option.splits sum.splits)

lemma CommitIfDirty_mapped:
  assumes ok: "list_ok st l" "synced st l" "list_ok st (fresh (key l))"
    and st: "store_ok st" "\<not> readOnly st" and fits: "fits_list st l"
    and md5: "\<forall>x. length (md5 x) = 16"
  obtains c st' l' where "CommitIfDirty md5 now st l = Inr (c, st', l')"
    "store_ok st'" "\<not> readOnly st'" "key l' = key l" "refcount l' = refcount l" "deleteMe l' = deleteMe l"
    "mlayer l' = []" "list_ok st' l'" "synced st' l'" "list_view st' l' = list_view st l"
    "list_ok st' (fresh (key l))" "list_view st' (fresh (key l)) = list_view st l"
    "\<forall>k. k \<noteq> key l \<longrightarrow> store_Get st' k = store_Get st k"
proof (cases "mlayer l = []")
  case True
  let ?l = "if dirtyTs l = 0 then l else l\<lparr>dirtyTs := 0\<rparr>"
  have run: "CommitIfDirty md5 now st l = Inr (False, st, ?l)"
    using True by (simp add: CommitIfDirty_def commit_def)
  note cong = fields_cong [of ?l l st]
  show thesis
  proof (rule that [OF run])
    show "synced st ?l" using ok(2) True cong(3) by (simp add: synced_def)
    show "list_view st (fresh (key l)) = list_view st l" using synced_empty [OF ok(2) True] by simp
  qed (use True st ok cong in simp_all)
next
  case False
  obtain pl l1 where get: "getPostingList st l = Inr (pl, l1)" using ok(1) by (auto simp: list_ok_def split: sum.splits)
  have fit: "commit_fits (live (Postings pl) (mlayer l))" using fits get by (simp add: fits_list_def)
  have inv: "kv_invar (entries st)" "key l \<notin> set (unreadable st)" using st by (simp_all add: store_ok_def)
  have md5': "\<And>x. length (md5 x) = 16" using md5 by blast
  from ok(1) inv(1) st(2) inv(2) md5' get fit False
  obtain st' l' where c: "commit md5 now st l = Inr (True, st', l')" "list_ok st' l'"
    "list_view st' l' = list_view st l" "mlayer l' = []" "dirtyTs l' = 0" "kv_invar (entries st')"
    "key l' = key l" "\<forall>k. k \<noteq> key l \<longrightarrow> store_Get st' k = store_Get st k"
    by (rule commit_spec [where ?md5.0 = md5 and now = now])
  have run: "CommitIfDirty md5 now st l = Inr (True, st', l')"
    using c(1) ok(2) False by (simp add: CommitIfDirty_def synced_def)
  have pb: "pbuffer l' = None" by (rule commit_pbuffer [OF c(1) False])
  note fr = commit_frame [OF c(1)]
  have f: "list_ok st' (fresh (key l)) = list_ok st' l'" "list_view st' (fresh (key l)) = list_view st' l'"
    using fields_cong [of "fresh (key l)" l' st'] pb c(4,7) by simp_all
  have b: "base_view st' l' = list_view st' (fresh (key l))"
  proof -
    have "l'\<lparr>mlayer := []\<rparr> = l'" using c(4) by simp
    then show ?thesis using f(2) by (simp add: base_view_def)
  qed
  show thesis
    by (rule that [OF run])
      (use c fr st f b in \<open>simp_all add: store_ok_def synced_def\<close>)
qed

section \<open>The invariant\<close>

text \<open>
  \<open>M\<close> says which list stands for a fingerprint: the map, or during an eviction what is left of it
  in the work channel. \<open>H\<close> is the multiset of the references that clients hold.
\<close>

definition cache_ok ::
  "(bytes \<Rightarrow> u64) \<Rightarrow> bytes set \<Rightarrow> (u64 \<rightharpoonup> addr) \<Rightarrow> cache \<Rightarrow> addr multiset \<Rightarrow> bool" where
  "cache_ok fp64 K M w H \<longleftrightarrow>
     store_ok (pstore w) \<and> \<not> readOnly (pstore w) \<and> (\<forall>k \<in> K. list_ok (pstore w) (fresh k))
     \<and> distinct (lpool w) \<and> (\<forall>a \<in> set (lpool w). a < lnext w)
     \<and> (\<forall>fp a. M fp = Some a \<longrightarrow> mapped_ok fp64 K (pstore w) fp (lheap w a))
     \<and> (\<forall>a. (a < lnext w \<and> a \<notin> set (lpool w)) = (a \<in> ran M \<or> a \<in># H))
     \<and> (\<forall>a. a \<in> ran M \<or> a \<in># H \<longrightarrow>
           refcount (lheap w a) = int (count H a) + (if a \<in> ran M then 1 else 0))
     \<and> (\<forall>a. a \<in># H \<longrightarrow> a \<notin> ran M \<longrightarrow> deleteMe (lheap w a))"

definition cache_view ::
  "(bytes \<Rightarrow> u64) \<Rightarrow> (u64 \<rightharpoonup> addr) \<Rightarrow> cache \<Rightarrow> bytes \<Rightarrow> u64 \<Rightarrow> content option" where
  "cache_view fp64 M w k =
     (case M (fp64 k) of
        None \<Rightarrow> list_view (pstore w) (fresh k)
      | Some a \<Rightarrow> list_view (pstore w) (lheap w a))"

lemma cache_okD:
  assumes "cache_ok fp64 K M w H"
  shows "store_ok (pstore w)" "\<not> readOnly (pstore w)" "\<And>k. k \<in> K \<Longrightarrow> list_ok (pstore w) (fresh k)"
    "distinct (lpool w)" "\<And>a. a \<in> set (lpool w) \<Longrightarrow> a < lnext w"
    "\<And>fp a. M fp = Some a \<Longrightarrow> mapped_ok fp64 K (pstore w) fp (lheap w a)"
    "\<And>a. (a < lnext w \<and> a \<notin> set (lpool w)) = (a \<in> ran M \<or> a \<in># H)"
    "\<And>a. a \<in> ran M \<or> a \<in># H \<Longrightarrow> refcount (lheap w a) = int (count H a) + (if a \<in> ran M then 1 else 0)"
    "\<And>a. a \<in># H \<Longrightarrow> a \<notin> ran M \<Longrightarrow> deleteMe (lheap w a)"
  using assms unfolding cache_ok_def by blast+

lemma mapped_unique:
  assumes "cache_ok fp64 K M w H" "M fp = Some a" "M fp' = Some a"
  shows "fp = fp'"
  using cache_okD(6) [OF assms(1,2)] cache_okD(6) [OF assms(1,3)] by (simp add: mapped_ok_def)

text \<open>A commit of a mapped list: the store and that list change, no view does.\<close>

lemma cache_commit:
  assumes ok: "cache_ok fp64 K M w H" and m: "M fp = Some a" and inj: "inj_on fp64 K"
    and l': "key l' = key (lheap w a)" "refcount l' = refcount (lheap w a)" "\<not> deleteMe l'"
      "list_ok st' l'" "synced st' l'" "list_view st' l' = list_view (pstore w) (lheap w a)"
    and st': "store_ok st'" "\<not> readOnly st'" "list_ok st' (fresh (key (lheap w a)))"
      "\<forall>k. k \<noteq> key (lheap w a) \<longrightarrow> store_Get st' k = store_Get (pstore w) k"
    and w': "lheap w' = (lheap w)(a := l')" "lnext w' = lnext w" "lpool w' = lpool w" "pstore w' = st'"
  shows "cache_ok fp64 K M w' H" "\<forall>k \<in> K. cache_view fp64 M w' k = cache_view fp64 M w k"
proof -
  note D = cache_okD [OF ok]
  have a: "mapped_ok fp64 K (pstore w) fp (lheap w a)" using D(6) [OF m] .
  have ar: "a \<in> ran M" using m by (rule ranI)
  have other: "store_Get st' (key (lheap w b)) = store_Get (pstore w) (key (lheap w b))"
    if "M fp' = Some b" "b \<noteq> a" for fp' b
  proof -
    have "fp' \<noteq> fp" using that m by auto
    then have "key (lheap w b) \<noteq> key (lheap w a)" using D(6) [OF that(1)] a by (auto simp: mapped_ok_def)
    then show ?thesis using st'(4) by blast
  qed
  have m': "mapped_ok fp64 K st' fp' (lheap w' b)" if b: "M fp' = Some b" for fp' b
  proof (cases "b = a")
    case True
    then have "fp' = fp" using mapped_unique [OF ok b] m by simp
    then show ?thesis using True a l' w'(1) by (simp add: mapped_ok_def)
  next
    case False
    then show ?thesis using store_cong(6) [OF other [OF b False]] D(6) [OF b] w'(1) by simp
  qed
  have f: "list_ok st' (fresh k)" if k: "k \<in> K" for k
  proof (cases "k = key (lheap w a)")
    case False
    then have "store_Get st' (key (fresh k)) = store_Get (pstore w) (key (fresh k))" using st'(4) by simp
    from store_cong(1) [OF this] show ?thesis using D(3) [OF k] by simp
  qed (use st'(3) in simp)
  show "cache_ok fp64 K M w' H"
    unfolding cache_ok_def w'
    using D(4,5,7,8,9) st'(1,2) f m' [unfolded w'(1)] l'(2) ar by simp
  show "\<forall>k \<in> K. cache_view fp64 M w' k = cache_view fp64 M w k"
  proof
    fix k assume k: "k \<in> K"
    show "cache_view fp64 M w' k = cache_view fp64 M w k"
    proof (cases "M (fp64 k)")
      case None
      then have "fp64 k \<noteq> fp" using m by auto
      then have "k \<noteq> key (lheap w a)" using a by (auto simp: mapped_ok_def)
      then have "store_Get st' (key (fresh k)) = store_Get (pstore w) (key (fresh k))" using st'(4) by simp
      from store_cong(2) [OF this] show ?thesis using None w'(4) by (simp add: cache_view_def)
    next
      case (Some b)
      show ?thesis
      proof (cases "b = a")
        case True
        then show ?thesis using Some l'(6) w'(1,4) by (simp add: cache_view_def)
      next
        case False
        from store_cong(2) [OF other [OF Some False]] show ?thesis
          using Some False w'(1,4) by (simp add: cache_view_def)
      qed
    qed
  qed
qed

section \<open>Merging keeps the invariant and every view\<close>

definition fits :: "(u64 \<rightharpoonup> addr) \<Rightarrow> cache \<Rightarrow> bool" where
  "fits M w \<longleftrightarrow> (\<forall>a \<in> ran M. fits_list (pstore w) (lheap w a))"

lemma mergeAndUpdate_ok:
  assumes ok: "cache_ok fp64 K M w H" and m: "M fp = Some a" and inj: "inj_on fp64 K"
    and fit: "fits_list (pstore w) (lheap w a)" and md5: "\<forall>x. length (md5 x) = 16"
  obtains w' c' where "mergeAndUpdate md5 now a (w, c) = Inr (w', c')" "cache_ok fp64 K M w' H"
    "\<forall>k \<in> K. cache_view fp64 M w' k = cache_view fp64 M w k" "lhmap w' = lhmap w" "batches w' = batches w"
    "mlayer (lheap w' a) = []" "\<forall>b. b \<noteq> a \<longrightarrow> lheap w' b = lheap w b"
    "\<forall>k. k \<noteq> key (lheap w a) \<longrightarrow> store_Get (pstore w') k = store_Get (pstore w) k"
    "key (lheap w' a) = key (lheap w a)"
    "\<exists>r. CommitIfDirty md5 now (pstore w) (lheap w a) = Inr r"
proof -
  note D = cache_okD [OF ok]
  have a: "fp64 (key (lheap w a)) = fp" "key (lheap w a) \<in> K" "\<not> deleteMe (lheap w a)"
    "list_ok (pstore w) (lheap w a)" "synced (pstore w) (lheap w a)"
    using D(6) [OF m] by (simp_all add: mapped_ok_def)
  obtain dn st' l' where run: "CommitIfDirty md5 now (pstore w) (lheap w a) = Inr (dn, st', l')"
    and st': "store_ok st'" "\<not> readOnly st'" and l': "key l' = key (lheap w a)"
      "refcount l' = refcount (lheap w a)" "deleteMe l' = deleteMe (lheap w a)" "mlayer l' = []"
      "list_ok st' l'" "synced st' l'" "list_view st' l' = list_view (pstore w) (lheap w a)"
    and f: "list_ok st' (fresh (key (lheap w a)))"
      "list_view st' (fresh (key (lheap w a))) = list_view (pstore w) (lheap w a)"
      "\<forall>k. k \<noteq> key (lheap w a) \<longrightarrow> store_Get st' k = store_Get (pstore w) k"
    by (rule CommitIfDirty_mapped [OF a(4,5) D(3) [OF a(2)] D(1,2) fit md5])
  let ?w = "w\<lparr>pstore := st', lheap := (lheap w)(a := l')\<rparr>"
  have "\<not> deleteMe l'" using l'(3) a(3) by simp
  note c = cache_commit [OF ok m inj l'(1,2) this l'(5,6,7) st' f(1,3), of ?w, simplified]
  show thesis
    by (rule that [of ?w "if dn then c\<lparr>merged := merged c + 1\<rparr> else c\<lparr>clean := clean c + 1\<rparr>"])
      (use c l' f(3) run in \<open>simp_all add: mergeAndUpdate_def\<close>)
qed

text \<open>Marking a list does not change its commit.\<close>

lemma getPostingList_SetForDeletion:
  "getPostingList st (SetForDeletion l) = map_sum id (\<lambda>(pl, l'). (pl, SetForDeletion l')) (getPostingList st l)"
  by (auto simp: getPostingList_def SetForDeletion_def Let_def go_bind_def
      split: option.splits sum.splits go_err.splits)

lemma CommitIfDirty_SetForDeletion:
  assumes "CommitIfDirty md5 now st l = Inr (c, st', l')"
  shows "CommitIfDirty md5 now st (SetForDeletion l) = Inr (c, st', SetForDeletion l')"
proof (cases "dirtyTs l = 0 \<or> mlayer l = []")
  case True
  with assms show ?thesis by (auto simp: CommitIfDirty_def commit_def SetForDeletion_def)
next
  case False
  then obtain pl l1 where get: "getPostingList st l = Inr (pl, l1)"
    using assms by (auto simp: CommitIfDirty_def commit_def iterate_def go_simps)
  have get': "getPostingList st (SetForDeletion l) = Inr (pl, SetForDeletion l1)"
    by (simp add: getPostingList_SetForDeletion get)
  have *: "mlayer (SetForDeletion l) = mlayer l" "dirtyTs (SetForDeletion l) = dirtyTs l"
    "key (SetForDeletion l) = key l" "SetForDeletion (l\<lparr>dirtyTs := 0\<rparr>) = (SetForDeletion l)\<lparr>dirtyTs := 0\<rparr>"
    by (simp_all add: SetForDeletion_def)
  have "SetForDeletion (l1\<lparr>pbuffer := None, dirtyTs := 0, mlayer := [], lastCompact := now\<rparr>)
      = (SetForDeletion l1)\<lparr>pbuffer := None, dirtyTs := 0, mlayer := [], lastCompact := now\<rparr>"
    by (simp add: SetForDeletion_def)
  with assms False show ?thesis
    by (auto simp: CommitIfDirty_def commit_def iterate_def get get' * go_bind_def Let_def split: sum.splits)
qed

lemma ran_remove:
  assumes "M x = Some a" "\<And>y. M y = Some a \<Longrightarrow> y = x"
  shows "ran (M(x := None)) = ran M - {a}"
proof (intro subset_antisym subsetI)
  fix b assume "b \<in> ran (M(x := None))"
  then obtain y where y: "y \<noteq> x" "M y = Some b" by (auto simp: ran_def split: if_splits)
  then have "b \<noteq> a" using assms(2) [of y] by blast
  with ranI [of M y b] y show "b \<in> ran M - {a}" by blast
next
  fix b assume "b \<in> ran M - {a}"
  then obtain y where y: "M y = Some b" "b \<noteq> a" by (auto simp: ran_def)
  then have "y \<noteq> x" using assms(1) by auto
  with y have "(M(x := None)) y = Some b" by simp
  then show "b \<in> ran (M(x := None))" by (rule ranI)
qed

text \<open>A list without mutations leaves the map and gives its reference back.\<close>

lemma cache_unmap:
  assumes ok: "cache_ok fp64 K M w H" and m: "M fp = Some a" and e: "mlayer (lheap w a) = []"
    and inj: "inj_on fp64 K"
  obtains w' where "cache_decr a (w\<lparr>lheap := (lheap w)(a := SetForDeletion (lheap w a))\<rparr>) = Inr w'"
    "cache_ok fp64 K (M(fp := None)) w' H"
    "\<forall>k \<in> K. cache_view fp64 (M(fp := None)) w' k = cache_view fp64 M w k" "lhmap w' = lhmap w"
    "batches w' = batches w" "\<forall>b. b \<noteq> a \<longrightarrow> lheap w' b = lheap w b" "pstore w' = pstore w"
proof -
  note D = cache_okD [OF ok]
  have a: "fp64 (key (lheap w a)) = fp" "key (lheap w a) \<in> K" "synced (pstore w) (lheap w a)"
    using D(6) [OF m] by (simp_all add: mapped_ok_def)
  have ar: "a \<in> ran M" using m by (rule ranI)
  have rc: "refcount (lheap w a) = int (count H a) + 1" using D(8) [of a] ar by simp
  let ?l = "(SetForDeletion (lheap w a))\<lparr>refcount := int (count H a)\<rparr>"
  let ?w = "w\<lparr>lheap := (lheap w)(a := ?l), lpool := if count H a = 0 then a # lpool w else lpool w\<rparr>"
  have ran: "ran (M(fp := None)) = ran M - {a}"
    by (rule ran_remove [of M fp a, OF m]) (rule mapped_unique [OF ok _ m])
  have ap: "a < lnext w" "a \<notin> set (lpool w)" using D(7) [of a] ar by simp_all
  show thesis
  proof (rule that [of ?w])
    show "cache_decr a (w\<lparr>lheap := (lheap w)(a := SetForDeletion (lheap w a))\<rparr>) = Inr ?w"
      by (simp add: cache_decr_def decr_def SetForDeletion_def rc)
    have "b \<in># H \<Longrightarrow> count H b \<noteq> 0" for b by simp
    show "cache_ok fp64 K (M(fp := None)) ?w H"
      unfolding cache_ok_def ran
    proof (intro conjI allI impI ballI)
      fix fp' b assume "(M(fp := None)) fp' = Some b"
      then have b: "M fp' = Some b" "fp' \<noteq> fp" by (auto split: if_splits)
      then have "b \<noteq> a" using mapped_unique [OF ok m, of fp'] by auto
      then show "mapped_ok fp64 K (pstore ?w) fp' (lheap ?w b)" using D(6) [OF b(1)] by simp
    next
      fix b
      show "(b < lnext ?w \<and> b \<notin> set (lpool ?w)) = (b \<in> ran M - {a} \<or> b \<in># H)"
        using D(7) [of b] ap by (cases "b = a") (auto simp: count_eq_zero_iff)
    next
      fix b assume "b \<in> ran M - {a} \<or> b \<in># H"
      then show "refcount (lheap ?w b) = int (count H b) + (if b \<in> ran M - {a} then 1 else 0)"
        using D(8) [of b] by (cases "b = a") auto
    next
      fix b assume "b \<in># H" "b \<notin> ran M - {a}"
      then show "deleteMe (lheap ?w b)" using D(9) [of b]
        by (cases "b = a") (auto simp: SetForDeletion_def)
    qed (use D(1-5) ap in \<open>auto split: if_splits\<close>)
    show "\<forall>k \<in> K. cache_view fp64 (M(fp := None)) ?w k = cache_view fp64 M w k"
    proof
      fix k assume k: "k \<in> K"
      show "cache_view fp64 (M(fp := None)) ?w k = cache_view fp64 M w k"
      proof (cases "fp64 k = fp")
        case True
        then have "k = key (lheap w a)" using inj k a(1,2) by (auto simp: inj_on_def)
        then show ?thesis using True m synced_empty [OF a(3) e] by (simp add: cache_view_def)
      next
        case False
        then have "M (fp64 k) \<noteq> Some a" using mapped_unique [OF ok m, of "fp64 k"] by auto
        then show ?thesis using False by (auto simp: cache_view_def split: option.splits)
      qed
    qed
  qed simp_all
qed

lemma mergeAndUpdate_mark:
  assumes "mergeAndUpdate md5 now a (w, c) = Inr (w', c')"
    "\<exists>r. CommitIfDirty md5 now (pstore w) (lheap w a) = Inr r"
  shows "mergeAndUpdate md5 now a (w\<lparr>lheap := (lheap w)(a := SetForDeletion (lheap w a))\<rparr>, c)
    = Inr (w'\<lparr>lheap := (lheap w')(a := SetForDeletion (lheap w' a))\<rparr>, c')"
proof -
  obtain dn st' l' where run: "CommitIfDirty md5 now (pstore w) (lheap w a) = Inr (dn, st', l')"
    using assms(2) by auto
  from CommitIfDirty_SetForDeletion [OF run] assms(1) show ?thesis
    by (auto simp: mergeAndUpdate_def run)
qed

lemma merge_worker_ok:
  assumes "cache_ok fp64 K M w H" "distinct ks" "set ks = dom M" "fits M w" "inj_on fp64 K"
    "\<forall>x. length (md5 x) = 16"
  shows "\<exists>w' c'. merge_worker md5 now (map (\<lambda>k. the (M k)) ks) (w, c) = Inr (w', c')
    \<and> cache_ok fp64 K Map.empty w' H \<and> (\<forall>k \<in> K. cache_view fp64 Map.empty w' k = cache_view fp64 M w k)
    \<and> lhmap w' = lhmap w \<and> batches w' = batches w"
  using assms(1-4)
proof (induction ks arbitrary: M w c)
  case Nil
  then have "dom M = {}" by simp
  then have "M = Map.empty" by (simp only: dom_eq_empty_conv)
  with Nil show ?case by simp
next
  case (Cons fp ks)
  obtain a where a: "M fp = Some a" using Cons.prems(3) by auto
  have fit: "fits_list (pstore w) (lheap w a)" using Cons.prems(4) ranI [of M fp a, OF a] by (simp add: fits_def)
  obtain w1 c1 where w1: "mergeAndUpdate md5 now a (w, c) = Inr (w1, c1)" "cache_ok fp64 K M w1 H"
    "\<forall>k \<in> K. cache_view fp64 M w1 k = cache_view fp64 M w k" "lhmap w1 = lhmap w" "batches w1 = batches w"
    "mlayer (lheap w1 a) = []" "\<forall>b. b \<noteq> a \<longrightarrow> lheap w1 b = lheap w b"
    "\<forall>k. k \<noteq> key (lheap w a) \<longrightarrow> store_Get (pstore w1) k = store_Get (pstore w) k"
    "key (lheap w1 a) = key (lheap w a)"
    "\<exists>r. CommitIfDirty md5 now (pstore w) (lheap w a) = Inr r"
    by (rule mergeAndUpdate_ok [OF Cons.prems(1) a assms(5) fit assms(6), where c = c and now = now])
  obtain w2 where w2: "cache_decr a (w1\<lparr>lheap := (lheap w1)(a := SetForDeletion (lheap w1 a))\<rparr>) = Inr w2"
    "cache_ok fp64 K (M(fp := None)) w2 H"
    "\<forall>k \<in> K. cache_view fp64 (M(fp := None)) w2 k = cache_view fp64 M w1 k" "lhmap w2 = lhmap w1"
    "batches w2 = batches w1" "\<forall>b. b \<noteq> a \<longrightarrow> lheap w2 b = lheap w1 b" "pstore w2 = pstore w1"
    by (rule cache_unmap [OF w1(2) a w1(6) assms(5)])
  have ks: "distinct ks" "fp \<notin> set ks" "set ks = dom (M(fp := None))" using Cons.prems(2,3) by auto
  have "fits (M(fp := None)) w2"
    unfolding fits_def
  proof
    fix b assume "b \<in> ran (M(fp := None))"
    then obtain fp' where b: "M fp' = Some b" "fp' \<noteq> fp" by (auto simp: ran_def split: if_splits)
    then have ba: "b \<noteq> a" using mapped_unique [OF Cons.prems(1) a, of fp'] by auto
    have "key (lheap w b) \<noteq> key (lheap w a)"
      using cache_okD(6) [OF Cons.prems(1) a] cache_okD(6) [OF Cons.prems(1) b(1)] b(2) by (auto simp: mapped_ok_def)
    then have "fits_list (pstore w1) (lheap w b) = fits_list (pstore w) (lheap w b)"
      by (intro store_cong(5)) (use w1(8) in blast)
    moreover have "fits_list (pstore w) (lheap w b)"
      using Cons.prems(4) ranI [of M fp' b, OF b(1)] by (simp add: fits_def)
    ultimately show "fits_list (pstore w2) (lheap w2 b)" using w2(6,7) w1(7) ba by simp
  qed
  from Cons.IH [OF w2(2) ks(1,3) this, of c1] obtain w' c' where
    w': "merge_worker md5 now (map (\<lambda>k. the ((M(fp := None)) k)) ks) (w2, c1) = Inr (w', c')"
    "cache_ok fp64 K Map.empty w' H" "\<forall>k \<in> K. cache_view fp64 Map.empty w' k = cache_view fp64 (M(fp := None)) w2 k"
    "lhmap w' = lhmap w2" "batches w' = batches w2" by blast
  have "map (\<lambda>k. the ((M(fp := None)) k)) ks = map (\<lambda>k. the (M k)) ks" using ks(2) by auto
  note w'(1) [unfolded this]
  then show ?case
    using w'(2-5) mergeAndUpdate_mark [OF w1(1,10)] w2(1,3,4,5) w1(3,4,5) a by simp
qed

lemma MergeLists_ok:
  assumes "lm_invar (lhmap w)" "cache_ok fp64 K (lm_lookup (lhmap w)) w H" "fits (lm_lookup (lhmap w)) w"
    "inj_on fp64 K" "\<forall>x. length (md5 x) = 16"
  obtains w' where "MergeLists md5 now w = Inr w'" "lm_invar (lhmap w')" "lm_lookup (lhmap w') = Map.empty"
    "cache_ok fp64 K Map.empty w' H"
    "\<forall>k \<in> K. cache_view fp64 Map.empty w' k = cache_view fp64 (lm_lookup (lhmap w)) w k"
proof -
  from lm.drain_alpha [OF assms(1)] obtain m' as ks where d: "lm_drain (lhmap w) = (m', as)" "lm_invar m'"
    "lm_lookup m' = Map.empty" "distinct ks" "set ks = dom (lm_lookup (lhmap w))"
    "as = map (\<lambda>k. the (lm_lookup (lhmap w) k)) ks" by blast
  let ?w = "w\<lparr>lhmap := m'\<rparr>"
  have ok: "cache_ok fp64 K (lm_lookup (lhmap w)) ?w H" using assms(2) by (simp add: cache_ok_def)
  have fit: "fits (lm_lookup (lhmap w)) ?w" using assms(3) by (simp add: fits_def)
  from merge_worker_ok [OF ok d(4,5) fit assms(4,5), of now newCounters] obtain w' c' where
    w': "merge_worker md5 now as (?w, newCounters) = Inr (w', c')" "cache_ok fp64 K Map.empty w' H"
    "\<forall>k \<in> K. cache_view fp64 Map.empty w' k = cache_view fp64 (lm_lookup (lhmap w)) ?w k" "lhmap w' = m'"
    unfolding d(6) by auto
  have "MergeLists md5 now w = Inr w'"
    using w'(1) d(1) by (simp add: MergeLists_def lm_drain_def)
  then show thesis
    by (rule that) (use w' d(2,3) in \<open>simp_all add: cache_view_def split: option.split\<close>)
qed

section \<open>Clients\<close>

text \<open>A list taken from the pool or made anew is nobody's.\<close>

lemma cache_getNew_spec:
  assumes "cache_ok fp64 K M w H"
  obtains l w1 where "cache_getNew w = (l, w1)" "lheap w1 = (lheap w)(l := getNew)" "lhmap w1 = lhmap w"
    "pstore w1 = pstore w" "l \<notin> ran M" "l \<notin># H" "distinct (lpool w1)" "\<forall>a \<in> set (lpool w1). a < lnext w1"
    "\<forall>a. (a < lnext w1 \<and> a \<notin> set (lpool w1)) = (a = l \<or> (a < lnext w \<and> a \<notin> set (lpool w)))"
proof (cases "lpool w")
  case Nil
  then show thesis
    using cache_okD(7) [OF assms, of "lnext w"]
    by (intro that [of "lnext w" "snd (cache_getNew w)"]) (auto simp: cache_getNew_def)
next
  case (Cons a as)
  then show thesis
    using cache_okD(4,5) [OF assms] cache_okD(7) [OF assms, of a]
    by (intro that [of a "snd (cache_getNew w)"]) (auto simp: cache_getNew_def)
qed

lemma getNew_init:
  "list_ok st (List_init fp32 fp64 k (getNew\<lparr>refcount := n\<rparr>)) = list_ok st (fresh k)"
  "list_view st (List_init fp32 fp64 k (getNew\<lparr>refcount := n\<rparr>)) = list_view st (fresh k)"
  "synced st (List_init fp32 fp64 k (getNew\<lparr>refcount := n\<rparr>))"
proof -
  note c = fields_cong [of "List_init fp32 fp64 k (getNew\<lparr>refcount := n\<rparr>)" "fresh k" st]
  show "list_ok st (List_init fp32 fp64 k (getNew\<lparr>refcount := n\<rparr>)) = list_ok st (fresh k)"
    "list_view st (List_init fp32 fp64 k (getNew\<lparr>refcount := n\<rparr>)) = list_view st (fresh k)"
    "synced st (List_init fp32 fp64 k (getNew\<lparr>refcount := n\<rparr>))"
    using c synced_fresh [of st k] by (simp_all add: List_init_def getNew_def)
qed

lemma GetOrCreate_present:
  assumes inv: "lm_invar (lhmap w)" and ok: "cache_ok fp64 K (lm_lookup (lhmap w)) w H"
    and m: "lm_lookup (lhmap w) (fp64 k) = Some a"
  shows "GetOrCreate fp32 fp64 k w = Inr (a, cache_incr a w)"
    "cache_ok fp64 K (lm_lookup (lhmap w)) (cache_incr a w) (add_mset a H)"
    "cache_view fp64 (lm_lookup (lhmap w)) (cache_incr a w) = cache_view fp64 (lm_lookup (lhmap w)) w"
proof -
  note D = cache_okD [OF ok]
  let ?l = "(lheap w a)\<lparr>refcount := refcount (lheap w a) + 1\<rparr>"
  have ar: "a \<in> ran (lm_lookup (lhmap w))" using m by (rule ranI)
  note c = fields_cong [of ?l "lheap w a" "pstore w", simplified]
  show "GetOrCreate fp32 fp64 k w = Inr (a, cache_incr a w)"
    by (simp add: GetOrCreate_def lm.get_alpha [OF inv] m)
  show "cache_ok fp64 K (lm_lookup (lhmap w)) (cache_incr a w) (add_mset a H)"
    unfolding cache_ok_def
  proof (intro conjI allI impI)
    fix fp b assume "lm_lookup (lhmap w) fp = Some b"
    from D(6) [OF this] show "mapped_ok fp64 K (pstore (cache_incr a w)) fp (lheap (cache_incr a w) b)"
      using c by (auto simp: mapped_ok_def cache_incr_def incr_def)
  next
    fix b
    show "(b < lnext (cache_incr a w) \<and> b \<notin> set (lpool (cache_incr a w)))
        = (b \<in> ran (lm_lookup (lhmap w)) \<or> b \<in># add_mset a H)"
      using D(7) [of b] ar by (cases "b = a") (simp_all add: cache_incr_def)
  next
    fix b assume "b \<in> ran (lm_lookup (lhmap w)) \<or> b \<in># add_mset a H"
    then show "refcount (lheap (cache_incr a w) b)
        = int (count (add_mset a H) b) + (if b \<in> ran (lm_lookup (lhmap w)) then 1 else 0)"
      using D(8) [of b] ar by (cases "b = a") (simp_all add: cache_incr_def incr_def)
  next
    fix b assume "b \<in># add_mset a H" "b \<notin> ran (lm_lookup (lhmap w))"
    then show "deleteMe (lheap (cache_incr a w) b)"
      using D(9) [of b] ar by (cases "b = a") (simp_all add: cache_incr_def incr_def)
  qed (use D(1-5) in \<open>simp_all add: cache_incr_def\<close>)
  show "cache_view fp64 (lm_lookup (lhmap w)) (cache_incr a w) = cache_view fp64 (lm_lookup (lhmap w)) w"
    using c(2) by (auto simp: cache_view_def cache_incr_def incr_def fun_eq_iff split: option.splits)
qed

lemma GetOrCreate_absent:
  assumes inv: "lm_invar (lhmap w)" and ok: "cache_ok fp64 K (lm_lookup (lhmap w)) w H" and k: "k \<in> K"
    and m: "lm_lookup (lhmap w) (fp64 k) = None" and inj: "inj_on fp64 K"
  obtains a w' where "GetOrCreate fp32 fp64 k w = Inr (a, w')" "lm_invar (lhmap w')"
    "lm_lookup (lhmap w') = (lm_lookup (lhmap w))(fp64 k \<mapsto> a)" "key (lheap w' a) = k"
    "cache_ok fp64 K (lm_lookup (lhmap w')) w' (add_mset a H)"
    "\<forall>k' \<in> K. cache_view fp64 (lm_lookup (lhmap w')) w' k' = cache_view fp64 (lm_lookup (lhmap w)) w k'"
proof -
  note D = cache_okD [OF ok]
  let ?M = "lm_lookup (lhmap w)"
  obtain l w1 where new: "cache_getNew w = (l, w1)" and w1: "lheap w1 = (lheap w)(l := getNew)"
      "lhmap w1 = lhmap w" "pstore w1 = pstore w" "l \<notin> ran ?M" "l \<notin># H" "distinct (lpool w1)"
      "\<forall>a \<in> set (lpool w1). a < lnext w1"
      "\<forall>a. (a < lnext w1 \<and> a \<notin> set (lpool w1)) = (a = l \<or> (a < lnext w \<and> a \<notin> set (lpool w)))"
    by (rule cache_getNew_spec [OF ok])
  obtain m' where put: "PutIfMissing (lhmap w) (fp64 k) l = Inr (l, m')" "lm_invar m'"
      "lm_lookup m' = ?M(fp64 k \<mapsto> l)" by (rule lm.put_missing [OF inv m])
  let ?l = "List_init fp32 fp64 k (getNew\<lparr>refcount := 2\<rparr>)"
  let ?w = "w1\<lparr>lhmap := m', lheap := (lheap w)(l := ?l)\<rparr>"
  have run: "GetOrCreate fp32 fp64 k w = Inr (l, ?w)"
    by (simp add: GetOrCreate_def lm.get_alpha [OF inv] m new w1(1,2) put(1) cache_incr_def incr_def getNew_def)
  have ran: "ran (?M(fp64 k \<mapsto> l)) = insert l (ran ?M)" using m by (rule ran_map_upd)
  have l: "key ?l = k" "deleteMe ?l = False" "refcount ?l = 2"
    by (simp_all add: List_init_def getNew_def)
  have H0: "count H l = 0" using w1(5) by (simp add: not_in_iff)
  have nl: "b \<noteq> l" if "?M fp = Some b" for fp b using w1(4) ranI [of ?M fp b, OF that] by blast
  show thesis
  proof (rule that [OF run])
    have "cache_ok fp64 K (?M(fp64 k \<mapsto> l)) ?w (add_mset l H)"
      unfolding cache_ok_def ran
    proof (intro conjI allI impI)
      fix fp b assume b: "(?M(fp64 k \<mapsto> l)) fp = Some b"
      show "mapped_ok fp64 K (pstore ?w) fp (lheap ?w b)"
      proof (cases "fp = fp64 k")
        case True
        then show ?thesis using b k l D(3) [OF k] w1(3) by (simp add: mapped_ok_def getNew_init)
      next
        case False
        then show ?thesis using b nl [of fp b] D(6) [of fp b] w1(3) by simp
      qed
    next
      fix b
      show "(b < lnext ?w \<and> b \<notin> set (lpool ?w)) = (b \<in> insert l (ran ?M) \<or> b \<in># add_mset l H)"
        using D(7) [of b] w1(8) by simp blast
    next
      fix b assume "b \<in> insert l (ran ?M) \<or> b \<in># add_mset l H"
      then show "refcount (lheap ?w b) = int (count (add_mset l H) b) + (if b \<in> insert l (ran ?M) then 1 else 0)"
        using D(8) [of b] l(3) H0 by (cases "b = l") auto
    next
      fix b assume "b \<in># add_mset l H" "b \<notin> insert l (ran ?M)"
      then show "deleteMe (lheap ?w b)" using D(9) [of b] by (cases "b = l") auto
    qed (use D(1-3) w1(3,6,7) in simp_all)
    then show "cache_ok fp64 K (lm_lookup (lhmap ?w)) ?w (add_mset l H)" using put(3) by simp
    show "\<forall>k' \<in> K. cache_view fp64 (lm_lookup (lhmap ?w)) ?w k' = cache_view fp64 ?M w k'"
    proof
      fix k' assume k': "k' \<in> K"
      show "cache_view fp64 (lm_lookup (lhmap ?w)) ?w k' = cache_view fp64 ?M w k'"
      proof (cases "k' = k")
        case True
        then show ?thesis using m w1(3) put(3) by (simp add: cache_view_def getNew_init)
      next
        case False
        then have "fp64 k' \<noteq> fp64 k" using inj k k' by (auto simp: inj_on_def)
        then show ?thesis using nl [of "fp64 k'"] w1(3) put(3) by (auto simp: cache_view_def split: option.splits)
      qed
    qed
  qed (use put l in simp_all)
qed

lemma cache_decr_ok:
  assumes ok: "cache_ok fp64 K M w H" and a: "a \<in># H"
  obtains w' where "cache_decr a w = Inr w'" "cache_ok fp64 K M w' (H - {#a#})"
    "cache_view fp64 M w' = cache_view fp64 M w" "lhmap w' = lhmap w"
proof -
  note D = cache_okD [OF ok]
  let ?n = "int (count H a) + (if a \<in> ran M then 1 else 0) - 1"
  let ?l = "(lheap w a)\<lparr>refcount := ?n\<rparr>"
  let ?w = "w\<lparr>lheap := (lheap w)(a := ?l), lpool := if \<not> 0 < ?n then a # lpool w else lpool w\<rparr>"
  have rc: "refcount (lheap w a) = int (count H a) + (if a \<in> ran M then 1 else 0)" using D(8) [of a] a by simp
  have "0 < count H a" using a by simp
  then have ca: "1 \<le> int (count H a)" by linarith
  have zero: "\<not> 0 < ?n \<longleftrightarrow> a \<notin> ran M \<and> count H a = 1" using ca by (cases "a \<in> ran M") (simp_all only: if_True if_False simp_thms, presburger+)
  have "0 \<le> ?n" using ca by simp
  then have run: "cache_decr a w = Inr ?w" by (simp add: cache_decr_def decr_def rc)
  have mem: "b \<in># H - {#a#} \<longleftrightarrow> (if b = a then count H a \<noteq> 1 else b \<in># H)" for b
  proof -
    have "b \<in># H - {#a#} \<longleftrightarrow> count (H - {#a#}) b > 0" by (rule count_greater_zero_iff [symmetric])
    also have "\<dots> \<longleftrightarrow> (if b = a then count H a \<noteq> 1 else 0 < count H b)"
      using \<open>0 < count H a\<close> by (cases "b = a") (simp_all del: count_greater_zero_iff, linarith)
    finally show ?thesis by (simp only: count_greater_zero_iff)
  qed
  note c = fields_cong [of ?l "lheap w a" "pstore w", simplified]
  have ap: "a < lnext w" "a \<notin> set (lpool w)" using D(7) [of a] a by simp_all
  show thesis
  proof (rule that [OF run])
    show "cache_ok fp64 K M ?w (H - {#a#})"
      unfolding cache_ok_def
    proof (intro conjI allI impI)
      fix fp b assume "M fp = Some b"
      from D(6) [OF this] show "mapped_ok fp64 K (pstore ?w) fp (lheap ?w b)"
        using c by (auto simp: mapped_ok_def)
    next
      fix b
      show "(b < lnext ?w \<and> b \<notin> set (lpool ?w)) = (b \<in> ran M \<or> b \<in># H - {#a#})"
        unfolding mem using D(7) [of b] ap zero by (cases "b = a") auto
    next
      fix b assume "b \<in> ran M \<or> b \<in># H - {#a#}"
      then show "refcount (lheap ?w b) = int (count (H - {#a#}) b) + (if b \<in> ran M then 1 else 0)"
        using D(8) [of b] ca unfolding mem by (cases "b = a") auto
    next
      fix b assume "b \<in># H - {#a#}" "b \<notin> ran M"
      then show "deleteMe (lheap ?w b)" using D(9) [of b] a unfolding mem by (cases "b = a") auto
    qed (use D(1-5) ap in \<open>auto split: if_splits\<close>)
    show "cache_view fp64 M ?w = cache_view fp64 M w"
      using c(2) by (auto simp: cache_view_def fun_eq_iff split: option.splits)
  qed simp
qed

lemma base_view_load:
  assumes "getPostingList st l = Inr (pl, l1)"
  shows "base_view st (l1\<lparr>mlayer := ms\<rparr>) = base_view st l" "base_view st l1 = base_view st l"
proof -
  have l1: "l1 = l\<lparr>pbuffer := Some pl\<rparr>" by (rule getPostingList_pbuffer [OF assms])
  have g: "getPostingList st (l\<lparr>mlayer := []\<rparr>) = Inr (pl, l1\<lparr>mlayer := []\<rparr>)"
    using assms unfolding l1
    by (auto simp: getPostingList_def Let_def go_simps split: option.splits)
  have "list_view st (l\<lparr>mlayer := []\<rparr>) = view (Postings pl) []"
    using g by (simp add: list_view_def fun_eq_iff)
  moreover have "list_view st (l'\<lparr>mlayer := []\<rparr>) = view (Postings pl) []" if "pbuffer l' = Some pl" for l'
    using that by (simp add: list_view_def getPostingList_def fun_eq_iff)
  ultimately show "base_view st (l1\<lparr>mlayer := ms\<rparr>) = base_view st l" "base_view st l1 = base_view st l"
    using l1 by (simp_all add: base_view_def)
qed

lemma updateMutationLayer_frame:
  assumes "updateMutationLayer st l mp = Inr (ch, l')"
  shows "refcount l' = refcount l \<and> base_view st l' = base_view st l \<and> dirtyTs l' = dirtyTs l
    \<and> key l' = key l"
proof -
  have own: "base_view st (l\<lparr>mlayer := ms\<rparr>) = base_view st l" for ms by (simp add: base_view_def)
  have load: "refcount l1 = refcount l \<and> dirtyTs l1 = dirtyTs l \<and> key l1 = key l" if "getPostingList st l = Inr (pl, l1)" for pl l1
    using getPostingList_pbuffer [OF that] by simp
  show ?thesis
  proof (cases "getPostingList st l")
    case (Inl e)
    with assms own show ?thesis
      by (simp add: updateMutationLayer_def assertTruef_eq_Inr go_bind_eq_Inr Let_def split: if_splits) auto
  next
    case (Inr r)
    then obtain pl l1 where g: "getPostingList st l = Inr (pl, l1)" by (cases r) simp
    show ?thesis
      using assms own load [OF g] base_view_load [OF g] unfolding updateMutationLayer_def g
      by (simp add: go_bind_eq_Inr Let_def split: if_splits) (auto split: if_splits)
  qed
qed

lemma AddMutation_frame:
  assumes "AddMutation st now l t op = Inr (ch, l', sent)" "synced st l" "0 < now"
  shows "refcount l' = refcount l" "synced st l'"
proof -
  obtain mp l1 where u: "updateMutationLayer st l mp = Inr (ch, l1)"
    and l': "l' = (if 0 < length (mlayer l1) then l1\<lparr>dirtyTs := now\<rparr> else l1)"
    using assms(1) unfolding AddMutation_def Let_def
    by (auto simp: go_bind_eq_Inr split: if_splits)
  note f = updateMutationLayer_frame [OF u]
  show "refcount l' = refcount l" using f l' by simp
  have "base_view st l' = base_view st l1" using l' fields_cong(3) [of l' l1] by simp
  then show "synced st l'" using assms(2,3) f l' by (auto simp: synced_def)
qed

text \<open>What a mutation of the list with key \<open>k\<close> does to the views.\<close>

definition mutate_view ::
  "bytes \<Rightarrow> edge \<Rightarrow> u32 \<Rightarrow> (bytes \<Rightarrow> u64 \<Rightarrow> content option) \<Rightarrow> bytes \<Rightarrow> u64 \<Rightarrow> content option" where
  "mutate_view k t op v = v(k := snd (mutate_spec op (edge_uid t) (ValueType t, edge_bytes t, ELabel t) (v k)))"

lemma cache_mutate_ok:
  assumes ok: "cache_ok fp64 K M w H" and a: "a \<in># H" and inj: "inj_on fp64 K" and now: "0 < now"
    and run: "AddMutation (pstore w) now (lheap w a) t op = Inr (ch, l', sent)"
    and w': "lheap w' = (lheap w)(a := l')" "lnext w' = lnext w" "lpool w' = lpool w" "pstore w' = pstore w"
  shows "cache_ok fp64 K M w' H" "key (lheap w a) \<in> K"
    "\<forall>k \<in> K. cache_view fp64 M w' k = mutate_view (key (lheap w a)) t op (cache_view fp64 M w) k"
proof -
  note D = cache_okD [OF ok]
  note del = AddMutation_InrD [OF run]
  have ar: "a \<in> ran M" using D(9) [OF a] del(1) by blast
  then obtain fp where m: "M fp = Some a" by (auto simp: ran_def)
  have l: "fp64 (key (lheap w a)) = fp" "key (lheap w a) \<in> K" "list_ok (pstore w) (lheap w a)"
    "synced (pstore w) (lheap w a)" using D(6) [OF m] by (simp_all add: mapped_ok_def)
  obtain ch2 l2 where s2: "AddMutation (pstore w) now (lheap w a) t op
      = Inr (ch2, l2, if mlayer l2 = [] then [] else [ghash (lheap w a)])" "list_ok (pstore w) l2"
    "(ch2, list_view (pstore w) l2) = mutate_spec op (edge_uid t) (ValueType t, edge_bytes t, ELabel t)
       (list_view (pstore w) (lheap w a))" "key l2 = key (lheap w a)" "\<not> deleteMe l2"
    by (rule AddMutation_spec [OF l(3) del(1) AddMutation_op [OF run] del(2), where now = now])
  have eq: "l2 = l'" "ch2 = ch" using s2(1) run by simp_all
  have spec: "list_view (pstore w) l' = snd (mutate_spec op (edge_uid t) (ValueType t, edge_bytes t, ELabel t)
       (list_view (pstore w) (lheap w a)))" unfolding s2(3) [unfolded eq, symmetric] by simp
  note fr = AddMutation_frame [OF run l(4) now]
  have m': "mapped_ok fp64 K (pstore w') fp' (lheap w' b)" if b: "M fp' = Some b" for fp' b
    using D(6) [OF b] s2 fr unfolding eq w' by (auto simp: mapped_ok_def)
  show "cache_ok fp64 K M w' H"
    using D(1-5,7-9) m' fr(1) s2(5) del(1) ar unfolding cache_ok_def eq w'(2-4) by (auto simp: w'(1))
  show "key (lheap w a) \<in> K" by (rule l(2))
  show "\<forall>k \<in> K. cache_view fp64 M w' k = mutate_view (key (lheap w a)) t op (cache_view fp64 M w) k"
  proof
    fix k assume k: "k \<in> K"
    show "cache_view fp64 M w' k = mutate_view (key (lheap w a)) t op (cache_view fp64 M w) k"
    proof (cases "k = key (lheap w a)")
      case True
      then show ?thesis using l(1) m spec w'(1,4) by (simp add: cache_view_def mutate_view_def)
    next
      case False
      then have "fp64 k \<noteq> fp" using inj k l(1,2) by (auto simp: inj_on_def)
      then have "M (fp64 k) \<noteq> Some a" using mapped_unique [OF ok m, of "fp64 k"] by auto
      then show ?thesis using False w'(1,4) by (auto simp: cache_view_def mutate_view_def split: option.splits)
    qed
  qed
qed

section \<open>Runs of the cache\<close>

text \<open>
  A step carries the mutation it makes, if any. A send on the dirty channel waits while ten
  thousand keys are queued; a batch is merged key by key.
\<close>

type_synonym mutation = "bytes \<times> edge \<times> u32"

inductive cache_step ::
  "(bytes \<Rightarrow> bytes) \<Rightarrow> (bytes \<Rightarrow> u32) \<Rightarrow> (bytes \<Rightarrow> u64) \<Rightarrow> (nat \<Rightarrow> nat) \<Rightarrow> bytes set
    \<Rightarrow> cache \<times> addr multiset \<Rightarrow> mutation list \<Rightarrow> cache \<times> addr multiset \<Rightarrow> bool"
  for md5 fp32 fp64 frac K where
  acquire: "k \<in> K \<Longrightarrow> GetOrCreate fp32 fp64 k w = Inr (a, w') \<Longrightarrow>
    cache_step md5 fp32 fp64 frac K (w, H) [] (w', add_mset a H)"
| release: "a \<in># H \<Longrightarrow> cache_decr a w = Inr w' \<Longrightarrow>
    cache_step md5 fp32 fp64 frac K (w, H) [] (w', H - {#a#})"
| mutate: "a \<in># H \<Longrightarrow> length (dirtyChan w) < 10000 \<Longrightarrow> 0 < now \<Longrightarrow>
    AddMutation (pstore w) now (lheap w a) t op = Inr (ch, l', sent) \<Longrightarrow>
    cache_step md5 fp32 fp64 frac K (w, H) [(key (lheap w a), t, op)]
      (w\<lparr>lheap := (lheap w)(a := l'), dirtyChan := dirtyChan w @ sent\<rparr>, H)"
| receive: "cache_step md5 fp32 fp64 frac K (w, H) [] (periodic_dirty w, H)"
| tick: "fits (lm_lookup (lhmap w)) w \<Longrightarrow> periodic_tick md5 frac maxmem mem now w = Inr w' \<Longrightarrow>
    cache_step md5 fp32 fp64 frac K (w, H) [] (w', H)"
| merge_key: "fits (lm_lookup (lhmap w)) w \<Longrightarrow> batches w = bs @ (k # ks) # bs' \<Longrightarrow>
    mergeKeys_loop md5 now [k] (w, newCounters) = Inr (w', c) \<Longrightarrow>
    cache_step md5 fp32 fp64 frac K (w, H) [] (w'\<lparr>batches := bs @ ks # bs'\<rparr>, H)"
| merge_end: "batches w = bs @ [] # bs' \<Longrightarrow>
    cache_step md5 fp32 fp64 frac K (w, H) [] (w\<lparr>batches := bs @ bs'\<rparr>, H)"

inductive cache_run ::
  "(bytes \<Rightarrow> bytes) \<Rightarrow> (bytes \<Rightarrow> u32) \<Rightarrow> (bytes \<Rightarrow> u64) \<Rightarrow> (nat \<Rightarrow> nat) \<Rightarrow> bytes set
    \<Rightarrow> cache \<times> addr multiset \<Rightarrow> mutation list \<Rightarrow> cache \<times> addr multiset \<Rightarrow> bool"
  for md5 fp32 fp64 frac K s where
  run_start: "cache_run md5 fp32 fp64 frac K s [] s"
| run_step: "cache_run md5 fp32 fp64 frac K s ms s1 \<Longrightarrow> cache_step md5 fp32 fp64 frac K s1 m s2 \<Longrightarrow>
    cache_run md5 fp32 fp64 frac K s (ms @ m) s2"

definition inv_state :: "(bytes \<Rightarrow> u64) \<Rightarrow> bytes set \<Rightarrow> cache \<times> addr multiset \<Rightarrow> bool" where
  "inv_state fp64 K s \<longleftrightarrow> lm_invar (lhmap (fst s)) \<and> cache_ok fp64 K (lm_lookup (lhmap (fst s))) (fst s) (snd s)"

definition key_view :: "(bytes \<Rightarrow> u64) \<Rightarrow> cache \<Rightarrow> bytes \<Rightarrow> u64 \<Rightarrow> content option" where
  "key_view fp64 w = cache_view fp64 (lm_lookup (lhmap w)) w"

lemma cache_ok_cong:
  assumes "lheap w' = lheap w" "lnext w' = lnext w" "lpool w' = lpool w" "pstore w' = pstore w"
  shows "cache_ok fp64 K M w' H = cache_ok fp64 K M w H" "cache_view fp64 M w' = cache_view fp64 M w"
  using assms by (simp_all add: cache_ok_def cache_view_def fun_eq_iff split: option.split)

lemma quiet_step:
  assumes "inv_state fp64 K (w, H)" "lheap w' = lheap w" "lnext w' = lnext w" "lpool w' = lpool w"
    "pstore w' = pstore w" "lhmap w' = lhmap w"
  shows "inv_state fp64 K (w', H)" "key_view fp64 w' = key_view fp64 w"
  using assms cache_ok_cong [OF assms(2-5)] by (simp_all add: inv_state_def key_view_def)

lemma gentleMerge_frame:
  "lheap (gentleMerge frac w) = lheap w" "lnext (gentleMerge frac w) = lnext w"
  "lpool (gentleMerge frac w) = lpool w" "pstore (gentleMerge frac w) = pstore w"
  "lhmap (gentleMerge frac w) = lhmap w"
  by (simp_all add: gentleMerge_def Let_def split: prod.split)

lemma periodic_tick_ok:
  assumes "inv_state fp64 K (w, H)" "fits (lm_lookup (lhmap w)) w" "inj_on fp64 K"
    "\<forall>x. length (md5 x) = 16" "periodic_tick md5 frac maxmem mem now w = Inr w'"
  shows "inv_state fp64 K (w', H) \<and> (\<forall>k \<in> K. key_view fp64 w' k = key_view fp64 w k)"
proof (cases "mem > maxmem")
  case True
  let ?w = "w\<lparr>dirtyChan := []\<rparr>"
  have q: "inv_state fp64 K (?w, H)" "key_view fp64 ?w = key_view fp64 w"
    using quiet_step [OF assms(1), of ?w] by simp_all
  have i: "lm_invar (lhmap ?w)" "cache_ok fp64 K (lm_lookup (lhmap ?w)) ?w H"
    using q(1) by (simp_all add: inv_state_def)
  have f: "fits (lm_lookup (lhmap ?w)) ?w" using assms(2) by (simp add: fits_def)
  obtain w1 where w1: "MergeLists md5 now ?w = Inr w1" "lm_invar (lhmap w1)" "lm_lookup (lhmap w1) = Map.empty"
    "cache_ok fp64 K Map.empty w1 H"
    "\<forall>k \<in> K. cache_view fp64 Map.empty w1 k = cache_view fp64 (lm_lookup (lhmap ?w)) ?w k"
    by (rule MergeLists_ok [OF i f assms(3,4), where now = now])
  have "inv_state fp64 K (w1, H)" using w1(2-4) by (simp add: inv_state_def)
  moreover have "w' = w1\<lparr>dirtyMap := []\<rparr>" using assms(5) True w1(1) by (simp add: periodic_tick_def)
  ultimately have "inv_state fp64 K (w', H)" "key_view fp64 w' = key_view fp64 w1"
    using quiet_step [of fp64 K w1 H w'] by simp_all
  then show ?thesis using w1(3,5) q(2) by (simp add: key_view_def)
next
  case False
  then have "w' = gentleMerge frac w" using assms(5) by (simp add: periodic_tick_def)
  then show ?thesis using quiet_step [OF assms(1), of w'] by (simp add: gentleMerge_frame)
qed

lemma merge_key_ok:
  assumes "inv_state fp64 K (w, H)" "fits (lm_lookup (lhmap w)) w" "inj_on fp64 K"
    "\<forall>x. length (md5 x) = 16" "mergeKeys_loop md5 now [k] (w, c) = Inr (w', c')"
  shows "inv_state fp64 K (w', H) \<and> (\<forall>k \<in> K. key_view fp64 w' k = key_view fp64 w k)"
proof (cases "lm_lookup (lhmap w) k")
  case None
  then have "w' = w" using assms(1,5) lm.get_alpha by (simp add: inv_state_def)
  then show ?thesis using assms(1) by simp
next
  case (Some a)
  have ok: "cache_ok fp64 K (lm_lookup (lhmap w)) w H" "lm_invar (lhmap w)"
    using assms(1) by (simp_all add: inv_state_def)
  have fit: "fits_list (pstore w) (lheap w a)"
    using assms(2) ranI [of "lm_lookup (lhmap w)" k a, OF Some] by (simp add: fits_def)
  obtain w1 c1 where w1: "mergeAndUpdate md5 now a (w, c) = Inr (w1, c1)"
    "cache_ok fp64 K (lm_lookup (lhmap w)) w1 H"
    "\<forall>k \<in> K. cache_view fp64 (lm_lookup (lhmap w)) w1 k = cache_view fp64 (lm_lookup (lhmap w)) w k"
    "lhmap w1 = lhmap w"
    by (rule mergeAndUpdate_ok [OF ok(1) Some assms(3) fit assms(4), where now = now and c = c])
  have "w' = w1" using assms(5) w1(1) Some lm.get_alpha [OF ok(2)] by (cases c1) simp
  then show ?thesis using w1 ok(2) by (simp add: inv_state_def key_view_def)
qed

lemma cache_step_ok:
  assumes "cache_step md5 fp32 fp64 frac K s m s'" "inv_state fp64 K s" "inj_on fp64 K"
    "\<forall>x. length (md5 x) = 16"
  shows "inv_state fp64 K s' \<and>
    (\<forall>k \<in> K. key_view fp64 (fst s') k = fold (\<lambda>(k, t, op). mutate_view k t op) m (key_view fp64 (fst s)) k)"
  using assms(1,2)
proof (cases rule: cache_step.cases)
  case (acquire k w a w' H)
  have i: "lm_invar (lhmap w)" "cache_ok fp64 K (lm_lookup (lhmap w)) w H"
    using assms(2) acquire by (simp_all add: inv_state_def)
  show ?thesis
  proof (cases "lm_lookup (lhmap w) (fp64 k)")
    case None
    obtain a1 w1 where "GetOrCreate fp32 fp64 k w = Inr (a1, w1)" "lm_invar (lhmap w1)"
      "lm_lookup (lhmap w1) = (lm_lookup (lhmap w))(fp64 k \<mapsto> a1)" "key (lheap w1 a1) = k"
      "cache_ok fp64 K (lm_lookup (lhmap w1)) w1 (add_mset a1 H)"
      "\<forall>k' \<in> K. cache_view fp64 (lm_lookup (lhmap w1)) w1 k' = cache_view fp64 (lm_lookup (lhmap w)) w k'"
      by (rule GetOrCreate_absent [OF i acquire(4) None assms(3)])
    then show ?thesis using acquire by (simp add: inv_state_def key_view_def)
  next
    case (Some b)
    have "lhmap (cache_incr b w) = lhmap w" by (simp add: cache_incr_def)
    then show ?thesis
      using GetOrCreate_present(1) [OF i Some, of fp32] GetOrCreate_present(2,3) [OF i Some] acquire i(1) by (simp add: inv_state_def key_view_def)
  qed
next
  case (release a H w w')
  then have i: "cache_ok fp64 K (lm_lookup (lhmap w)) w H" "lm_invar (lhmap w)"
    using assms(2) by (simp_all add: inv_state_def)
  obtain w1 where "cache_decr a w = Inr w1" "cache_ok fp64 K (lm_lookup (lhmap w)) w1 (H - {#a#})"
    "cache_view fp64 (lm_lookup (lhmap w)) w1 = cache_view fp64 (lm_lookup (lhmap w)) w" "lhmap w1 = lhmap w"
    by (rule cache_decr_ok [OF i(1) release(4)])
  then show ?thesis using release i(2) by (simp add: inv_state_def key_view_def)
next
  case (mutate a H w now t op ch l' sent)
  then have i: "cache_ok fp64 K (lm_lookup (lhmap w)) w H" "lm_invar (lhmap w)"
    using assms(2) by (simp_all add: inv_state_def)
  let ?w = "w\<lparr>lheap := (lheap w)(a := l'), dirtyChan := dirtyChan w @ sent\<rparr>"
  note c = cache_mutate_ok [OF i(1) mutate(4) assms(3) mutate(6,7), where w' = ?w]
  show ?thesis using c mutate i(2) by (simp add: inv_state_def key_view_def)
next
  case (receive w H)
  then show ?thesis using quiet_step [of fp64 K w H "periodic_dirty w"] assms(2)
    by (simp add: periodic_dirty_def split: list.splits)
next
  case (tick w maxmem mem now w' H)
  then show ?thesis using periodic_tick_ok [of fp64 K w H md5 frac maxmem mem now w'] assms(2-4) by simp
next
  case (merge_key w bs k ks bs' now w' c H)
  have i: "inv_state fp64 K (w', H) \<and> (\<forall>k \<in> K. key_view fp64 w' k = key_view fp64 w k)"
    using merge_key_ok [of fp64 K w H md5 now k newCounters w' c] merge_key assms(2-4) by simp
  then show ?thesis using quiet_step [of fp64 K w' H "w'\<lparr>batches := bs @ ks # bs'\<rparr>"] merge_key by simp
next
  case (merge_end w bs bs' H)
  then show ?thesis using quiet_step [of fp64 K w H "w\<lparr>batches := bs @ bs'\<rparr>"] assms(2) by simp
qed

lemma mutate_view_cong:
  assumes "\<forall>k \<in> K. v k = v' k"
  shows "\<forall>k \<in> K. fold (\<lambda>(k, t, op). mutate_view k t op) ms v k = fold (\<lambda>(k, t, op). mutate_view k t op) ms v' k"
  using assms
proof (induction ms arbitrary: v v')
  case (Cons m ms)
  obtain k t op where m: "m = (k, t, op)" by (cases m)
  have "\<forall>k' \<in> K. mutate_view k t op v k' = mutate_view k t op v' k'"
    using Cons.prems by (auto simp: mutate_view_def)
  from Cons.IH [OF this] show ?case by (simp add: m)
qed simp

lemma cache_run_ok:
  assumes "cache_run md5 fp32 fp64 frac K s ms s'" "inv_state fp64 K s" "inj_on fp64 K"
    "\<forall>x. length (md5 x) = 16"
  shows "inv_state fp64 K s' \<and>
    (\<forall>k \<in> K. key_view fp64 (fst s') k = fold (\<lambda>(k, t, op). mutate_view k t op) ms (key_view fp64 (fst s)) k)"
  using assms(1)
proof (induction rule: cache_run.induct)
  case run_start
  then show ?case using assms(2) by simp
next
  case (run_step ms s1 m s2)
  note st = cache_step_ok [OF run_step(2) _ assms(3,4)]
  show ?case using st run_step.IH
      mutate_view_cong [of K "key_view fp64 (fst s1)" "fold (\<lambda>(k, t, op). mutate_view k t op) ms (key_view fp64 (fst s))" m]
    by simp
qed

lemma init_state:
  assumes "0 < n" "n < 2 ^ 64" "store_ok ps" "\<not> readOnly ps" "\<forall>k \<in> K. list_ok ps (fresh k)"
  shows "inv_state fp64 K (cache_Init n ps, {#})" "key_view fp64 (cache_Init n ps) k = list_view ps (fresh k)"
  using assms lm_new [OF assms(1,2)]
  by (simp_all add: inv_state_def cache_ok_def cache_Init_def key_view_def cache_view_def)

section \<open>Properties\<close>

lemma GetOrCreate_view:
  assumes "inv_state fp64 K (w, H)" "k \<in> K" "inj_on fp64 K"
  obtains a w' where "GetOrCreate fp32 fp64 k w = Inr (a, w')" "key (lheap w' a) = k"
    "list_view (pstore w') (lheap w' a) = key_view fp64 w k" "inv_state fp64 K (w', add_mset a H)"
    "list_ok (pstore w') (lheap w' a)" "\<not> deleteMe (lheap w' a)"
proof -
  have i: "lm_invar (lhmap w)" "cache_ok fp64 K (lm_lookup (lhmap w)) w H"
    using assms(1) by (simp_all add: inv_state_def)
  show thesis
  proof (cases "lm_lookup (lhmap w) (fp64 k)")
    case None
    obtain a w1 where w1: "GetOrCreate fp32 fp64 k w = Inr (a, w1)" "lm_invar (lhmap w1)"
      "lm_lookup (lhmap w1) = (lm_lookup (lhmap w))(fp64 k \<mapsto> a)" "key (lheap w1 a) = k"
      "cache_ok fp64 K (lm_lookup (lhmap w1)) w1 (add_mset a H)"
      "\<forall>k' \<in> K. cache_view fp64 (lm_lookup (lhmap w1)) w1 k' = cache_view fp64 (lm_lookup (lhmap w)) w k'"
      by (rule GetOrCreate_absent [OF i assms(2) None assms(3)])
    have m: "lm_lookup (lhmap w1) (fp64 k) = Some a" using w1(3) by simp
    from cache_okD(6) [OF w1(5) m] have "list_ok (pstore w1) (lheap w1 a)" "\<not> deleteMe (lheap w1 a)"
      by (simp_all add: mapped_ok_def)
    moreover have "list_view (pstore w1) (lheap w1 a) = key_view fp64 w k"
      using bspec [OF w1(6) assms(2)] m by (simp add: cache_view_def key_view_def)
    ultimately show thesis using that [OF w1(1,4)] w1(2,5) by (simp add: inv_state_def)
  next
    case (Some a)
    have m: "mapped_ok fp64 K (pstore w) (fp64 k) (lheap w a)" by (rule cache_okD(6) [OF i(2) Some])
    let ?l = "lheap (cache_incr a w) a"
    have l: "pbuffer ?l = pbuffer (lheap w a)" "key ?l = key (lheap w a)" "mlayer ?l = mlayer (lheap w a)"
      "deleteMe ?l = deleteMe (lheap w a)" "pstore (cache_incr a w) = pstore w" "lhmap (cache_incr a w) = lhmap w"
      by (simp_all add: cache_incr_def incr_def)
    note c = fields_cong [OF l(1-3), of "pstore w"]
    have "key (lheap w a) = k" using m assms(2,3) by (auto simp: mapped_ok_def inj_on_def)
    then show thesis
      using that [OF GetOrCreate_present(1) [OF i Some, of fp32]] GetOrCreate_present(2) [OF i Some]
        c l m i(1) Some
      by (simp add: inv_state_def key_view_def cache_view_def mapped_ok_def)
  qed
qed

text \<open>
  C15: Whatever clients, merges and evictions have done, \<^verbatim>\<open>GetOrCreate\<close> returns a list for the key
  asked for, and that list shows what the store held at the start with the mutations of all lists
  of that key applied in order: eviction, merging and reloading are invisible. Fingerprints must
  not collide on the keys in use, and lists must fit their encoding.
\<close>

theorem cache_refines_mutations:
  assumes "0 < n" "n < 2 ^ 64" "store_ok ps" "\<not> readOnly ps" "\<forall>k \<in> K. list_ok ps (fresh k)"
    and "inj_on fp64 K" "\<forall>x. length (md5 x) = 16"
    and "cache_run md5 fp32 fp64 frac K (cache_Init n ps, {#}) ms (w, H)" "k \<in> K"
  shows "\<exists>a w'. GetOrCreate fp32 fp64 k w = Inr (a, w') \<and> key (lheap w' a) = k
    \<and> list_view (pstore w') (lheap w' a)
        = fold (\<lambda>(k, t, op). mutate_view k t op) ms (\<lambda>k. list_view ps (fresh k)) k"
proof -
  note i = init_state [OF assms(1-5)]
  have r: "inv_state fp64 K (w, H)"
    "key_view fp64 w k = fold (\<lambda>(k, t, op). mutate_view k t op) ms (key_view fp64 (cache_Init n ps)) k"
    using cache_run_ok [OF assms(8) i(1) assms(6,7)] assms(9) by simp_all
  have "key_view fp64 (cache_Init n ps) = (\<lambda>k. list_view ps (fresh k))" using i(2) by (simp add: fun_eq_iff)
  with r(2) GetOrCreate_view [OF r(1) assms(9,6), of fp32] show ?thesis by metis
qed

definition sample_fp :: "bytes \<Rightarrow> u64" where "sample_fp k = 7"
definition sample_md5 :: "bytes \<Rightarrow> bytes" where "sample_md5 x = replicate 16 (CHR 0x41)"

lemma list_ok_empty_store: "list_ok empty_store (fresh k)"
  by (simp add: list_ok_def getPostingList_def fresh_def getNew_def store_Get_def empty_store_def
      empty_posting_list_def layers_ok_def postings_ok_def)

lemma sample_state: "inv_state sample_fp {''k''} (cache_Init 32 empty_store, {#})"
  by (rule init_state) (simp_all add: store_ok_def empty_store_def list_ok_empty_store [unfolded empty_store_def])

text \<open>A client takes a list and adds an edge to it.\<close>

lemma sample_run:
  "\<exists>w H. cache_run sample_md5 (\<lambda>_. 0) sample_fp id {''k''} (cache_Init 32 empty_store, {#})
     [(''k'', sample_edge, Set)] (w, H)"
proof -
  let ?s = "(cache_Init 32 empty_store, {#})"
  obtain a w1 where w1: "GetOrCreate (\<lambda>_. 0) sample_fp ''k'' (cache_Init 32 empty_store) = Inr (a, w1)"
    "key (lheap w1 a) = ''k''" "inv_state sample_fp {''k''} (w1, add_mset a {#})"
    "list_ok (pstore w1) (lheap w1 a)" "\<not> deleteMe (lheap w1 a)"
    by (rule GetOrCreate_view [OF sample_state]) simp_all
  have "dirtyChan w1 = []"
    using w1(1) by (auto simp: GetOrCreate_def cache_Init_def cache_getNew_def cache_incr_def cache_decr_def
        go_simps Let_def split: option.splits prod.splits if_splits)
  then have q: "length (dirtyChan w1) < 10000" by simp
  have e: "edge_uid sample_edge \<noteq> 0" by code_simp
  obtain ch l' where add: "AddMutation (pstore w1) 5 (lheap w1 a) sample_edge Set
      = Inr (ch, l', if mlayer l' = [] then [] else [ghash (lheap w1 a)])"
    by (rule AddMutation_spec [OF w1(4,5) _ e, where op = Set and now = 5]) simp
  have "cache_run sample_md5 (\<lambda>_. 0) sample_fp id {''k''} ?s ([] @ []) (w1, add_mset a {#})"
    by (rule run_step [OF run_start]) (rule acquire [OF _ w1(1)], simp)
  from run_step [OF this mutate [OF _ q _ add]] show ?thesis unfolding w1(2) by auto
qed

theorem cache_refines_mutations_witness:
  "\<exists>w H a w'. cache_run sample_md5 (\<lambda>_. 0) sample_fp id {''k''} (cache_Init 32 empty_store, {#})
     [(''k'', sample_edge, Set)] (w, H)
   \<and> GetOrCreate (\<lambda>_. 0) sample_fp ''k'' w = Inr (a, w') \<and> key (lheap w' a) = ''k''
   \<and> list_view (pstore w') (lheap w' a) (edge_uid sample_edge)
       = Some (ValueType sample_edge, edge_bytes sample_edge, ELabel sample_edge)"
proof -
  obtain w H where run: "cache_run sample_md5 (\<lambda>_. 0) sample_fp id {''k''} (cache_Init 32 empty_store, {#})
     [(''k'', sample_edge, Set)] (w, H)" using sample_run by blast
  have "store_ok empty_store" "\<not> readOnly empty_store" by (simp_all add: store_ok_def empty_store_def)
  moreover have "\<forall>k \<in> {''k''}. list_ok empty_store (fresh k)" "inj_on sample_fp {''k''}"
    "\<forall>x. length (sample_md5 x) = 16" by (simp_all add: list_ok_empty_store sample_md5_def)
  ultimately obtain a w' where g: "GetOrCreate (\<lambda>_. 0) sample_fp ''k'' w = Inr (a, w')" "key (lheap w' a) = ''k''"
    "list_view (pstore w') (lheap w' a) = fold (\<lambda>(k, t, op). mutate_view k t op) [(''k'', sample_edge, Set)]
       (\<lambda>k. list_view empty_store (fresh k)) ''k''"
    using cache_refines_mutations [OF _ _ _ _ _ _ _ run, of "''k''"] by auto
  have "list_view (pstore w') (lheap w' a) (edge_uid sample_edge)
       = Some (ValueType sample_edge, edge_bytes sample_edge, ELabel sample_edge)"
    unfolding g(3) by (simp add: mutate_view_def mutate_spec_def)
  with run g(1,2) show ?thesis by blast
qed





end
