(* ===== verification/Go_Time.thy ===== *)
theory Go_Time
  imports Go_Prelude
begin

text \<open>
  The part of the package \<^verbatim>\<open>time\<close> that the program uses: instants with the offset of their location,
  the civil date of an instant and the instant of a civil date, by cycles of 400, 100, 4 and 1
  years as in the standard library. Result: the two conversions are inverse.
\<close>

section \<open>Instants and dates\<close>

text \<open>Seconds since 1970 in UTC, nanoseconds, and the offset of the location in seconds.\<close>

record gotime =
  t_sec :: int
  t_nsec :: int
  t_offset :: int

definition time_Unix :: "(int \<Rightarrow> int) \<Rightarrow> int \<Rightarrow> int \<Rightarrow> gotime" where
  "time_Unix local s ns =
     (let s' = s + ns div 1000000000 in \<lparr>t_sec = s', t_nsec = ns mod 1000000000, t_offset = local s'\<rparr>)"

definition time_UTC :: "gotime \<Rightarrow> gotime" where
  "time_UTC t = t\<lparr>t_offset := 0\<rparr>"

definition time_Before :: "gotime \<Rightarrow> gotime \<Rightarrow> bool" where
  "time_Before t u \<longleftrightarrow> t_sec t < t_sec u \<or> t_sec t = t_sec u \<and> t_nsec t < t_nsec u"

definition is_leap :: "int \<Rightarrow> bool" where
  "is_leap y \<longleftrightarrow> y mod 4 = 0 \<and> (y mod 100 \<noteq> 0 \<or> y mod 400 = 0)"

definition daysBefore :: "int list" where
  "daysBefore = [0, 31, 59, 90, 120, 151, 181, 212, 243, 273, 304, 334, 365]"

text \<open>Month and day of the month of a day of the year, which starts at 0.\<close>

definition month_day :: "bool \<Rightarrow> int \<Rightarrow> int \<times> int" where
  "month_day leap yday =
     (if leap \<and> yday = 59 then (2, 29)
      else
        let day = (if leap \<and> yday > 59 then yday - 1 else yday);
            m = nat (day div 31); end' = daysBefore ! (m + 1)
        in if day \<ge> end' then (int m + 2, day - end' + 1)
           else (int m + 1, day - daysBefore ! m + 1))"

definition year_day :: "bool \<Rightarrow> int \<Rightarrow> int \<Rightarrow> int" where
  "year_day leap m d = daysBefore ! nat (m - 1) + (if leap \<and> m \<ge> 3 then 1 else 0) + d - 1"

definition month_days :: "bool \<Rightarrow> int \<Rightarrow> int" where
  "month_days leap m =
     (if m = 2 \<and> leap then 29 else daysBefore ! nat m - daysBefore ! nat (m - 1))"

definition date_of_days :: "int \<Rightarrow> int \<times> int \<times> int" where
  "date_of_days days =
     (let d = days + 719162;
          a = d div 146097; d = d - 146097 * a;
          b = d div 36524; b = b - b div 4; d = d - 36524 * b;
          c = d div 1461; d = d - 1461 * c;
          e = d div 365; e = e - e div 4; d = d - 365 * e;
          y = 400 * a + 100 * b + 4 * c + e + 1;
          (m, md) = month_day (is_leap y) d
      in (y, m, md))"

definition days_of_date :: "int \<Rightarrow> int \<Rightarrow> int \<Rightarrow> int" where
  "days_of_date year m d =
     (let y = year - 1;
          a = y div 400; y = y - 400 * a;
          b = y div 100; y = y - 100 * b;
          c = y div 4; y = y - 4 * c
      in 146097 * a + 36524 * b + 1461 * c + 365 * y + year_day (is_leap year) m d - 719162)"

definition time_Date :: "gotime \<Rightarrow> int \<times> int \<times> int" where
  "time_Date t = date_of_days ((t_sec t + t_offset t) div 86400)"

definition time_Year :: "gotime \<Rightarrow> int" where
  "time_Year t = fst (time_Date t)"

text \<open>\<^verbatim>\<open>time.Date\<close> at midnight in UTC, for a month within the year.\<close>

definition midnight_UTC :: "int \<Rightarrow> int \<Rightarrow> int \<Rightarrow> gotime" where
  "midnight_UTC y m d = \<lparr>t_sec = 86400 * days_of_date y m d, t_nsec = 0, t_offset = 0\<rparr>"

section \<open>The conversions are inverse\<close>

definition yday_ok :: "bool \<Rightarrow> int \<Rightarrow> bool" where
  "yday_ok leap yday =
     (case month_day leap yday of (m, d) \<Rightarrow>
        year_day leap m d = yday \<and> 1 \<le> m \<and> m \<le> 12 \<and> 1 \<le> d \<and> d \<le> month_days leap m)"

lemma yday_ok_all: "list_all (yday_ok False) [0..364]" "list_all (yday_ok True) [0..365]"
  by code_simp+

lemma month_day_ok:
  assumes "0 \<le> yday" "yday < (if leap then 366 else 365)"
  shows "yday_ok leap yday"
proof -
  have "yday \<in> set [0..364] \<or> leap \<and> yday \<in> set [0..365]" using assms by (auto split: if_splits)
  then show ?thesis using yday_ok_all assms by (cases leap) (auto simp: list_all_iff)
qed

text \<open>The year that the cycles make up, and whether it is a leap year.\<close>

lemma cycle_year:
  fixes a b c e :: int
  assumes "0 \<le> b" "b \<le> 3" "0 \<le> c" "c \<le> 24" "0 \<le> e" "e \<le> 3"
  defines "y \<equiv> 400 * a + 100 * b + 4 * c + e"
  shows "y div 400 = a" "(y - 400 * a) div 100 = b" "(y - 400 * a - 100 * b) div 4 = c"
    "is_leap (y + 1) \<longleftrightarrow> e = 3 \<and> (c \<noteq> 24 \<or> b = 3)"
proof -
  show "y div 400 = a"
    by (rule int_div_pos_eq [where r = "100 * b + 4 * c + e"]) (use assms(1-6) in \<open>simp_all add: y_def\<close>)
  show "(y - 400 * a) div 100 = b"
    by (rule int_div_pos_eq [where r = "4 * c + e"]) (use assms(1-6) in \<open>simp_all add: y_def\<close>)
  show "(y - 400 * a - 100 * b) div 4 = c"
    by (rule int_div_pos_eq [where r = e]) (use assms(1-6) in \<open>simp_all add: y_def\<close>)
  show "is_leap (y + 1) \<longleftrightarrow> e = 3 \<and> (c \<noteq> 24 \<or> b = 3)"
  proof (cases "e = 3")
    case False
    have "(y + 1) mod 4 = e + 1"
      by (rule int_mod_pos_eq [where q = "100 * a + 25 * b + c"]) (use assms(1-6) False in \<open>simp_all add: y_def\<close>)
    with False assms(5) show ?thesis by (simp add: is_leap_def)
  next
    case True
    have m4: "(y + 1) mod 4 = 0"
      by (rule int_mod_pos_eq [where q = "100 * a + 25 * b + c + 1"]) (use True in \<open>simp_all add: y_def\<close>)
    show ?thesis
    proof (cases "c = 24")
      case False
      have "(y + 1) mod 100 = 4 * c + 4"
        by (rule int_mod_pos_eq [where q = "4 * a + b"]) (use assms(1-6) True False in \<open>simp_all add: y_def\<close>)
      with False assms(3) m4 True show ?thesis by (simp add: is_leap_def)
    next
      case c: True
      have m100: "(y + 1) mod 100 = 0"
        by (rule int_mod_pos_eq [where q = "4 * a + b + 1"]) (use True c in \<open>simp_all add: y_def\<close>)
      have "(y + 1) mod 400 = (if b = 3 then 0 else 100 * b + 100)"
        by (rule int_mod_pos_eq [where q = "if b = 3 then a + 1 else a"])
          (use assms(1,2) True c in \<open>simp_all add: y_def\<close>)
      with m4 m100 True c assms(1) show ?thesis by (simp add: is_leap_def)
    qed
  qed
qed

text \<open>Four equal parts and one more day, which the last part takes.\<close>

lemma four_parts:
  fixes d k :: int
  assumes "0 \<le> d" "d \<le> 4 * k" "0 < k"
  defines "b \<equiv> d div k - d div k div 4"
  shows "0 \<le> b" "b \<le> 3" "0 \<le> d - k * b" "d - k * b \<le> k" "b < 3 \<longrightarrow> d - k * b < k" "d < 4 * k \<longrightarrow> d - k * b < k"
proof -
  define q where "q = d div k"
  define r where "r = d mod k"
  have d: "d = k * q + r" by (simp add: q_def r_def)
  have r: "0 \<le> r" "r < k" using assms(3) by (simp_all add: r_def)
  have q0: "0 \<le> q" using assms(1,3) by (simp add: q_def pos_imp_zdiv_nonneg_iff)
  have "k * q \<le> k * 4" using d r(1) assms(2) by linarith
  then have q4: "q \<le> 4" using assms(3) by simp
  have "0 \<le> b \<and> b \<le> 3 \<and> 0 \<le> d - k * b \<and> d - k * b \<le> k \<and> (b < 3 \<longrightarrow> d - k * b < k) \<and> (d < 4 * k \<longrightarrow> d - k * b < k)"
  proof (cases "q = 4")
    case True
    then have "b = 3" by (simp add: b_def q_def [symmetric])
    with True d r assms(2) show ?thesis by auto
  next
    case False
    then have "q div 4 = 0" using q0 q4 by (simp add: div_pos_pos_trivial)
    then have "b = q" by (simp add: b_def q_def)
    with False d r q0 q4 show ?thesis by auto
  qed
  then show "0 \<le> b" "b \<le> 3" "0 \<le> d - k * b" "d - k * b \<le> k" "b < 3 \<longrightarrow> d - k * b < k" "d < 4 * k \<longrightarrow> d - k * b < k"
    by blast+
qed

lemma date_of_days_ok:
  obtains y m d where "date_of_days n = (y, m, d)" "days_of_date y m d = n" "1 \<le> m" "m \<le> 12" "1 \<le> d"
    "d \<le> month_days (is_leap y) m"
proof -
  define D a where "D = n + 719162" and "a = D div 146097"
  define d1 where "d1 = D - 146097 * a"
  define b where "b = d1 div 36524 - d1 div 36524 div 4"
  define d2 where "d2 = d1 - 36524 * b"
  define c where "c = d2 div 1461"
  define d3 where "d3 = d2 - 1461 * c"
  define e where "e = d3 div 365 - d3 div 365 div 4"
  define d4 where "d4 = d3 - 365 * e"
  have d1: "0 \<le> d1" "d1 \<le> 4 * 36524"
    using pos_mod_bound [of 146097 D] pos_mod_sign [of 146097 D]
    by (simp_all add: d1_def a_def minus_mult_div_eq_mod)
  note b = four_parts [OF d1, folded b_def, folded d2_def, simplified]
  have d3: "d3 = d2 mod 1461" by (simp add: d3_def c_def minus_mult_div_eq_mod)
  have c: "0 \<le> c" "0 \<le> d3" "d3 \<le> 4 * 365"
    using b(3) pos_mod_bound [of 1461 d2] pos_mod_sign [of 1461 d2]
    by (simp_all add: c_def d3 pos_imp_zdiv_nonneg_iff)
  have c': "c \<le> 24" "b < 3 \<and> c = 24 \<longrightarrow> d3 < 1460"
    using b(4,5) c(2) unfolding d3_def by linarith+
  note e = four_parts [OF c(2,3), folded e_def, folded d4_def, simplified]
  note cy = cycle_year [OF b(1,2) c(1) c'(1) e(1,2), of a]
  let ?y = "400 * a + 100 * b + 4 * c + e + 1"
  have "d4 < (if is_leap ?y then 366 else 365)"
    unfolding cy(4) using e(2,4-6) c(3) c'(2) b(2) by auto
  with e(3) have ok: "yday_ok (is_leap ?y) d4" by (rule month_day_ok)
  obtain m d where md: "month_day (is_leap ?y) d4 = (m, d)" by fastforce
  have "date_of_days n = (?y, m, d)"
    unfolding date_of_days_def Let_def D_def [symmetric] a_def [symmetric] d1_def [symmetric]
      b_def [symmetric] d2_def [symmetric] c_def [symmetric] d3_def [symmetric] e_def [symmetric]
      d4_def [symmetric] md by simp
  moreover have "days_of_date ?y m d = n"
    unfolding days_of_date_def Let_def add_diff_cancel_right' cy(1-3)
    using ok md by (simp add: yday_ok_def d4_def d3_def d2_def d1_def D_def)
  ultimately show thesis using ok md by (intro that) (auto simp: yday_ok_def)
qed

lemma time_Date_midnight:
  assumes "time_Date t = (y, m, d)"
  shows "time_Date (midnight_UTC y m d) = (y, m, d)"
    "t_sec (midnight_UTC y m d) = (t_sec t + t_offset t) div 86400 * 86400"
proof -
  let ?n = "(t_sec t + t_offset t) div 86400"
  obtain y' m' d' where *: "date_of_days ?n = (y', m', d')" "days_of_date y' m' d' = ?n"
    by (rule date_of_days_ok)
  then have n: "days_of_date y m d = ?n" using assms by (simp add: time_Date_def)
  then show "time_Date (midnight_UTC y m d) = (y, m, d)"
    using assms by (simp add: time_Date_def midnight_UTC_def)
  show "t_sec (midnight_UTC y m d) = ?n * 86400" by (simp add: midnight_UTC_def n)
qed

end
