(* ===== verification/Go_Float.thy ===== *)
theory Go_Float
  imports Go_Prelude "HOL-Library.Log_Nat"
begin

text \<open>
  Go's \<^verbatim>\<open>float64\<close> as its 64 bits: the value they stand for, rounding of a quotient of integers to
  the nearest float with ties to even, the arithmetic that the program uses, and conversions to
  and from integers. Result: integers below two to the 53 are represented exactly.
\<close>

section \<open>Values\<close>

text \<open>A finite float is its sign, a magnitude and a power of two.\<close>

datatype fl = FNaN | FInf bool | FFin bool int int

definition fl_fields :: "u64 \<Rightarrow> bool \<times> int \<times> int" where
  "fl_fields x =
     (let n = uint x in (2 ^ 63 \<le> n, n div 2 ^ 52 mod 2 ^ 11, n mod 2 ^ 52))"

definition fl_dec :: "u64 \<Rightarrow> fl" where
  "fl_dec x =
     (case fl_fields x of (s, e, f) \<Rightarrow>
        if e = 2047 then (if f = 0 then FInf s else FNaN)
        else if e = 0 then FFin s f (- 1074)
        else FFin s (2 ^ 52 + f) (e - 1075))"

definition fl_sign :: "bool \<Rightarrow> int" where
  "fl_sign s = (if s then 2 ^ 63 else 0)"

definition fl_inf :: "bool \<Rightarrow> u64" where
  "fl_inf s = word_of_int (fl_sign s + 2047 * 2 ^ 52)"

definition fl_nan :: u64 where
  "fl_nan = word_of_int (2047 * 2 ^ 52 + 2 ^ 51)"

text \<open>The float nearest to \<open>n / d\<close>, for \<open>0 \<le> n\<close> and \<open>0 < d\<close>.\<close>

definition fl_exp :: "int \<Rightarrow> int \<Rightarrow> int" where
  "fl_exp n d =
     (let e = bitlen n - bitlen d - 53;
          e' = (if (if 0 \<le> e + 53 then d * 2 ^ nat (e + 53) \<le> n else d \<le> n * 2 ^ nat (- e - 53)) then e + 1 else e)
      in max e' (- 1074))"

definition fl_round :: "bool \<Rightarrow> int \<Rightarrow> int \<Rightarrow> u64" where
  "fl_round s n d =
     (if n = 0 then word_of_int (fl_sign s)
      else
        let e = fl_exp n d;
            n' = (if 0 \<le> e then n else n * 2 ^ nat (- e));
            d' = (if 0 \<le> e then d * 2 ^ nat e else d);
            q = n' div d'; r = n' mod d';
            q' = (if d' < 2 * r \<or> (2 * r = d' \<and> odd q) then q + 1 else q);
            bits = (e + 1074) * 2 ^ 52 + q'
        in if 2047 * 2 ^ 52 \<le> bits then fl_inf s else word_of_int (fl_sign s + bits))"

text \<open>A finite float as a quotient.\<close>

fun fl_ratio :: "bool \<Rightarrow> int \<Rightarrow> int \<Rightarrow> int \<times> int" where
  "fl_ratio s m e =
     (let m' = (if s then - m else m) in if 0 \<le> e then (m' * 2 ^ nat e, 1) else (m', 2 ^ nat (- e)))"

definition fl_quot :: "bool \<Rightarrow> int \<Rightarrow> int \<Rightarrow> u64" where
  "fl_quot zs n d = fl_round (if n = 0 then zs else n < 0) \<bar>n\<bar> d"

section \<open>Arithmetic\<close>

definition fl_neg :: "u64 \<Rightarrow> u64" where
  "fl_neg x = word_of_int ((uint x + 2 ^ 63) mod 2 ^ 64)"

definition fl_add :: "u64 \<Rightarrow> u64 \<Rightarrow> u64" where
  "fl_add x y =
     (case (fl_dec x, fl_dec y) of
        (FNaN, _) \<Rightarrow> fl_nan
      | (_, FNaN) \<Rightarrow> fl_nan
      | (FInf s, FInf s') \<Rightarrow> if s = s' then fl_inf s else fl_nan
      | (FInf s, _) \<Rightarrow> fl_inf s
      | (_, FInf s) \<Rightarrow> fl_inf s
      | (FFin s m e, FFin s' m' e') \<Rightarrow>
          (case (fl_ratio s m e, fl_ratio s' m' e') of ((n, d), (n', d')) \<Rightarrow>
             fl_quot (s \<and> s') (n * d' + n' * d) (d * d')))"

definition fl_sub :: "u64 \<Rightarrow> u64 \<Rightarrow> u64" where
  "fl_sub x y = fl_add x (fl_neg y)"

definition fl_mul :: "u64 \<Rightarrow> u64 \<Rightarrow> u64" where
  "fl_mul x y =
     (case (fl_dec x, fl_dec y) of
        (FNaN, _) \<Rightarrow> fl_nan
      | (_, FNaN) \<Rightarrow> fl_nan
      | (FInf s, FInf s') \<Rightarrow> fl_inf (s \<noteq> s')
      | (FInf s, FFin s' m e) \<Rightarrow> if m = 0 then fl_nan else fl_inf (s \<noteq> s')
      | (FFin s m e, FInf s') \<Rightarrow> if m = 0 then fl_nan else fl_inf (s \<noteq> s')
      | (FFin s m e, FFin s' m' e') \<Rightarrow>
          (case (fl_ratio s m e, fl_ratio s' m' e') of ((n, d), (n', d')) \<Rightarrow>
             fl_quot (s \<noteq> s') (n * n') (d * d')))"

text \<open>Division by a positive integer.\<close>

definition fl_div_int :: "u64 \<Rightarrow> int \<Rightarrow> u64" where
  "fl_div_int x k =
     (case fl_dec x of
        FNaN \<Rightarrow> fl_nan
      | FInf s \<Rightarrow> fl_inf s
      | FFin s m e \<Rightarrow> (case fl_ratio s m e of (n, d) \<Rightarrow> fl_quot s n (d * k)))"

definition fl_of_int :: "int \<Rightarrow> u64" where
  "fl_of_int i = fl_quot False i 1"

text \<open>Truncation of a finite float.\<close>

fun fl_trunc :: "bool \<Rightarrow> int \<Rightarrow> int \<Rightarrow> int" where
  "fl_trunc s m e =
     (let q = (if 0 \<le> e then m * 2 ^ nat e else m div 2 ^ nat (- e)) in if s then - q else q)"

text \<open>\<^verbatim>\<open>int64(f)\<close>; what does not fit gives the smallest integer, as the hardware does.\<close>

definition int64_of_float :: "u64 \<Rightarrow> int" where
  "int64_of_float x =
     (case fl_dec x of
        FFin s m e \<Rightarrow> (let n = fl_trunc s m e in if - (2 ^ 63) \<le> n \<and> n < 2 ^ 63 then n else - (2 ^ 63))
      | _ \<Rightarrow> - (2 ^ 63))"

text \<open>Comparison with an integer; false on both sides for what is not a number.\<close>

definition fl_gt_int :: "u64 \<Rightarrow> int \<Rightarrow> bool" where
  "fl_gt_int x k =
     (case fl_dec x of
        FNaN \<Rightarrow> False
      | FInf s \<Rightarrow> \<not> s
      | FFin s m e \<Rightarrow> (case fl_ratio s m e of (n, d) \<Rightarrow> k * d < n))"

definition fl_lt_int :: "u64 \<Rightarrow> int \<Rightarrow> bool" where
  "fl_lt_int x k =
     (case fl_dec x of
        FNaN \<Rightarrow> False
      | FInf s \<Rightarrow> s
      | FFin s m e \<Rightarrow> (case fl_ratio s m e of (n, d) \<Rightarrow> n < k * d))"

definition fl_is_nan :: "u64 \<Rightarrow> bool" where
  "fl_is_nan x \<longleftrightarrow> fl_dec x = FNaN"

definition fl_lt :: "u64 \<Rightarrow> u64 \<Rightarrow> bool" where
  "fl_lt x y =
     (case (fl_dec x, fl_dec y) of
        (FNaN, _) \<Rightarrow> False
      | (_, FNaN) \<Rightarrow> False
      | (FInf s, FInf s') \<Rightarrow> s \<and> \<not> s'
      | (FInf s, _) \<Rightarrow> s
      | (_, FInf s) \<Rightarrow> \<not> s
      | (FFin s m e, FFin s' m' e') \<Rightarrow>
          (case (fl_ratio s m e, fl_ratio s' m' e') of ((n, d), (n', d')) \<Rightarrow> n * d' < n' * d))"

section \<open>Integers are exact\<close>

lemma fl_fields_word:
  assumes "0 \<le> b" "b < 2 ^ 63"
  shows "fl_fields (word_of_int (fl_sign s + b)) = (s, b div 2 ^ 52, b mod 2 ^ 52)"
proof -
  have "0 \<le> fl_sign s + b" "fl_sign s + b < 2 ^ 64" using assms by (simp_all add: fl_sign_def)
  then have u: "uint (word_of_int (fl_sign s + b) :: u64) = fl_sign s + b"
    by (subst unsigned_of_int) (simp add: take_bit_int_eq_self)
  have s: "2 ^ 63 \<le> fl_sign s + b \<longleftrightarrow> s" using assms by (simp add: fl_sign_def)
  have "fl_sign s = (if s then 2048 else 0) * 2 ^ 52" by (simp add: fl_sign_def)
  then have d: "(fl_sign s + b) div 2 ^ 52 = (if s then 2048 else 0) + b div 2 ^ 52"
    and m: "(fl_sign s + b) mod 2 ^ 52 = b mod 2 ^ 52"
    by (simp_all only: div_mult_self3 mod_mult_self3 power_eq_0_iff zero_neq_numeral simp_thms not_False_eq_True) auto
  have "b div 2 ^ 52 < 2 ^ 11" "0 \<le> b div 2 ^ 52" using assms by (simp_all add: div_less_iff_less_mult)
  then have "((if s then 2048 else 0) + b div 2 ^ 52) mod 2 ^ 11 = b div 2 ^ 52" by simp
  then show ?thesis unfolding fl_fields_def u Let_def s d m by simp
qed

lemma fl_exp_int:
  assumes "0 < n" "n < 2 ^ 53"
  shows "fl_exp n 1 = bitlen n - 53" "1 \<le> bitlen n" "bitlen n \<le> 53"
    "n * 2 ^ nat (53 - bitlen n) < 2 ^ 53" "2 ^ 52 \<le> n * 2 ^ nat (53 - bitlen n)"
proof -
  have L: "2 ^ nat (bitlen n - 1) \<le> n" "n < 2 ^ nat (bitlen n)" using bitlen_bounds [OF assms(1)] by simp_all
  show L1: "1 \<le> bitlen n" using assms(1) bitlen_eq_zero_iff [of n] bitlen_nonneg [of n] by simp
  have "(2 :: int) ^ nat (bitlen n - 1) < 2 ^ 53" using L(1) assms(2) by linarith
  then have "nat (bitlen n - 1) < 53" by (rule power_less_imp_less_exp [rotated]) simp
  then show L53: "bitlen n \<le> 53" by simp
  have one: "bitlen 1 = 1" by (simp add: bitlen_def floorlog_def)
  show "fl_exp n 1 = bitlen n - 53"
    using L(1) L1 L53 by (simp add: fl_exp_def one Let_def algebra_simps)
  have p: "nat (bitlen n) + nat (53 - bitlen n) = 53" "nat (bitlen n - 1) + nat (53 - bitlen n) = 52"
    using L1 L53 by simp_all
  have "n * 2 ^ nat (53 - bitlen n) < 2 ^ nat (bitlen n) * 2 ^ nat (53 - bitlen n)" using L(2) by simp
  then show "n * 2 ^ nat (53 - bitlen n) < 2 ^ 53" unfolding power_add [symmetric] p .
  have "2 ^ nat (bitlen n - 1) * 2 ^ nat (53 - bitlen n) \<le> n * 2 ^ nat (53 - bitlen n)" using L(1) by simp
  then show "2 ^ 52 \<le> n * 2 ^ nat (53 - bitlen n)" unfolding power_add [symmetric] p .
qed

lemma fl_dec_int:
  assumes "0 < n" "n < 2 ^ 53"
  shows "fl_dec (fl_round s n 1) = FFin s (n * 2 ^ nat (53 - bitlen n)) (bitlen n - 53)"
proof -
  note E = fl_exp_int [OF assms]
  define L q where "L = bitlen n" and "q = n * 2 ^ nat (53 - bitlen n)"
  have q: "2 ^ 52 \<le> q" "q < 2 ^ 53" and L: "1 \<le> L" "L \<le> 53" using E unfolding q_def L_def by simp_all
  define b where "b = (L + 1021) * 2 ^ 52 + q"
  have n': "(if 0 \<le> L - 53 then n else n * 2 ^ nat (- (L - 53))) = q"
    using L by (simp add: q_def L_def [symmetric])
  have d': "(if 0 \<le> L - 53 then 1 * 2 ^ nat (L - 53) else 1) = (1 :: int)" using L by simp
  have b0: "0 \<le> b" "b < 2047 * 2 ^ 52" using q L by (simp_all add: b_def)
  have "(L - 53 + 1074) * 2 ^ 52 + q = b" by (simp add: b_def)
  then have r: "fl_round s n 1 = word_of_int (fl_sign s + b)"
    using assms(1) b0 unfolding fl_round_def E(1) L_def [symmetric] Let_def n' d' by simp
  have b1: "b = 2 ^ 52 * (L + 1022) + (q - 2 ^ 52)" by (simp add: b_def algebra_simps)
  have q1: "0 \<le> q - 2 ^ 52" "q - 2 ^ 52 < 2 ^ 52" using q by simp_all
  have "b div 2 ^ 52 = L + 1022" "b mod 2 ^ 52 = q - 2 ^ 52"
    by (rule int_div_pos_eq [OF b1 q1]) (rule int_mod_pos_eq [OF b1 q1])
  then show ?thesis
    using fl_fields_word [of b s] b0 L by (simp add: fl_dec_def r q_def L_def)
qed

lemma fl_trunc_of_int:
  assumes "\<bar>i\<bar> < 2 ^ 53"
  shows "\<exists>s m e. fl_dec (fl_of_int i) = FFin s m e \<and> fl_trunc s m e = i \<and> fl_ratio s m e = (i * (if 0 \<le> e then 1 else 2 ^ nat (- e)), if 0 \<le> e then 1 else 2 ^ nat (- e))"
proof (cases "i = 0")
  case True
  have "fl_fields (word_of_int (fl_sign False + 0)) = (False, 0, 0)" by (subst fl_fields_word) simp_all
  with True have "fl_dec (fl_of_int i) = FFin False 0 (- 1074)"
    by (simp add: fl_of_int_def fl_quot_def fl_round_def fl_dec_def)
  with True show ?thesis by auto
next
  case False
  then have n: "0 < \<bar>i\<bar>" "\<bar>i\<bar> < 2 ^ 53" using assms by simp_all
  note E = fl_exp_int [OF n]
  have "fl_of_int i = fl_round (i < 0) \<bar>i\<bar> 1" using False by (simp add: fl_of_int_def fl_quot_def)
  then have d: "fl_dec (fl_of_int i) = FFin (i < 0) (\<bar>i\<bar> * 2 ^ nat (53 - bitlen \<bar>i\<bar>)) (bitlen \<bar>i\<bar> - 53)"
    by (simp add: fl_dec_int [OF n])
  have "fl_trunc (i < 0) (\<bar>i\<bar> * 2 ^ nat (53 - bitlen \<bar>i\<bar>)) (bitlen \<bar>i\<bar> - 53) = i"
    using E(3) by (cases "bitlen \<bar>i\<bar> = 53") (auto simp: Let_def abs_if)
  moreover have "fl_ratio (i < 0) (\<bar>i\<bar> * 2 ^ nat (53 - bitlen \<bar>i\<bar>)) (bitlen \<bar>i\<bar> - 53)
      = (i * (if 0 \<le> bitlen \<bar>i\<bar> - 53 then 1 else 2 ^ nat (- (bitlen \<bar>i\<bar> - 53))),
         if 0 \<le> bitlen \<bar>i\<bar> - 53 then 1 else 2 ^ nat (- (bitlen \<bar>i\<bar> - 53)))"
    using E(3) by (cases "bitlen \<bar>i\<bar> = 53") (auto simp: Let_def abs_if)
  ultimately show ?thesis using d by blast
qed

end
