(* ===== verification/Scalar_Types.thy ===== *)
theory Scalar_Types
  imports Go_Strings Go_Binary Go_Time Go_Float "HOL-Library.Product_Lexorder" "HOL-Library.Multiset"
begin

text \<open>
  The scalar types, \<^verbatim>\<open>types/definitions.go\<close>, \<^verbatim>\<open>types/scalar_types.go\<close>, \<^verbatim>\<open>types/date.go\<close>,
  \<^verbatim>\<open>types/geo.go\<close>, \<^verbatim>\<open>types/conversion.go\<close> and \<^verbatim>\<open>types/sort.go\<close>: values, their binary and text forms,
  conversions and sorting. Floats are their bits. The text of floats, the formats of instants and
  those of geometries come from elsewhere and are parameters, as is the local time zone. Results:
  binary and text forms round trip, conversions keep to the range and the type asked for, and
  where they do not.
\<close>

section \<open>Types and values\<close>

definition BytesID :: u8 where "BytesID = 0"
definition Int32ID :: u8 where "Int32ID = 1"
definition FloatID :: u8 where "FloatID = 2"
definition BoolID :: u8 where "BoolID = 3"
definition DateTimeID :: u8 where "DateTimeID = 4"
definition StringID :: u8 where "StringID = 5"
definition DateID :: u8 where "DateID = 6"
definition GeoID :: u8 where "GeoID = 7"

lemmas type_ids = BytesID_def Int32ID_def FloatID_def BoolID_def DateTimeID_def StringID_def
  DateID_def GeoID_def

record scalar =
  SName :: bytes
  ID :: u8

record object =
  OName :: bytes
  Fields :: "(bytes \<times> bytes) list"

datatype go_type = Scalar scalar | Object object

definition IsScalar :: "go_type \<Rightarrow> bool" where
  "IsScalar t = (case t of Scalar _ \<Rightarrow> True | Object _ \<Rightarrow> False)"

definition int32Type :: scalar where "int32Type = \<lparr>SName = ''int'', ID = Int32ID\<rparr>"
definition floatType :: scalar where "floatType = \<lparr>SName = ''float'', ID = FloatID\<rparr>"
definition stringType :: scalar where "stringType = \<lparr>SName = ''string'', ID = StringID\<rparr>"
definition byteArrayType :: scalar where "byteArrayType = \<lparr>SName = ''bytes'', ID = BytesID\<rparr>"
definition booleanType :: scalar where "booleanType = \<lparr>SName = ''bool'', ID = BoolID\<rparr>"
definition idType :: scalar where "idType = \<lparr>SName = ''id'', ID = StringID\<rparr>"
definition dateTimeType :: scalar where "dateTimeType = \<lparr>SName = ''datetime'', ID = DateTimeID\<rparr>"
definition dateType :: scalar where "dateType = \<lparr>SName = ''date'', ID = DateID\<rparr>"
definition geoType :: scalar where "geoType = \<lparr>SName = ''geo'', ID = GeoID\<rparr>"

lemmas scalar_types = int32Type_def floatType_def stringType_def byteArrayType_def booleanType_def
  idType_def dateTimeType_def dateType_def geoType_def

definition typeNameMap :: "(bytes \<times> scalar) list" where
  "typeNameMap = map (\<lambda>t. (SName t, t))
     [int32Type, floatType, stringType, booleanType, idType, dateTimeType, dateType, geoType, byteArrayType]"

definition TypeForName :: "bytes \<Rightarrow> go_type option" where
  "TypeForName name = map_option Scalar (map_of typeNameMap name)"

datatype 'g go_value =
  VBytes bytes | VInt32 u32 | VFloat u64 | VBool bool | VTime gotime | VString bytes
| VDate gotime | VGeo 'g

text \<open>What comes from other packages.\<close>

record 'g formats =
  FormatFloat :: "u64 \<Rightarrow> bytes"
  ParseFloat :: "bytes \<Rightarrow> u64 go"
  timeMarshalBinary :: "gotime \<Rightarrow> bytes go"
  timeUnmarshalBinary :: "bytes \<Rightarrow> gotime go"
  timeMarshalText :: "gotime \<Rightarrow> bytes go"
  timeUnmarshalText :: "bytes \<Rightarrow> gotime go"
  timeParseNoZone :: "bytes \<Rightarrow> gotime go"
  wkbMarshal :: "'g \<Rightarrow> bytes go"
  wkbUnmarshal :: "bytes \<Rightarrow> 'g go"
  geojsonMarshal :: "'g \<Rightarrow> bytes go"
  geojsonUnmarshal :: "bytes \<Rightarrow> 'g go"
  localZone :: "int \<Rightarrow> int"

definition value_Type :: "'g go_value \<Rightarrow> scalar" where
  "value_Type v =
     (case v of
        VBytes _ \<Rightarrow> byteArrayType | VInt32 _ \<Rightarrow> int32Type | VFloat _ \<Rightarrow> floatType
      | VBool _ \<Rightarrow> booleanType | VTime _ \<Rightarrow> dateTimeType | VString _ \<Rightarrow> stringType
      | VDate _ \<Rightarrow> dateType | VGeo _ \<Rightarrow> geoType)"

section \<open>Text of numbers and dates\<close>

definition digit :: "int \<Rightarrow> char" where
  "digit n = char_of (48 + n)"

function dec_int :: "int \<Rightarrow> bytes" where
  "dec_int n = (if n < 10 then [digit n] else dec_int (n div 10) @ [digit (n mod 10)])"
  by pat_completeness auto
termination
  by (relation "measure nat") auto

declare dec_int.simps [simp del]

definition FormatInt :: "int \<Rightarrow> bytes" where
  "FormatInt n = (if n < 0 then CHR ''-'' # dec_int (- n) else dec_int n)"

text \<open>\<^verbatim>\<open>strconv.ParseInt\<close> with base 10 and 32 bits.\<close>

definition ParseInt32 :: "bytes \<Rightarrow> int go" where
  "ParseInt32 s =
     (let neg = (s \<noteq> [] \<and> hd s = CHR ''-'');
          rest = (if s \<noteq> [] \<and> (hd s = CHR ''-'' \<or> hd s = CHR ''+'') then tl s else s)
      in if rest = [] \<or> \<not> list_all is_digit rest then Inl (Err ''invalid syntax'')
         else
           let un = digits_val rest in
           if \<not> neg \<and> 2 ^ 31 \<le> un then Inl (Err ''value out of range'')
           else if neg \<and> 2 ^ 31 < un then Inl (Err ''value out of range'')
           else Inr (if neg then - un else un))"

definition FormatBool :: "bool \<Rightarrow> bytes" where
  "FormatBool b = (if b then ''true'' else ''false'')"

definition ParseBool :: "bytes \<Rightarrow> bool go" where
  "ParseBool s =
     (if s \<in> set [''1'', ''t'', ''T'', ''true'', ''TRUE'', ''True''] then Inr True
      else if s \<in> set [''0'', ''f'', ''F'', ''false'', ''FALSE'', ''False''] then Inr False
      else Inl (Err ''invalid syntax''))"

definition pad_int :: "nat \<Rightarrow> int \<Rightarrow> bytes" where
  "pad_int w n =
     (let s = dec_int \<bar>n\<bar> in (if n < 0 then ''-'' else []) @ replicate (w - length s) (CHR ''0'') @ s)"

text \<open>The layout \<^verbatim>\<open>2006-01-02\<close>.\<close>

definition date_Format :: "gotime \<Rightarrow> bytes" where
  "date_Format t =
     (case time_Date t of (y, m, d) \<Rightarrow> pad_int 4 y @ ''-'' @ pad_int 2 m @ ''-'' @ pad_int 2 d)"

definition date_Parse :: "bytes \<Rightarrow> gotime go" where
  "date_Parse s =
     (let y = take 4 s; m = take 2 (drop 5 s); d = take 2 (drop 8 s) in
      if length s = 10 \<and> list_all is_digit y \<and> s ! 4 = CHR ''-'' \<and> list_all is_digit m
         \<and> s ! 7 = CHR ''-'' \<and> list_all is_digit d
      then
        let yy = digits_val y; mm = digits_val m; dd = digits_val d in
        if mm < 1 \<or> 12 < mm then Inl (Err ''month out of range'')
        else if dd < 1 \<or> month_days (is_leap yy) mm < dd then Inl (Err ''day out of range'')
        else Inr (midnight_UTC yy mm dd)
      else Inl (Err ''cannot parse''))"

section \<open>Binary and text forms\<close>

definition createDate :: "int \<Rightarrow> int \<Rightarrow> int \<Rightarrow> gotime" where
  "createDate y m d = midnight_UTC y m d"

definition Date_fromTime :: "gotime \<Rightarrow> gotime" where
  "Date_fromTime t = (case time_Date t of (y, m, d) \<Rightarrow> createDate y m d)"

text \<open>One method for each type; \<^verbatim>\<open>Value\<close> is the interface that dispatches to them.\<close>

definition Int32_MarshalBinary :: "u32 \<Rightarrow> bytes go" where
  "Int32_MarshalBinary v = Inr (LittleEndian_PutUint32 v)"

definition Int32_MarshalText :: "u32 \<Rightarrow> bytes go" where
  "Int32_MarshalText v = Inr (FormatInt (sint v))"

definition Float_MarshalBinary :: "u64 \<Rightarrow> bytes go" where
  "Float_MarshalBinary v = Inr (LittleEndian_PutUint64 v)"

definition Float_MarshalText :: "'g formats \<Rightarrow> u64 \<Rightarrow> bytes go" where
  "Float_MarshalText c v = Inr (FormatFloat c v)"

definition String_MarshalBinary :: "bytes \<Rightarrow> bytes go" where
  "String_MarshalBinary v = Inr v"

definition String_MarshalText :: "bytes \<Rightarrow> bytes go" where
  "String_MarshalText v = String_MarshalBinary v"

definition Bytes_MarshalBinary :: "bytes \<Rightarrow> bytes go" where
  "Bytes_MarshalBinary v = Inr v"

definition Bytes_MarshalText :: "bytes \<Rightarrow> bytes go" where
  "Bytes_MarshalText v = Bytes_MarshalBinary v"

definition Bool_MarshalBinary :: "bool \<Rightarrow> bytes go" where
  "Bool_MarshalBinary v = Inr (if v then [CHR 0x01] else [CHR 0x00])"

definition Bool_MarshalText :: "bool \<Rightarrow> bytes go" where
  "Bool_MarshalText v = Inr (FormatBool v)"

definition Date_MarshalBinary :: "gotime \<Rightarrow> bytes go" where
  "Date_MarshalBinary v = Inr (LittleEndian_PutUint64 (word_of_int (t_sec v)))"

definition Date_MarshalText :: "gotime \<Rightarrow> bytes go" where
  "Date_MarshalText v = Inr (date_Format v)"

definition Geo_MarshalBinary :: "'g formats \<Rightarrow> 'g \<Rightarrow> bytes go" where
  "Geo_MarshalBinary c v = wkbMarshal c v"

definition Geo_MarshalText :: "'g formats \<Rightarrow> 'g \<Rightarrow> bytes go" where
  "Geo_MarshalText c v = geojsonMarshal c v"

lemmas marshal_methods [simp] = Int32_MarshalBinary_def Int32_MarshalText_def Float_MarshalBinary_def
  Float_MarshalText_def String_MarshalBinary_def String_MarshalText_def Bytes_MarshalBinary_def
  Bytes_MarshalText_def Bool_MarshalBinary_def Bool_MarshalText_def Date_MarshalBinary_def
  Date_MarshalText_def Geo_MarshalBinary_def Geo_MarshalText_def

definition MarshalBinary :: "'g formats \<Rightarrow> 'g go_value \<Rightarrow> bytes go" where
  "MarshalBinary c v =
     (case v of
        VInt32 i \<Rightarrow> Int32_MarshalBinary i
      | VFloat f \<Rightarrow> Float_MarshalBinary f
      | VString s \<Rightarrow> String_MarshalBinary s
      | VBytes b \<Rightarrow> Bytes_MarshalBinary b
      | VBool b \<Rightarrow> Bool_MarshalBinary b
      | VTime t \<Rightarrow> timeMarshalBinary c t
      | VDate t \<Rightarrow> Date_MarshalBinary t
      | VGeo g \<Rightarrow> Geo_MarshalBinary c g)"

definition MarshalText :: "'g formats \<Rightarrow> 'g go_value \<Rightarrow> bytes go" where
  "MarshalText c v =
     (case v of
        VInt32 i \<Rightarrow> Int32_MarshalText i
      | VFloat f \<Rightarrow> Float_MarshalText c f
      | VString s \<Rightarrow> String_MarshalText s
      | VBytes b \<Rightarrow> Bytes_MarshalText b
      | VBool b \<Rightarrow> Bool_MarshalText b
      | VTime t \<Rightarrow> timeMarshalText c t
      | VDate t \<Rightarrow> Date_MarshalText t
      | VGeo g \<Rightarrow> Geo_MarshalText c g)"

text \<open>
  \<^verbatim>\<open>ValueForType\<close> makes the zero value of a type, of which only the type matters: its methods
  overwrite it. An unknown id gives no value, and calling a method on that panics.
\<close>

datatype value_kind = KBytes | KInt32 | KFloat | KBool | KTime | KString | KDate | KGeo

definition ValueForType :: "u8 \<Rightarrow> value_kind option" where
  "ValueForType tid =
     (if tid = BytesID then Some KBytes
      else if tid = Int32ID then Some KInt32
      else if tid = FloatID then Some KFloat
      else if tid = BoolID then Some KBool
      else if tid = DateTimeID then Some KTime
      else if tid = StringID then Some KString
      else if tid = DateID then Some KDate
      else if tid = GeoID then Some KGeo
      else None)"

definition Int32_UnmarshalBinary :: "bytes \<Rightarrow> 'g go_value go" where
  "Int32_UnmarshalBinary data =
     (if length data < 4 then Inl (Err ''Invalid data for int32'')
      else go_bind (LittleEndian_Uint32 data) (\<lambda>i. Inr (VInt32 i)))"

definition Float_UnmarshalBinary :: "bytes \<Rightarrow> 'g go_value go" where
  "Float_UnmarshalBinary data =
     (if length data < 8 then Inl (Err ''Invalid data for float'')
      else go_bind (LittleEndian_Uint64 data) (\<lambda>i. Inr (VFloat i)))"

definition Bool_UnmarshalBinary :: "bytes \<Rightarrow> 'g go_value go" where
  "Bool_UnmarshalBinary data =
     (case data of
        [] \<Rightarrow> Inl (Panic ''index out of range'')
      | b # _ \<Rightarrow>
          if b = CHR 0x00 then Inr (VBool False)
          else if b = CHR 0x01 then Inr (VBool True)
          else Inl (Err ''Invalid value for bool''))"

definition Date_UnmarshalBinary :: "'g formats \<Rightarrow> bytes \<Rightarrow> 'g go_value go" where
  "Date_UnmarshalBinary c data =
     (if length data < 8 then Inl (Err ''Invalid data for date'')
      else go_bind (LittleEndian_Uint64 data) (\<lambda>val.
        Inr (VDate (Date_fromTime (time_Unix (localZone c) (sint val) 0)))))"

definition String_UnmarshalBinary :: "bytes \<Rightarrow> 'g go_value go" where
  "String_UnmarshalBinary data = Inr (VString data)"

definition Bytes_UnmarshalBinary :: "bytes \<Rightarrow> 'g go_value go" where
  "Bytes_UnmarshalBinary data = Inr (VBytes data)"

definition Geo_UnmarshalBinary :: "'g formats \<Rightarrow> bytes \<Rightarrow> 'g go_value go" where
  "Geo_UnmarshalBinary c data = go_bind (wkbUnmarshal c data) (\<lambda>w. Inr (VGeo w))"

definition UnmarshalBinary :: "'g formats \<Rightarrow> u8 \<Rightarrow> bytes \<Rightarrow> 'g go_value go" where
  "UnmarshalBinary c tid data =
     (case ValueForType tid of
        None \<Rightarrow> Inl (Panic ''nil pointer dereference'')
      | Some KBytes \<Rightarrow> Bytes_UnmarshalBinary data
      | Some KInt32 \<Rightarrow> Int32_UnmarshalBinary data
      | Some KFloat \<Rightarrow> Float_UnmarshalBinary data
      | Some KBool \<Rightarrow> Bool_UnmarshalBinary data
      | Some KTime \<Rightarrow> go_bind (timeUnmarshalBinary c data) (\<lambda>t. Inr (VTime t))
      | Some KString \<Rightarrow> String_UnmarshalBinary data
      | Some KDate \<Rightarrow> Date_UnmarshalBinary c data
      | Some KGeo \<Rightarrow> Geo_UnmarshalBinary c data)"

definition Time_UnmarshalText :: "'g formats \<Rightarrow> bytes \<Rightarrow> gotime go" where
  "Time_UnmarshalText c text =
     (case timeUnmarshalText c text of
        Inl (Err _) \<Rightarrow> timeParseNoZone c text
      | r \<Rightarrow> r)"

definition Int32_UnmarshalText :: "bytes \<Rightarrow> 'g go_value go" where
  "Int32_UnmarshalText text = go_bind (ParseInt32 text) (\<lambda>val. Inr (VInt32 (word_of_int val)))"

definition Float_UnmarshalText :: "'g formats \<Rightarrow> bytes \<Rightarrow> 'g go_value go" where
  "Float_UnmarshalText c text = go_bind (ParseFloat c text) (\<lambda>val. Inr (VFloat val))"

definition String_UnmarshalText :: "bytes \<Rightarrow> 'g go_value go" where
  "String_UnmarshalText text = String_UnmarshalBinary text"

definition Bytes_UnmarshalText :: "bytes \<Rightarrow> 'g go_value go" where
  "Bytes_UnmarshalText text = Bytes_UnmarshalBinary text"

definition Bool_UnmarshalText :: "bytes \<Rightarrow> 'g go_value go" where
  "Bool_UnmarshalText text = go_bind (ParseBool text) (\<lambda>val. Inr (VBool val))"

definition Date_UnmarshalText :: "bytes \<Rightarrow> 'g go_value go" where
  "Date_UnmarshalText text = go_bind (date_Parse text) (\<lambda>val. Inr (VDate (Date_fromTime val)))"

definition Geo_UnmarshalText :: "'g formats \<Rightarrow> bytes \<Rightarrow> 'g go_value go" where
  "Geo_UnmarshalText c text = go_bind (geojsonUnmarshal c text) (\<lambda>g. Inr (VGeo g))"

definition UnmarshalText :: "'g formats \<Rightarrow> u8 \<Rightarrow> bytes \<Rightarrow> 'g go_value go" where
  "UnmarshalText c tid text =
     (case ValueForType tid of
        None \<Rightarrow> Inl (Panic ''nil pointer dereference'')
      | Some KBytes \<Rightarrow> Bytes_UnmarshalText text
      | Some KInt32 \<Rightarrow> Int32_UnmarshalText text
      | Some KFloat \<Rightarrow> Float_UnmarshalText c text
      | Some KBool \<Rightarrow> Bool_UnmarshalText text
      | Some KTime \<Rightarrow> go_bind (Time_UnmarshalText c text) (\<lambda>t. Inr (VTime t))
      | Some KString \<Rightarrow> String_UnmarshalText text
      | Some KDate \<Rightarrow> Date_UnmarshalText text
      | Some KGeo \<Rightarrow> Geo_UnmarshalText c text)"

lemmas unmarshal_methods [simp] = String_UnmarshalBinary_def Bytes_UnmarshalBinary_def
  Geo_UnmarshalBinary_def Int32_UnmarshalText_def Float_UnmarshalText_def String_UnmarshalText_def
  Bytes_UnmarshalText_def Bool_UnmarshalText_def Date_UnmarshalText_def Geo_UnmarshalText_def

section \<open>Conversions\<close>

definition nanoSecondsInSec :: int where "nanoSecondsInSec = 1000000000"

definition Int32_fromFloat :: "u64 \<Rightarrow> 'g go_value go" where
  "Int32_fromFloat f =
     (if fl_gt_int f (2 ^ 31 - 1) \<or> fl_lt_int f (- (2 ^ 31)) \<or> fl_is_nan f
      then Inl (Err ''Float out of int32 range'')
      else Inr (VInt32 (word_of_int (int64_of_float f))))"

definition Int32_fromBool :: "bool \<Rightarrow> 'g go_value go" where
  "Int32_fromBool b = Inr (VInt32 (if b then 1 else 0))"

definition Int32_fromTime :: "gotime \<Rightarrow> 'g go_value go" where
  "Int32_fromTime t =
     (let secs = t_sec t in
      if 2 ^ 31 - 1 < secs \<or> secs < - (2 ^ 31) then Inl (Err ''Time out of int32 range'')
      else Inr (VInt32 (word_of_int secs)))"

definition Float_fromInt :: "u32 \<Rightarrow> 'g go_value go" where
  "Float_fromInt i = Inr (VFloat (fl_of_int (sint i)))"

definition Float_fromBool :: "bool \<Rightarrow> 'g go_value go" where
  "Float_fromBool b = Inr (VFloat (fl_of_int (if b then 1 else 0)))"

definition Float_fromTime :: "gotime \<Rightarrow> 'g go_value go" where
  "Float_fromTime t =
     (let secs = fl_of_int (t_sec t); nano = fl_of_int (t_nsec t) in
      Inr (VFloat (fl_add secs (fl_div_int nano nanoSecondsInSec))))"

definition Bool_fromInt :: "u32 \<Rightarrow> 'g go_value go" where
  "Bool_fromInt i = Inr (VBool (i \<noteq> 0))"

definition Bool_fromFloat :: "u64 \<Rightarrow> 'g go_value go" where
  "Bool_fromFloat f = Inr (VBool (case fl_dec f of FFin s m e \<Rightarrow> m \<noteq> 0 | _ \<Rightarrow> True))"

definition Time_fromInt :: "u32 \<Rightarrow> gotime" where
  "Time_fromInt i = time_UTC (time_Unix (\<lambda>_. 0) (sint i) 0)"

definition Time_fromFloat :: "u64 \<Rightarrow> gotime" where
  "Time_fromFloat f =
     (let secs = int64_of_float f;
          fracSecs = fl_sub f (fl_of_int secs);
          nsecs = int64_of_float (fl_mul fracSecs (fl_of_int nanoSecondsInSec))
      in time_UTC (time_Unix (\<lambda>_. 0) secs nsecs))"

definition Date_fromFloat :: "u64 \<Rightarrow> gotime" where
  "Date_fromFloat f = Date_fromTime (Time_fromFloat f)"

definition Date_fromInt :: "u32 \<Rightarrow> gotime" where
  "Date_fromInt i = Date_fromTime (Time_fromInt i)"

definition Time_fromDate :: "gotime \<Rightarrow> 'g go_value go" where
  "Time_fromDate d = Inr (VTime d)"

definition Float_fromDate :: "gotime \<Rightarrow> 'g go_value go" where
  "Float_fromDate d = Float_fromTime d"

definition Int32_fromDate :: "gotime \<Rightarrow> 'g go_value go" where
  "Int32_fromDate d = Int32_fromTime d"

definition cantConvert :: "scalar \<Rightarrow> 'a go" where
  "cantConvert to = Inl (Err (''Cannot convert to type '' @ SName to))"

definition Convert :: "'g formats \<Rightarrow> scalar \<Rightarrow> 'g go_value \<Rightarrow> 'g go_value go" where
  "Convert c to v =
     (if ID to = ID (value_Type v) then Inr v
      else if ID to = StringID \<or> ID to = BytesID then go_bind (MarshalText c v) (\<lambda>r. Inr (VString r))
      else
        (case v of
           VBytes b \<Rightarrow> UnmarshalText c (ID to) b
         | VString s \<Rightarrow> UnmarshalText c (ID to) s
         | VInt32 i \<Rightarrow>
             if ID to = FloatID then Float_fromInt i
             else if ID to = BoolID then Bool_fromInt i
             else if ID to = DateTimeID then Inr (VTime (Time_fromInt i))
             else if ID to = DateID then Inr (VDate (Date_fromInt i))
             else cantConvert to
         | VFloat f \<Rightarrow>
             if ID to = Int32ID then Int32_fromFloat f
             else if ID to = BoolID then Bool_fromFloat f
             else if ID to = DateTimeID then Inr (VTime (Time_fromFloat f))
             else if ID to = DateID then Inr (VDate (Date_fromFloat f))
             else cantConvert to
         | VBool b \<Rightarrow>
             if ID to = Int32ID then Int32_fromBool b
             else if ID to = FloatID then Float_fromBool b
             else cantConvert to
         | VTime t \<Rightarrow>
             if ID to = Int32ID then Int32_fromTime t
             else if ID to = FloatID then Float_fromTime t
             else if ID to = DateID then Inr (VDate (Date_fromTime t))
             else cantConvert to
         | VDate d \<Rightarrow>
             if ID to = DateTimeID then Time_fromDate d
             else if ID to = FloatID then Float_fromDate d
             else if ID to = Int32ID then Int32_fromDate d
             else cantConvert to
         | VGeo g \<Rightarrow> cantConvert to))"

section \<open>Sorting\<close>

text \<open>
  \<^verbatim>\<open>sort.Sort\<close> is an insertion sort here; which of two equal elements comes first is not specified,
  and no result depends on it. Values move together with their uids. The type assertions of the
  comparisons fail on a value of another type as soon as there is something to compare.
\<close>

fun sort_insert :: "('a \<Rightarrow> 'a \<Rightarrow> bool) \<Rightarrow> 'a \<Rightarrow> 'a list \<Rightarrow> 'a list" where
  "sort_insert lt x [] = [x]"
| "sort_insert lt x (y # ys) = (if lt y x then y # sort_insert lt x ys else x # y # ys)"

definition sort_Sort :: "('a \<Rightarrow> 'a \<Rightarrow> bool) \<Rightarrow> 'a list \<Rightarrow> 'a list" where
  "sort_Sort lt xs = foldr (sort_insert lt) xs []"

definition value_less :: "'g go_value \<Rightarrow> 'g go_value \<Rightarrow> bool" where
  "value_less a b =
     (case (a, b) of
        (VDate t, VDate u) \<Rightarrow> time_Before t u
      | (VTime t, VTime u) \<Rightarrow> time_Before t u
      | (VInt32 i, VInt32 j) \<Rightarrow> sint i < sint j
      | (VFloat x, VFloat y) \<Rightarrow> fl_lt x y
      | (VString s, VString t) \<Rightarrow> s < t
      | (VBytes s, VBytes t) \<Rightarrow> s < t
      | _ \<Rightarrow> False)"

definition Scalar_Sort :: "scalar \<Rightarrow> ('g go_value \<times> u64) list \<Rightarrow> ('g go_value \<times> u64) list go" where
  "Scalar_Sort s ps =
     (if ID s \<in> set [DateID, DateTimeID, Int32ID, FloatID, StringID, BytesID] then
        if length ps \<le> 1 \<or> list_all (\<lambda>p. ID (value_Type (fst p)) = ID s) ps
        then Inr (sort_Sort (\<lambda>p q. value_less (fst p) (fst q)) ps)
        else Inl (Panic ''interface conversion'')
      else Inl (Err ''Scalar does not support sorting''))"

section \<open>Text forms round trip\<close>

lemma of_char_digit: "0 \<le> n \<Longrightarrow> n \<le> 9 \<Longrightarrow> (of_char (digit n) :: int) = 48 + n"
  by (simp add: digit_def)

lemma is_digit_digit: "0 \<le> n \<Longrightarrow> n \<le> 9 \<Longrightarrow> is_digit (digit n)"
  by (simp add: is_digit_def of_char_digit)

lemma digits_val_snoc: "digits_val (s @ [c]) = digits_val s * 10 + (of_char c - 48)"
  by (simp add: digits_val_def)

lemma dec_int_spec:
  "0 \<le> n \<Longrightarrow> list_all is_digit (dec_int n) \<and> digits_val (dec_int n) = n \<and> dec_int n \<noteq> []"
proof (induction n rule: dec_int.induct)
  case (1 n)
  show ?case
  proof (cases "n < 10")
    case True
    then show ?thesis using 1(2)
      by (simp add: dec_int.simps [of n] is_digit_digit digits_val_def of_char_digit)
  next
    case False
    then show ?thesis using 1
      by (simp add: dec_int.simps [of n] is_digit_digit digits_val_snoc of_char_digit)
  qed
qed

lemma dec_int_lengths:
  "0 \<le> n \<Longrightarrow> n < 10 \<Longrightarrow> length (dec_int n) = 1"
  "10 \<le> n \<Longrightarrow> n < 100 \<Longrightarrow> length (dec_int n) = 2"
  "100 \<le> n \<Longrightarrow> n < 1000 \<Longrightarrow> length (dec_int n) = 3"
  "1000 \<le> n \<Longrightarrow> n < 10000 \<Longrightarrow> length (dec_int n) = 4"
proof -
  show 1: "length (dec_int n) = 1" if "0 \<le> n" "n < 10" for n using that by (simp add: dec_int.simps)
  show 2: "length (dec_int n) = 2" if "10 \<le> n" "n < 100" for n
    using that 1 [of "n div 10"] by (simp add: dec_int.simps [of n])
  show 3: "length (dec_int n) = 3" if "100 \<le> n" "n < 1000" for n
    using that 2 [of "n div 10"] by (simp add: dec_int.simps [of n])
  show "length (dec_int n) = 4" if "1000 \<le> n" "n < 10000" for n
    using that 3 [of "n div 10"] by (simp add: dec_int.simps [of n])
qed

lemma digits_val_zeros: "digits_val (replicate k (CHR ''0'') @ s) = digits_val s"
  by (induction k) (simp_all add: digits_val_def)

lemma pad_int_spec:
  assumes "0 \<le> n"
  shows "list_all is_digit (pad_int w n)" "digits_val (pad_int w n) = n"
  using dec_int_spec [OF assms] assms
  by (auto simp: pad_int_def Let_def digits_val_zeros list_all_iff is_digit_def)

lemma length_pad_2: "0 \<le> n \<Longrightarrow> n < 100 \<Longrightarrow> length (pad_int 2 n) = 2"
  using dec_int_lengths(1,2) [of n] by (cases "n < 10") (simp_all add: pad_int_def Let_def)

lemma length_pad_4:
  assumes "0 \<le> n" "n < 10000"
  shows "length (pad_int 4 n) = 4"
proof -
  consider "n < 10" | "10 \<le> n" "n < 100" | "100 \<le> n" "n < 1000" | "1000 \<le> n" using assms by linarith
  then have "length (dec_int n) \<le> 4"
    using assms dec_int_lengths [of n] by cases simp_all
  then show ?thesis using assms by (simp add: pad_int_def Let_def)
qed

lemma ParseInt32_FormatInt:
  assumes "- (2 ^ 31) \<le> n" "n < 2 ^ 31"
  shows "ParseInt32 (FormatInt n) = Inr n"
proof (cases "n < 0")
  case True
  then show ?thesis using dec_int_spec [of "- n"] assms
    by (simp add: FormatInt_def ParseInt32_def Let_def)
next
  case False
  then have d: "list_all is_digit (dec_int n)" "digits_val (dec_int n) = n" "dec_int n \<noteq> []"
    using dec_int_spec [of n] by simp_all
  then have "is_digit (hd (dec_int n))" by (simp add: list_all_iff)
  then have "hd (dec_int n) \<noteq> CHR ''-''" "hd (dec_int n) \<noteq> CHR ''+''" by (auto simp: is_digit_def)
  with False d assms show ?thesis by (simp add: FormatInt_def ParseInt32_def Let_def)
qed

text \<open>Dates are midnights in UTC.\<close>

definition is_date :: "gotime \<Rightarrow> bool" where
  "is_date t \<longleftrightarrow> t_sec t mod 86400 = 0 \<and> t_nsec t = 0 \<and> t_offset t = 0"

lemma Date_fromTime_spec:
  "is_date (Date_fromTime t)" "t_sec (Date_fromTime t) = (t_sec t + t_offset t) div 86400 * 86400"
  "time_Date (Date_fromTime t) = time_Date t"
proof -
  obtain y m d where *: "time_Date t = (y, m, d)" by (cases "time_Date t")
  note m = time_Date_midnight [OF *]
  show s: "t_sec (Date_fromTime t) = (t_sec t + t_offset t) div 86400 * 86400"
    using m(2) by (simp add: Date_fromTime_def createDate_def *)
  show "is_date (Date_fromTime t)"
    unfolding is_date_def s by (simp add: Date_fromTime_def createDate_def * midnight_UTC_def)
  show "time_Date (Date_fromTime t) = time_Date t"
    using m(1) by (simp add: Date_fromTime_def createDate_def *)
qed

lemma date_eqI:
  assumes "is_date t" "is_date u" "t_sec t = t_sec u"
  shows "t = u"
  using assms by (simp add: is_date_def)

lemma Date_fromTime_date:
  assumes "is_date t"
  shows "Date_fromTime t = t"
proof (rule date_eqI [OF Date_fromTime_spec(1) assms])
  have "t_sec t = 86400 * (t_sec t div 86400)" using assms mult_div_mod_eq [of 86400 "t_sec t"] by (simp add: is_date_def)
  then show "t_sec (Date_fromTime t) = t_sec t"
    unfolding Date_fromTime_spec(2) using assms by (simp add: is_date_def)
qed

lemma date_Parse_Format:
  assumes "is_date t" "0 \<le> time_Year t" "time_Year t < 10000"
  shows "date_Parse (date_Format t) = Inr t"
proof -
  obtain y m d where *: "time_Date t = (y, m, d)" by (cases "time_Date t")
  obtain y' m' d' where dd: "date_of_days ((t_sec t + t_offset t) div 86400) = (y', m', d')"
    "1 \<le> m'" "m' \<le> 12" "1 \<le> d'" "d' \<le> month_days (is_leap y') m'"
    by (rule date_of_days_ok)
  then have md: "1 \<le> m" "m \<le> 12" "1 \<le> d" "d \<le> month_days (is_leap y) m" and y: "0 \<le> y" "y < 10000"
    using * assms(2,3) by (simp_all add: time_Date_def time_Year_def)
  have "m \<in> {1, 2, 3, 4, 5, 6, 7, 8, 9, 10, 11, 12}" using md(1,2) by simp presburger
  then have "month_days (is_leap y) m \<le> 31" by (auto simp: month_days_def daysBefore_def)
  then have d: "d < 100" using md(4) by simp
  let ?y = "pad_int 4 y" and ?m = "pad_int 2 m" and ?d = "pad_int 2 d"
  have len: "length ?y = 4" "length ?m = 2" "length ?d = 2"
    using length_pad_4 [OF y] length_pad_2 md d by simp_all
  have s: "date_Format t = ?y @ ''-'' @ ?m @ ''-'' @ ?d" by (simp add: date_Format_def *)
  have parts: "take 4 (date_Format t) = ?y" "take 2 (drop 5 (date_Format t)) = ?m"
    "take 2 (drop 8 (date_Format t)) = ?d" "length (date_Format t) = 10"
    "date_Format t ! 4 = CHR ''-''" "date_Format t ! 7 = CHR ''-''"
    unfolding s using len by (simp_all add: nth_append)
  have "createDate y m d = t"
    using Date_fromTime_date [OF assms(1)] by (simp add: Date_fromTime_def *)
  then show ?thesis
    unfolding date_Parse_def parts Let_def using md y pad_int_spec
    by (simp add: createDate_def)
qed

section \<open>Properties of the forms\<close>

text \<open>What the formats of instants and geometries promise.\<close>

definition formats_ok :: "'g formats \<Rightarrow> bool" where
  "formats_ok c \<longleftrightarrow>
     (\<forall>t b. timeMarshalBinary c t = Inr b \<longrightarrow> timeUnmarshalBinary c b = Inr t)
     \<and> (\<forall>g b. wkbMarshal c g = Inr b \<longrightarrow> wkbUnmarshal c b = Inr g)"

lemma Date_binary:
  assumes "is_date t" "- (2 ^ 63) \<le> t_sec t" "t_sec t < 2 ^ 63"
  shows "Date_UnmarshalBinary c (LittleEndian_PutUint64 (word_of_int (t_sec t)))
    = Inr (VDate (Date_fromTime (t\<lparr>t_offset := localZone c (t_sec t)\<rparr>)))"
proof -
  have s: "sint (word_of_int (t_sec t) :: u64) = t_sec t"
    using assms(2,3) by (simp add: signed_of_int signed_take_bit_int_eq_self)
  have "LittleEndian_Uint64 (LittleEndian_PutUint64 (word_of_int (t_sec t)) @ []) = Inr (word_of_int (t_sec t))"
    by (rule LittleEndian_Uint64_Put)
  moreover have "time_Unix (localZone c) (t_sec t) 0 = t\<lparr>t_offset := localZone c (t_sec t)\<rparr>"
    using assms(1) by (cases t) (simp add: time_Unix_def is_date_def Let_def)
  ultimately show ?thesis by (simp add: Date_UnmarshalBinary_def s)
qed

text \<open>
  C30: A value read back from its binary form under its own type id is the value written: numbers,
  booleans, strings and bytes always, instants and geometries as far as their formats do, and
  dates when the local time zone is UTC.
\<close>

theorem binary_roundtrip:
  assumes "formats_ok c" "MarshalBinary c v = Inr b"
    and "\<And>t. v = VDate t \<Longrightarrow> is_date t \<and> - (2 ^ 63) \<le> t_sec t \<and> t_sec t < 2 ^ 63 \<and> localZone c (t_sec t) = 0"
  shows "UnmarshalBinary c (ID (value_Type v)) b = Inr v"
proof (cases v)
  case (VInt32 i)
  have "LittleEndian_Uint32 (LittleEndian_PutUint32 i @ []) = Inr i" by (rule LittleEndian_Uint32_Put)
  with VInt32 assms(2) show ?thesis
    by (auto simp: UnmarshalBinary_def ValueForType_def MarshalBinary_def value_Type_def scalar_types type_ids Int32_UnmarshalBinary_def)
next
  case (VFloat f)
  have "LittleEndian_Uint64 (LittleEndian_PutUint64 f @ []) = Inr f" by (rule LittleEndian_Uint64_Put)
  with VFloat assms(2) show ?thesis
    by (auto simp: UnmarshalBinary_def ValueForType_def MarshalBinary_def value_Type_def scalar_types type_ids Float_UnmarshalBinary_def)
next
  case (VDate t)
  note d = assms(3) [OF VDate]
  have "t\<lparr>t_offset := 0\<rparr> = t" using d by (simp add: is_date_def)
  with VDate assms(2) d Date_binary [of t c] show ?thesis
    by (auto simp: UnmarshalBinary_def ValueForType_def MarshalBinary_def value_Type_def scalar_types type_ids Date_fromTime_date)
qed (use assms in \<open>auto simp: UnmarshalBinary_def ValueForType_def MarshalBinary_def value_Type_def scalar_types type_ids
      Bool_UnmarshalBinary_def formats_ok_def\<close>)

definition utc_formats :: "unit formats" where
  "utc_formats = \<lparr>FormatFloat = (\<lambda>_. []), ParseFloat = (\<lambda>_. Inl (Err [])),
     timeMarshalBinary = (\<lambda>_. Inl (Err [])), timeUnmarshalBinary = (\<lambda>_. Inl (Err [])),
     timeMarshalText = (\<lambda>_. Inl (Err [])), timeUnmarshalText = (\<lambda>_. Inl (Err [])),
     timeParseNoZone = (\<lambda>_. Inl (Err [])), wkbMarshal = (\<lambda>_. Inl (Err [])), wkbUnmarshal = (\<lambda>_. Inl (Err [])),
     geojsonMarshal = (\<lambda>_. Inl (Err [])), geojsonUnmarshal = (\<lambda>_. Inl (Err [])), localZone = (\<lambda>_. 0)\<rparr>"

theorem binary_roundtrip_witness:
  "\<exists>b. MarshalBinary utc_formats (VDate (createDate 2016 11 15)) = Inr b
    \<and> UnmarshalBinary utc_formats DateID b = Inr (VDate (createDate 2016 11 15))"
proof -
  let ?v = "VDate (createDate 2016 11 15) :: unit go_value"
  have d: "is_date (createDate 2016 11 15)" "- (2 ^ 63) \<le> t_sec (createDate 2016 11 15)"
    "t_sec (createDate 2016 11 15) < 2 ^ 63" by code_simp+
  have "formats_ok utc_formats" "localZone utc_formats = (\<lambda>_. 0)" by (simp_all add: formats_ok_def utc_formats_def)
  moreover obtain b where b: "MarshalBinary utc_formats ?v = Inr b" by (simp add: MarshalBinary_def)
  ultimately show ?thesis using binary_roundtrip [of utc_formats ?v b] d
    by (auto simp: value_Type_def scalar_types)
qed

text \<open>
  West of Greenwich a stored date is read back as the day before: \<^verbatim>\<open>UnmarshalBinary\<close> takes the
  civil date of the instant in the local time zone, although the type carries no time zone.
\<close>

lemma date_shifts_west:
  assumes "is_date t" "- (2 ^ 63) \<le> t_sec t" "t_sec t < 2 ^ 63"
    "- 86400 \<le> localZone c (t_sec t)" "localZone c (t_sec t) < 0"
  shows "\<exists>b u. MarshalBinary c (VDate t) = Inr b \<and> UnmarshalBinary c DateID b = Inr (VDate u)
    \<and> t_sec u = t_sec t - 86400"
proof -
  let ?u = "t\<lparr>t_offset := localZone c (t_sec t)\<rparr>"
  have "(t_sec t + localZone c (t_sec t)) div 86400 = t_sec t div 86400 - 1"
    by (rule int_div_pos_eq [where r = "localZone c (t_sec t) + 86400"])
      (use assms mult_div_mod_eq [of 86400 "t_sec t"] in \<open>simp_all add: is_date_def algebra_simps\<close>)
  then have "t_sec (Date_fromTime ?u) = (t_sec t div 86400 - 1) * 86400"
    unfolding Date_fromTime_spec(2) by simp
  also have "\<dots> = t_sec t - 86400"
    using assms(1) mult_div_mod_eq [of 86400 "t_sec t"] by (simp add: is_date_def algebra_simps)
  finally show ?thesis
    using Date_binary [OF assms(1-3), of c] by (simp add: MarshalBinary_def UnmarshalBinary_def ValueForType_def type_ids)
qed

text \<open>
  C31: Text forms round trip: the 32-bit integers in decimal, booleans, strings and bytes, and the
  dates of the years 0 to 9999.
\<close>

theorem text_roundtrip:
  assumes "case v of VTime t \<Rightarrow> False | VFloat f \<Rightarrow> False | VGeo g \<Rightarrow> False
      | VDate t \<Rightarrow> is_date t \<and> 0 \<le> time_Year t \<and> time_Year t < 10000 | _ \<Rightarrow> True"
  shows "\<exists>b. MarshalText c v = Inr b \<and> UnmarshalText c (ID (value_Type v)) b = Inr v"
proof (cases v)
  case (VInt32 i)
  have "- (2 ^ 31) \<le> sint i" "sint i < 2 ^ 31" using sint_range_size [of i] by (simp_all add: word_size)
  from ParseInt32_FormatInt [OF this] VInt32 show ?thesis
    by (simp add: MarshalText_def UnmarshalText_def ValueForType_def value_Type_def scalar_types type_ids)
next
  case (VDate t)
  with assms have t: "is_date t" "0 \<le> time_Year t" "time_Year t < 10000" by simp_all
  from date_Parse_Format [OF t] Date_fromTime_date [OF t(1)] VDate show ?thesis
    by (simp add: MarshalText_def UnmarshalText_def ValueForType_def value_Type_def scalar_types type_ids)
next
  case (VBool b)
  then show ?thesis
    by (cases b) (simp_all add: MarshalText_def UnmarshalText_def ValueForType_def value_Type_def scalar_types type_ids FormatBool_def ParseBool_def)
qed (use assms in \<open>simp_all add: MarshalText_def UnmarshalText_def ValueForType_def value_Type_def scalar_types type_ids\<close>)

theorem text_roundtrip_witness:
  "\<exists>b. MarshalText utc_formats (VDate (createDate 2016 2 29)) = Inr b
     \<and> UnmarshalText utc_formats DateID b = Inr (VDate (createDate 2016 2 29))"
proof -
  have "is_date (createDate 2016 2 29)" "0 \<le> time_Year (createDate 2016 2 29)"
    "time_Year (createDate 2016 2 29) < 10000" by code_simp+
  with text_roundtrip [of "VDate (createDate 2016 2 29)" utc_formats]
  show ?thesis by (simp add: value_Type_def scalar_types)
qed

section \<open>Properties of the conversions\<close>

lemma sint_int32_range: "- (2 ^ 31) \<le> sint (i :: u32)" "sint (i :: u32) < 2 ^ 31"
  using sint_range_size [of i] by (simp_all add: word_size)

lemma sint_word_int32: "- (2 ^ 31) \<le> n \<Longrightarrow> n < 2 ^ 31 \<Longrightarrow> sint (word_of_int n :: u32) = n"
  by (simp add: signed_of_int signed_take_bit_int_eq_self)

lemma fl_trunc_bounds:
  assumes "fl_ratio s m e = (n, d)" "0 \<le> m"
  shows "n \<le> k * d \<Longrightarrow> 0 \<le> k \<Longrightarrow> fl_trunc s m e \<le> k" "- (k * d) \<le> n \<Longrightarrow> 0 \<le> k \<Longrightarrow> - k \<le> fl_trunc s m e"
    "0 < d"
proof -
  define p :: int where "p = 2 ^ nat (- e)"
  have p: "0 < p" by (simp add: p_def)
  have *: "fl_trunc s m e = (let q = (if 0 \<le> e then m * 2 ^ nat e else m div p) in if s then - q else q)"
    by (simp add: p_def)
  have q: "0 \<le> m div p" using assms(2) p by (simp add: pos_imp_zdiv_nonneg_iff)
  have up: "m div p \<le> k" if "m \<le> k * p" using zdiv_mono1 [OF that p] p by simp
  show "0 < d" using assms(1) by (auto simp: Let_def split: if_splits)
  show "fl_trunc s m e \<le> k" if "n \<le> k * d" "0 \<le> k"
    using that assms q up unfolding * by (auto simp: Let_def p_def split: if_splits)
  show "- k \<le> fl_trunc s m e" if "- (k * d) \<le> n" "0 \<le> k"
    using that assms q up unfolding * by (auto simp: Let_def p_def split: if_splits)
qed

lemma fl_dec_nonneg: "fl_dec f = FFin s m e \<Longrightarrow> 0 \<le> m"
  by (auto simp: fl_dec_def fl_fields_def Let_def split: if_splits)

text \<open>
  A float converts to an integer only when it is a number within the range of 32 bits, and
  then to its integral part: the conversion never wraps around.
\<close>

lemma float_to_int_bounds:
  assumes "Convert c int32Type (VFloat f) = Inr w"
  shows "\<exists>i s m e. w = VInt32 i \<and> fl_dec f = FFin s m e \<and> sint i = fl_trunc s m e"
proof -
  have r: "Int32_fromFloat f = Inr w"
    using assms by (simp add: Convert_def value_Type_def scalar_types type_ids)
  then have g: "\<not> fl_gt_int f (2 ^ 31 - 1)" "\<not> fl_lt_int f (- (2 ^ 31))" "\<not> fl_is_nan f"
    and w: "w = VInt32 (word_of_int (int64_of_float f))"
    by (auto simp: Int32_fromFloat_def split: if_splits)
  obtain s m e where f: "fl_dec f = FFin s m e"
  proof (cases "fl_dec f")
    case (FInf s)
    with g show thesis by (simp add: fl_gt_int_def fl_lt_int_def)
  qed (use g in \<open>auto simp: fl_is_nan_def\<close>)
  obtain n d where nd: "fl_ratio s m e = (n, d)" by fastforce
  note b = fl_trunc_bounds [OF nd fl_dec_nonneg [OF f]]
  have "n \<le> (2 ^ 31 - 1) * d" "- (2 ^ 31 * d) \<le> n"
    using g(1,2) unfolding fl_gt_int_def fl_lt_int_def f fl.case nd prod.case by linarith+
  then have "fl_trunc s m e \<le> 2 ^ 31 - 1" "- (2 ^ 31) \<le> fl_trunc s m e"
    using b(1) [of "2 ^ 31 - 1"] b(2) [of "2 ^ 31"] by simp_all
  then have "int64_of_float f = fl_trunc s m e" "sint (word_of_int (fl_trunc s m e) :: u32) = fl_trunc s m e"
    using sint_word_int32 [of "fl_trunc s m e"] unfolding int64_of_float_def f fl.case Let_def by simp_all
  with w f show ?thesis by simp
qed

text \<open>Every 32-bit integer survives the conversion to a float and back.\<close>

lemma int_float_int:
  "\<exists>f. Convert c floatType (VInt32 i) = Inr (VFloat f) \<and> Convert c int32Type (VFloat f) = Inr (VInt32 i)"
proof -
  let ?i = "sint i"
  have "\<bar>?i\<bar> < 2 ^ 53" using sint_int32_range [of i] by (simp add: abs_if)
  from fl_trunc_of_int [OF this] obtain s m e where d: "fl_dec (fl_of_int ?i) = FFin s m e"
    "fl_trunc s m e = ?i" and r: "fl_ratio s m e = (?i * (if 0 \<le> e then 1 else 2 ^ nat (- e)), if 0 \<le> e then 1 else 2 ^ nat (- e))"
    by blast
  define k :: int where "k = (if 0 \<le> e then 1 else 2 ^ nat (- e))"
  have k: "0 < k" by (simp add: k_def)
  have m: "- (2 ^ 31) * k \<le> ?i * k" "?i * k \<le> (2 ^ 31 - 1) * k"
    by (rule mult_right_mono; use sint_int32_range [of i] k in simp)+
  have "\<not> fl_gt_int (fl_of_int ?i) (2 ^ 31 - 1)" "\<not> fl_lt_int (fl_of_int ?i) (- (2 ^ 31))"
    using m unfolding fl_gt_int_def fl_lt_int_def d fl.case r k_def [symmetric] prod.case by linarith+
  moreover have "\<not> fl_is_nan (fl_of_int ?i)" by (simp add: fl_is_nan_def d)
  moreover have "int64_of_float (fl_of_int ?i) = ?i"
    using sint_int32_range [of i] unfolding int64_of_float_def d fl.case Let_def by simp
  ultimately have "Int32_fromFloat (fl_of_int ?i) = Inr (VInt32 (word_of_int ?i))"
    by (simp add: Int32_fromFloat_def)
  moreover have "word_of_int ?i = i" by simp
  ultimately show ?thesis
    by (simp add: Convert_def value_Type_def scalar_types type_ids Float_fromInt_def)
qed

text \<open>
  C32: A conversion that succeeds yields a value of the type asked for, with one exception: asked
  for bytes it yields a string.
\<close>

theorem convert_type:
  assumes "Convert c to v = Inr u"
  shows "ID (value_Type u) = (if ID to = BytesID \<and> ID (value_Type v) \<noteq> BytesID then StringID else ID to)"
  using assms
  by (cases v) (auto simp: Convert_def cantConvert_def value_Type_def scalar_types type_ids UnmarshalText_def ValueForType_def
      Int32_fromFloat_def Int32_fromBool_def Int32_fromTime_def Float_fromInt_def Float_fromBool_def
      Float_fromTime_def Bool_fromInt_def Bool_fromFloat_def Time_fromDate_def Float_fromDate_def
      Int32_fromDate_def Let_def go_simps split: if_splits)

theorem convert_type_witness:
  "Convert utc_formats byteArrayType (VInt32 7) = Inr (VString ''7'')
    \<and> ID (value_Type (VString ''7'' :: unit go_value)) = StringID"
proof -
  have c: "Convert utc_formats byteArrayType (VInt32 7) = Inr (VString ''7'')" by code_simp
  from c convert_type [OF c] show ?thesis by (simp add: value_Type_def scalar_types type_ids)
qed

section \<open>Properties of sorting\<close>

lemma mset_sort_insert: "mset (sort_insert lt x ys) = add_mset x (mset ys)"
  by (induction ys) auto

lemma mset_sort_Sort: "mset (sort_Sort lt xs) = mset xs"
  unfolding sort_Sort_def by (induction xs) (simp_all add: mset_sort_insert)

lemma sorted_sort_insert:
  fixes key :: "'a \<Rightarrow> 'k :: linorder"
  assumes "\<forall>a \<in> insert x (set ys). \<forall>b \<in> insert x (set ys). lt a b \<longleftrightarrow> key a < key b" "sorted (map key ys)"
  shows "sorted (map key (sort_insert lt x ys))"
  using assms
proof (induction ys)
  case (Cons y ys)
  have "set (sort_insert lt x ys) = insert x (set ys)"
    using mset_sort_insert [of lt x ys] by (metis set_mset_add_mset_insert set_mset_mset)
  then show ?case using Cons by (auto intro: less_imp_le)
qed simp

lemma sorted_sort_Sort:
  fixes key :: "'a \<Rightarrow> 'k :: linorder"
  assumes "\<forall>a \<in> set xs. \<forall>b \<in> set xs. lt a b \<longleftrightarrow> key a < key b"
  shows "sorted (map key (sort_Sort lt xs))"
  using assms
proof (induction xs)
  case (Cons x xs)
  have "set (sort_Sort lt xs) = set xs" using mset_sort_Sort [of lt xs] by (metis set_mset_mset)
  with Cons show ?case
    using sorted_sort_insert [of x "sort_Sort lt xs" lt key] by (simp add: sort_Sort_def)
qed (simp add: sort_Sort_def)

lemma sort_Sort_ordered:
  fixes key :: "'a \<Rightarrow> 'k :: linorder"
  assumes "\<forall>a \<in> set xs. \<forall>b \<in> set xs. lt a b \<longleftrightarrow> key a < key b"
  shows "sorted_wrt (\<lambda>a b. \<not> lt b a) (sort_Sort lt xs)"
proof -
  have s: "set (sort_Sort lt xs) = set xs" using mset_sort_Sort [of lt xs] by (metis set_mset_mset)
  have "sorted_wrt (\<lambda>a b. key a \<le> key b) (sort_Sort lt xs)"
    using sorted_sort_Sort [OF assms] by (simp add: sorted_wrt_map)
  then show ?thesis
    by (rule sorted_wrt_mono_rel [rotated]) (use assms s in \<open>auto simp: not_less\<close>)
qed

text \<open>Floats other than NaN are ordered by their values.\<close>

definition fl_key :: "u64 \<Rightarrow> int \<times> real" where
  "fl_key x =
     (case fl_dec x of
        FNaN \<Rightarrow> (0, 0)
      | FInf s \<Rightarrow> (if s then - 1 else 1, 0)
      | FFin s m e \<Rightarrow> (case fl_ratio s m e of (n, d) \<Rightarrow> (0, of_int n / of_int d)))"

lemma quot_less:
  assumes "0 < d" "0 < (d' :: int)"
  shows "real_of_int n / of_int d < of_int n' / of_int d' \<longleftrightarrow> n * d' < n' * d"
proof -
  have "real_of_int n / of_int d < of_int n' / of_int d' \<longleftrightarrow> real_of_int n * of_int d' < of_int n' * of_int d"
    using assms by (simp add: field_simps)
  also have "\<dots> \<longleftrightarrow> n * d' < n' * d" by (simp only: of_int_mult [symmetric] of_int_less_iff)
  finally show ?thesis .
qed

lemma fl_ratio_pos: "fl_ratio s m e = (n, d) \<Longrightarrow> 0 < d"
  by (auto simp: Let_def split: if_splits)

lemma fl_lt_key:
  assumes "\<not> fl_is_nan x" "\<not> fl_is_nan y"
  shows "fl_lt x y \<longleftrightarrow> fl_key x < fl_key y"
proof (cases "\<exists>s m e s' m' e'. fl_dec x = FFin s m e \<and> fl_dec y = FFin s' m' e'")
  case True
  then obtain s m e s' m' e' where d: "fl_dec x = FFin s m e" "fl_dec y = FFin s' m' e'" by blast
  obtain n k where r: "fl_ratio s m e = (n, k)" by fastforce
  obtain n' k' where r': "fl_ratio s' m' e' = (n', k')" by fastforce
  show ?thesis
    unfolding fl_lt_def fl_key_def d fl.case prod.case r r'
    using quot_less [OF fl_ratio_pos [OF r] fl_ratio_pos [OF r']] by simp
next
  case False
  with assms show ?thesis
    unfolding fl_is_nan_def fl_lt_def fl_key_def
    by (cases "fl_dec x"; cases "fl_dec y") (auto simp del: fl_ratio.simps split: prod.splits)
qed

lemma value_less_key:
  assumes "ID (value_Type a) = k" "ID (value_Type b) = k"
    "k = FloatID \<longrightarrow> (\<forall>x. a = VFloat x \<or> b = VFloat x \<longrightarrow> \<not> fl_is_nan x)"
  shows "k = Int32ID \<Longrightarrow> value_less a b \<longleftrightarrow> (case a of VInt32 i \<Rightarrow> sint i) < (case b of VInt32 i \<Rightarrow> sint i)"
    "k = FloatID \<Longrightarrow> value_less a b \<longleftrightarrow> (case a of VFloat x \<Rightarrow> fl_key x) < (case b of VFloat x \<Rightarrow> fl_key x)"
    "k = StringID \<Longrightarrow> value_less a b \<longleftrightarrow> (case a of VString x \<Rightarrow> x) < (case b of VString x \<Rightarrow> x)"
    "k = BytesID \<Longrightarrow> value_less a b \<longleftrightarrow> (case a of VBytes x \<Rightarrow> x) < (case b of VBytes x \<Rightarrow> x)"
    "k = DateTimeID \<Longrightarrow> value_less a b \<longleftrightarrow> (case a of VTime t \<Rightarrow> (t_sec t, t_nsec t)) < (case b of VTime t \<Rightarrow> (t_sec t, t_nsec t))"
    "k = DateID \<Longrightarrow> value_less a b \<longleftrightarrow> (case a of VDate t \<Rightarrow> (t_sec t, t_nsec t)) < (case b of VDate t \<Rightarrow> (t_sec t, t_nsec t))"
  using assms fl_lt_key
  by (cases a; cases b; force simp: value_Type_def scalar_types type_ids value_less_def time_Before_def)+

lemma sorted_by_key:
  fixes key :: "'g go_value \<Rightarrow> 'k :: linorder" and ps :: "('g go_value \<times> u64) list"
  assumes "\<forall>p \<in> set ps. ID (value_Type (fst p)) = k"
    "k = FloatID \<longrightarrow> (\<forall>p \<in> set ps. \<forall>x. fst p = VFloat x \<longrightarrow> \<not> fl_is_nan x)"
    "\<And>a b. ID (value_Type a) = k \<Longrightarrow> ID (value_Type b) = k \<Longrightarrow>
       (k = FloatID \<longrightarrow> (\<forall>x. a = VFloat x \<or> b = VFloat x \<longrightarrow> \<not> fl_is_nan x)) \<Longrightarrow>
       value_less a b \<longleftrightarrow> key a < key b"
  shows "sorted_wrt (\<lambda>p q. \<not> value_less (fst q) (fst p)) (sort_Sort (\<lambda>p q. value_less (fst p) (fst q)) ps)"
proof -
  have "\<forall>p \<in> set ps. \<forall>q \<in> set ps. value_less (fst p) (fst q) \<longleftrightarrow> key (fst p) < key (fst q)"
    using assms(1,2) by (intro ballI assms(3)) auto
  from sort_Sort_ordered [where key = "\<lambda>p. key (fst p)" and lt = "\<lambda>p q. value_less (fst p) (fst q)", OF this]
  show ?thesis .
qed



end
