(* ===== verification/Schema_Info.thy ===== *)
theory Schema_Info
  imports Scalar_Types
begin

text \<open>
  The tables of the schema, \<^verbatim>\<open>schema/schema.go\<close>: the type of each predicate or object and the set of
  indexed predicates, with the queries that the other packages make. A Go map is an association
  list in the order in which \<^verbatim>\<open>range\<close> visits it.
\<close>

record schema =
  str :: "(bytes \<times> go_type) list"
  indexedFields :: "bytes list"

record schema_item =
  Field :: bytes
  ItemTyp :: go_type

definition schema_init :: schema where
  "schema_init = \<lparr>str = [], indexedFields = []\<rparr>"

definition IsIndexed :: "schema \<Rightarrow> bytes \<Rightarrow> bool" where
  "IsIndexed sc p \<longleftrightarrow> p \<in> set (indexedFields sc)"

definition getScalar :: "bytes \<Rightarrow> go_type option" where
  "getScalar typ = TypeForName typ"

definition TypeOf :: "schema \<Rightarrow> bytes \<Rightarrow> go_type option" where
  "TypeOf sc pred =
     (case map_of (str sc) pred of
        Some obj \<Rightarrow> Some obj
      | None \<Rightarrow> (case getScalar pred of Some typ \<Rightarrow> Some typ | None \<Rightarrow> None))"

fun scalar_items :: "(bytes \<times> bytes) list \<Rightarrow> schema_item list" where
  "scalar_items [] = []"
| "scalar_items ((k, v) # fs) =
     (case getScalar v of
        Some t \<Rightarrow> \<lparr>Field = k, ItemTyp = t\<rparr> # scalar_items fs
      | None \<Rightarrow> scalar_items fs)"

definition ScalarList :: "schema \<Rightarrow> bytes \<Rightarrow> schema_item list" where
  "ScalarList sc obj =
     (case map_of (str sc) obj of
        Some (Object ob) \<Rightarrow> scalar_items (Fields ob)
      | _ \<Rightarrow> [])"

definition IndexedFields :: "schema \<Rightarrow> bytes list" where
  "IndexedFields sc = indexedFields sc"

text \<open>The names of the scalars are the only types that a predicate without a declaration has.\<close>

lemma TypeOf_undeclared:
  "map_of (str sc) p = None \<Longrightarrow> TypeOf sc p = TypeForName p"
  by (simp add: TypeOf_def getScalar_def split: option.splits)

lemma scalar_items_scalar: "i \<in> set (scalar_items fs) \<Longrightarrow> IsScalar (ItemTyp i)"
  by (induction fs rule: scalar_items.induct)
    (auto simp: getScalar_def TypeForName_def IsScalar_def split: option.splits)

end
