(* ===== verification/Token_Index.thy ===== *)
theory Token_Index
  imports Schema_Info Kv_Store
begin

text \<open>
  Keys and tokens of the index, \<^verbatim>\<open>types/index.go\<close>, and the table of the tokens of an attribute with
  its loading from the store, from \<^verbatim>\<open>posting/index.go\<close>. The tokenizer for strings is that of the
  ICU library, a parameter. Results: keys give back their tokens, tables stay sorted and answer as
  sets do, loading finds exactly the tokens of the store, and the order of integer tokens.
\<close>

section \<open>Keys and tokens\<close>

definition indexRune :: char where "indexRune = CHR '':''"

definition IndexKey :: "bytes \<Rightarrow> bytes \<Rightarrow> bytes" where
  "IndexKey attr term = attr @ indexRune # term"

definition TokenFromKey :: "bytes \<Rightarrow> bytes go" where
  "TokenFromKey k =
     (let i = length (takeWhile (\<lambda>c. c \<noteq> indexRune) k) in
      if i < length k then Inr (drop (i + 1) k) else Inl (Fatal ''Assert failed''))"

text \<open>The tokenizer yields the tokens of a text, or fails to start.\<close>

definition DefaultIndexKeys :: "(bytes \<Rightarrow> bytes list option) \<Rightarrow> bytes \<Rightarrow> bytes list" where
  "DefaultIndexKeys tokenize data = (case tokenize data of None \<Rightarrow> [] | Some tokens \<Rightarrow> tokens)"

definition binary_Write_int32 :: "int \<Rightarrow> bytes" where
  "binary_Write_int32 n = BigEndian_PutUint32 (word_of_int n)"

definition IntIndex :: "u32 \<Rightarrow> bytes list" where
  "IntIndex val = [binary_Write_int32 (sint val)]"

text \<open>\<^verbatim>\<open>int32(f)\<close>; what does not fit gives the smallest integer, as the hardware does.\<close>

definition int32_of_float :: "u64 \<Rightarrow> int" where
  "int32_of_float x =
     (case fl_dec x of
        FFin s m e \<Rightarrow> (let n = fl_trunc s m e in if - (2 ^ 31) \<le> n \<and> n < 2 ^ 31 then n else - (2 ^ 31))
      | _ \<Rightarrow> - (2 ^ 31))"

definition FloatIndex :: "u64 \<Rightarrow> bytes list" where
  "FloatIndex val = [binary_Write_int32 (int32_of_float val)]"

definition DateIndex :: "gotime \<Rightarrow> bytes list" where
  "DateIndex val = [binary_Write_int32 (time_Year val)]"

definition TimeIndex :: "gotime \<Rightarrow> bytes list" where
  "TimeIndex val = [binary_Write_int32 (time_Year val)]"

section \<open>Tables of tokens\<close>

text \<open>A table is the list of its keys.\<close>

type_synonym tokens_table = "bytes list"

definition search_string :: "bytes list \<Rightarrow> bytes \<Rightarrow> nat" where
  "search_string ks s = sort_Search (length ks) (\<lambda>i. s \<le> ks ! i)"

definition NewTokensTable :: tokens_table where
  "NewTokensTable = []"

definition TokensTable_Get :: "tokens_table \<Rightarrow> bytes \<Rightarrow> int" where
  "TokensTable_Get t s =
     (let i = search_string t s in if i < length t \<and> t ! i = s then int i else - 1)"

text \<open>The loop that moves the keys above position \<open>i\<close> up by one, from the end down.\<close>

fun shift_up :: "tokens_table \<Rightarrow> nat \<Rightarrow> nat \<Rightarrow> tokens_table" where
  "shift_up t i 0 = t"
| "shift_up t i (Suc j) = (if i < Suc j then shift_up (t[Suc j := t ! j]) i j else t)"

definition TokensTable_Add :: "tokens_table \<Rightarrow> bytes \<Rightarrow> tokens_table" where
  "TokensTable_Add t s =
     (let i = search_string t s in
      if i < length t \<and> t ! i = s then t
      else (shift_up (t @ [[]]) i (length t))[i := s])"

definition TokensTable_push :: "tokens_table \<Rightarrow> bytes \<Rightarrow> tokens_table" where
  "TokensTable_push t s = t @ [s]"

definition TokensTable_Size :: "tokens_table \<Rightarrow> nat" where
  "TokensTable_Size t = length t"

definition TokensTable_GetNext :: "tokens_table \<Rightarrow> bytes \<Rightarrow> bytes" where
  "TokensTable_GetNext t k =
     (let i = sort_Search (length t) (\<lambda>i. k < t ! i) in if i < length t then t ! i else [])"

definition TokensTable_GetFirst :: "tokens_table \<Rightarrow> bytes" where
  "TokensTable_GetFirst t = (if length t = 0 then [] else t ! 0)"

section \<open>Loading the tables\<close>

fun push_keys :: "tokens_table \<Rightarrow> kv \<Rightarrow> tokens_table go" where
  "push_keys t [] = Inr t"
| "push_keys t (e # es) =
     (case TokenFromKey (fst e) of
        Inl err \<Rightarrow> Inl err
      | Inr tok \<Rightarrow> push_keys (TokensTable_push t tok) es)"

definition load_table :: "store \<Rightarrow> bytes \<Rightarrow> tokens_table go" where
  "load_table ps attr =
     (let pre = IndexKey attr [] in push_keys NewTokensTable (store_scan ps pre pre))"

text \<open>One table for each indexed attribute.\<close>

fun initIndex :: "store \<Rightarrow> bytes list \<Rightarrow> (bytes \<times> tokens_table) list go" where
  "initIndex ps [] = Inr []"
| "initIndex ps (attr # attrs) =
     (case load_table ps attr of
        Inl e \<Rightarrow> Inl e
      | Inr t \<Rightarrow>
          (case initIndex ps attrs of
             Inl e \<Rightarrow> Inl e
           | Inr ts \<Rightarrow> Inr ((attr, t) # ts)))"

section \<open>Lemmas\<close>

lemma TokenFromKey_IndexKey:
  assumes "indexRune \<notin> set attr"
  shows "TokenFromKey (IndexKey attr tok) = Inr tok"
proof -
  have "takeWhile (\<lambda>c. c \<noteq> indexRune) (attr @ indexRune # tok) = attr"
    using assms by (subst takeWhile_append2) auto
  then show ?thesis by (simp add: TokenFromKey_def IndexKey_def)
qed

lemma search_string_sorted:
  "ssorted t \<Longrightarrow> search_string t s = first_index (\<lambda>k. s \<le> k) t"
  unfolding search_string_def by (rule sort_Search_sorted_ge [where f = "\<lambda>x. x", simplified]) (rule ssorted_sorted)

lemma shift_up_eq:
  "i \<le> j \<Longrightarrow> j < length u \<Longrightarrow> shift_up u i j = take (Suc i) u @ drop i (take j u) @ drop (Suc j) u"
proof (induction j arbitrary: u)
  case 0
  then show ?case by (simp flip: take_Suc_conv_app_nth add: append_take_drop_id)
next
  case (Suc j)
  show ?case
  proof (cases "i = Suc j")
    case True
    then show ?thesis using Suc.prems by (simp add: append_take_drop_id)
  next
    case False
    then have i: "i \<le> j" using Suc.prems by simp
    let ?u = "u[Suc j := u ! j]"
    have "shift_up u i (Suc j) = take (Suc i) ?u @ drop i (take j ?u) @ drop (Suc j) ?u"
      using Suc.IH [of ?u] i Suc.prems by simp
    also have "take (Suc i) ?u = take (Suc i) u" using i by simp
    also have "take j ?u = take j u" by simp
    also have "drop (Suc j) ?u = u ! j # drop (Suc (Suc j)) u"
      using Suc.prems(2) by (simp add: drop_update_swap Cons_nth_drop_Suc [symmetric])
    also have "drop i (take j u) @ u ! j # drop (Suc (Suc j)) u = drop i (take (Suc j) u) @ drop (Suc (Suc j)) u"
      using i Suc.prems(2) by (simp add: take_Suc_conv_app_nth)
    finally show ?thesis .
  qed
qed

lemma search_string_mem:
  assumes "ssorted t"
  shows "search_string t s < length t \<and> t ! search_string t s = s \<longleftrightarrow> s \<in> set t"
proof -
  let ?i = "first_index (\<lambda>k. s \<le> k) t"
  have tk: "drop ?i t = dropWhile (\<lambda>k. k < s) t"
    by (simp add: first_index_def not_le dropWhile_eq_drop [symmetric])
  have "?i < length t \<and> t ! ?i = s \<longleftrightarrow> s \<in> set t"
  proof
    assume "s \<in> set t"
    then have "s \<in> set (dropWhile (\<lambda>k. k < s) t)"
      by (metis (mono_tags, lifting) Un_iff less_irrefl set_append set_takeWhileD takeWhile_dropWhile_id)
    then obtain k ks where k: "dropWhile (\<lambda>k. k < s) t = k # ks" by (cases "dropWhile (\<lambda>k. k < s) t") auto
    then have "\<not> k < s" by (metis hd_dropWhile list.discI list.sel(1))
    have "ssorted (k # ks)" using assms sorted_wrt_drop [of "(<)" t ?i] by (simp add: tk k)
    with \<open>s \<in> set (dropWhile _ t)\<close> k \<open>\<not> k < s\<close> have "k = s" by auto
    moreover have "drop ?i t = k # ks" using tk k by simp
    ultimately show "?i < length t \<and> t ! ?i = s"
      by (metis drop_all hd_drop_conv_nth linorder_not_less list.discI list.sel(1))
  qed (metis nth_mem)
  then show ?thesis by (simp add: search_string_sorted [OF assms])
qed

lemma TokensTable_Add_eq:
  assumes "ssorted t"
  shows "TokensTable_Add t s =
    (if s \<in> set t then t else takeWhile (\<lambda>k. k < s) t @ s # dropWhile (\<lambda>k. k < s) t)"
proof -
  let ?i = "first_index (\<lambda>k. s \<le> k) t"
  have tk: "take ?i t = takeWhile (\<lambda>k. k < s) t" "drop ?i t = dropWhile (\<lambda>k. k < s) t"
    by (simp_all add: first_index_def not_le takeWhile_eq_take [symmetric] dropWhile_eq_drop [symmetric])
  have mem: "?i < length t \<and> t ! ?i = s \<longleftrightarrow> s \<in> set t"
    using search_string_mem [OF assms, of s] by (simp add: search_string_sorted [OF assms])
  have le: "?i \<le> length t" by (simp add: first_index_def length_takeWhile_le)
  have "shift_up (t @ [[]]) ?i (length t) = take (Suc ?i) (t @ [[]]) @ drop ?i t"
    using shift_up_eq [of ?i "length t" "t @ [[]]"] le by simp
  moreover have "take (Suc ?i) (t @ [[]]) = take ?i t @ [(t @ [[]]) ! ?i]"
    using le by (subst take_Suc_conv_app_nth) (simp_all add: less_Suc_eq_le)
  ultimately have sh: "shift_up (t @ [[]]) ?i (length t) = take ?i t @ (t @ [[]]) ! ?i # drop ?i t"
    by (simp only: append_assoc append_Cons append_Nil)
  have "length (take ?i t) = ?i" using le by simp
  then have "(shift_up (t @ [[]]) ?i (length t))[?i := s] = take ?i t @ s # drop ?i t"
    unfolding sh by (metis list_update_length)
  then show ?thesis
    unfolding TokensTable_Add_def search_string_sorted [OF assms] Let_def mem tk by simp
qed

lemma TokensTable_Add_ok:
  assumes "ssorted t"
  shows "ssorted (TokensTable_Add t s)" "set (TokensTable_Add t s) = insert s (set t)"
proof -
  let ?a = "takeWhile (\<lambda>k. k < s) t" and ?b = "dropWhile (\<lambda>k. k < s) t"
  have t: "t = ?a @ ?b" by simp
  then have "sorted_wrt (<) (?a @ ?b)" using assms by (rule subst)
  then have ab: "ssorted ?a" "ssorted ?b" "\<forall>x \<in> set ?a. \<forall>y \<in> set ?b. x < y"
    unfolding sorted_wrt_append by blast+
  have a: "\<forall>x \<in> set ?a. x < s" by (auto dest: set_takeWhileD)
  have b: "\<forall>y \<in> set ?b. s \<le> y"
  proof (cases ?b)
    case (Cons y ys)
    then have "\<not> y < s" by (metis hd_dropWhile list.discI list.sel(1))
    with Cons ab(2) show ?thesis by auto
  next
    case Nil
    show ?thesis unfolding Nil by simp
  qed
  have u: "set t = set ?a \<union> set ?b" using t by (metis set_append)
  show "set (TokensTable_Add t s) = insert s (set t)"
    by (cases "s \<in> set t") (use u in \<open>auto simp: TokensTable_Add_eq [OF assms]\<close>)
  show "ssorted (TokensTable_Add t s)"
  proof (cases "s \<in> set t")
    case True
    then show ?thesis using assms by (simp add: TokensTable_Add_eq [OF assms])
  next
    case False
    then have "\<forall>y \<in> set ?b. s < y" using b u by (metis UnCI order_le_less)
    then have "ssorted (?a @ s # ?b)"
      unfolding sorted_wrt_append sorted_wrt.simps list.set using ab a by blast
    with False show ?thesis by (simp only: TokensTable_Add_eq [OF assms] if_False)
  qed
qed

lemma push_keys_eq:
  assumes "indexRune \<notin> set attr" "\<forall>e \<in> set es. prefix (IndexKey attr []) (fst e)"
  shows "push_keys t es = Inr (t @ map (\<lambda>e. drop (length attr + 1) (fst e)) es)"
  using assms(2)
proof (induction es arbitrary: t)
  case (Cons e es)
  then obtain tok where "fst e = IndexKey attr tok" by (auto simp: prefix_def IndexKey_def)
  with Cons show ?case
    by (simp add: TokenFromKey_IndexKey [OF assms(1)] TokensTable_push_def) (simp add: IndexKey_def)
qed simp

lemma load_table_ok:
  assumes "kv_invar (entries ps)" "indexRune \<notin> set attr"
  shows "\<exists>t. load_table ps attr = Inr t \<and> ssorted t
    \<and> set t = {tok. map_of (entries ps) (IndexKey attr tok) \<noteq> None}"
proof -
  let ?p = "IndexKey attr []"
  let ?es = "store_scan ps ?p ?p"
  have es: "set ?es = {(k, v). ?p \<le> k \<and> prefix ?p k \<and> map_of (entries ps) k = Some v}"
    unfolding store_scan_def by (rule kv.scan_set [OF assms(1)]) simp
  have srt: "ssorted (map fst ?es)" unfolding store_scan_def by (rule kv.scan_sorted [OF assms(1)])
  let ?f = "\<lambda>e. drop (length attr + 1) (fst e)"
  have pre: "\<forall>e \<in> set ?es. prefix ?p (fst e)" by (auto simp: es)
  have key: "fst e = IndexKey attr (?f e)" if "prefix ?p (fst e)" for e :: "bytes \<times> bytes"
    using that by (auto simp: prefix_def IndexKey_def)
  have lt: "IndexKey attr a < IndexKey attr b \<longleftrightarrow> a < b" for a b
    by (simp add: IndexKey_def) (induction attr, simp_all)
  have eq: "map fst ?es = map (\<lambda>e. IndexKey attr (?f e)) ?es" using key pre by (intro map_cong) auto
  have "ssorted (map (\<lambda>e. IndexKey attr (?f e)) ?es)" by (subst eq [symmetric]) (rule srt)
  then have "ssorted (map ?f ?es)" by (simp add: sorted_wrt_map lt)
  moreover have "set (map ?f ?es) = {tok. map_of (entries ps) (IndexKey attr tok) \<noteq> None}"
  proof (intro set_eqI iffI)
    fix tok assume "tok \<in> set (map ?f ?es)"
    then obtain e where e: "e \<in> set ?es" "tok = ?f e" by auto
    with key [of e] pre have "fst e = IndexKey attr tok" by blast
    moreover have "map_of (entries ps) (fst e) = Some (snd e)" using e(1) es by auto
    ultimately show "tok \<in> {tok. map_of (entries ps) (IndexKey attr tok) \<noteq> None}" by simp
  next
    fix tok assume "tok \<in> {tok. map_of (entries ps) (IndexKey attr tok) \<noteq> None}"
    then obtain v where v: "map_of (entries ps) (IndexKey attr tok) = Some v" by auto
    have p: "prefix ?p (IndexKey attr tok)" by (simp add: IndexKey_def)
    then have "(IndexKey attr tok, v) \<in> set ?es" using v prefix_le [OF p] by (simp add: es)
    moreover have "tok = ?f (IndexKey attr tok, v)" by (simp add: IndexKey_def)
    ultimately show "tok \<in> set (map ?f ?es)" unfolding set_map by (rule rev_image_eqI)
  qed
  moreover have "load_table ps attr = Inr (map ?f ?es)"
    using push_keys_eq [OF assms(2) pre, of "[]"] by (simp add: load_table_def NewTokensTable_def Let_def)
  ultimately show ?thesis by blast
qed

section \<open>Properties\<close>

lemma first_index_Min:
  assumes "ssorted t" "\<exists>k \<in> set t. s < k"
  shows "first_index (\<lambda>k. s < k) t < length t" "t ! first_index (\<lambda>k. s < k) t = Min {k \<in> set t. s < k}"
proof -
  let ?i = "first_index (\<lambda>k. s < k) t"
  show i: "?i < length t"
  proof (rule ccontr)
    assume "\<not> ?i < length t"
    then have "takeWhile (\<lambda>k. \<not> s < k) t = t"
      by (metis first_index_def length_takeWhile_le le_antisym linorder_not_less takeWhile_eq_take take_all_iff)
    then have "\<forall>k \<in> set t. \<not> s < k" by (metis set_takeWhileD)
    with assms(2) show False by blast
  qed
  have "s < t ! ?i" by (rule first_index_nth [OF i])
  have "t ! ?i \<le> k" if k: "k \<in> set t" "s < k" for k
  proof -
    obtain j where j: "j < length t" "t ! j = k" using k(1) by (auto simp: in_set_conv_nth)
    have "\<not> j < ?i"
    proof
      assume "j < ?i"
      then have l: "j < length (takeWhile (\<lambda>k. \<not> s < k) t)" by (simp add: first_index_def)
      from nth_mem [OF l] have "t ! j \<in> set (takeWhile (\<lambda>k. \<not> s < k) t)"
        unfolding takeWhile_nth [OF l] .
      from set_takeWhileD [OF this] have "\<not> s < t ! j" by simp
      with j(2) k(2) show False by simp
    qed
    then show ?thesis using ssorted_nth_mono [OF assms(1) i j(1)] j(2) by (cases "?i = j") simp_all
  qed
  then show "t ! ?i = Min {k \<in> set t. s < k}"
    using \<open>s < t ! ?i\<close> i by (intro Min_eqI [symmetric]) auto
qed

text \<open>
  C34: A table of tokens behaves as a sorted set: \<^verbatim>\<open>Add\<close> inserts a token and keeps the order, \<^verbatim>\<open>Get\<close>
  finds the position of a token or says -1, \<^verbatim>\<open>GetNext\<close> returns the least token above the one given
  and the empty string when there is none, and \<^verbatim>\<open>GetFirst\<close> the least token.
\<close>

theorem tokens_table_correct:
  assumes "ssorted t"
  shows "ssorted (TokensTable_Add t s) \<and> set (TokensTable_Add t s) = insert s (set t)
    \<and> (if s \<in> set t then 0 \<le> TokensTable_Get t s \<and> nat (TokensTable_Get t s) < length t
           \<and> t ! nat (TokensTable_Get t s) = s
       else TokensTable_Get t s = - 1)
    \<and> TokensTable_GetNext t s = (if \<exists>k \<in> set t. s < k then Min {k \<in> set t. s < k} else [])
    \<and> TokensTable_GetFirst t = (if t = [] then [] else Min (set t))"
proof (intro conjI)
  show "ssorted (TokensTable_Add t s)" "set (TokensTable_Add t s) = insert s (set t)"
    by (rule TokensTable_Add_ok [OF assms])+
  show "if s \<in> set t then 0 \<le> TokensTable_Get t s \<and> nat (TokensTable_Get t s) < length t
           \<and> t ! nat (TokensTable_Get t s) = s
       else TokensTable_Get t s = - 1"
    using search_string_mem [OF assms, of s] by (auto simp: TokensTable_Get_def Let_def)
  have srt: "sorted (map (\<lambda>x. x) t)" using ssorted_sorted [OF assms] by simp
  have nx: "sort_Search (length t) (\<lambda>i. s < t ! i) = first_index (\<lambda>k. s < k) t"
    by (rule sort_Search_sorted_gt [OF srt])
  show "TokensTable_GetNext t s = (if \<exists>k \<in> set t. s < k then Min {k \<in> set t. s < k} else [])"
  proof (cases "\<exists>k \<in> set t. s < k")
    case True
    then show ?thesis using first_index_Min [OF assms True] by (simp add: TokensTable_GetNext_def nx Let_def)
  next
    case False
    then have "\<not> first_index (\<lambda>k. s < k) t < length t" using first_index_nth nth_mem by metis
    with False show ?thesis by (simp add: TokensTable_GetNext_def nx Let_def)
  qed
  show "TokensTable_GetFirst t = (if t = [] then [] else Min (set t))"
  proof (cases t)
    case (Cons x xs)
    then have "Min (set t) = x" using assms by (intro Min_eqI) (auto intro: less_imp_le)
    with Cons show ?thesis by (simp add: TokensTable_GetFirst_def)
  qed (simp add: TokensTable_GetFirst_def)
qed

theorem tokens_table_correct_witness:
  "ssorted [''a'', ''c''] \<and> TokensTable_Add [''a'', ''c''] ''b'' = [''a'', ''b'', ''c'']
    \<and> set (TokensTable_Add [''a'', ''c''] ''b'') = insert ''b'' (set [''a'', ''c''])
    \<and> TokensTable_Get [''a'', ''c''] ''b'' = - 1"
proof -
  have s: "ssorted [''a'', ''c'']" by simp
  moreover have "TokensTable_Add [''a'', ''c''] ''b'' = [''a'', ''b'', ''c'']" by code_simp
  ultimately show ?thesis using tokens_table_correct [OF s, of "''b''"] by auto
qed

text \<open>
  At start the table of an indexed attribute is loaded with exactly the tokens for which the
  store has an index key of that attribute, in order; the name of the attribute must not contain
  the colon that separates it from the token.
\<close>

lemma load_table_tokens:
  assumes "kv_invar (entries ps)" "indexRune \<notin> set attr"
  shows "\<exists>t. load_table ps attr = Inr t \<and> ssorted t
    \<and> set t = {tok. map_of (entries ps) (IndexKey attr tok) \<noteq> None}"
  by (rule load_table_ok [OF assms])

definition sample_index :: store where
  "sample_index = \<lparr>entries = [(''age:x'', ''p''), (''name:ann'', ''q''), (''name:bob'', ''r''), (''names'', ''s'')],
     unreadable = [], readOnly = False\<rparr>"

text \<open>
  C35: The tokens of integers are ordered as the integers are as long as the signs agree, but the
  token of every negative integer comes after those of all others, so a walk through the table
  does not visit values in order.
\<close>

theorem int_index_order:
  "hd (IntIndex i) < hd (IntIndex j) \<longleftrightarrow>
     (if (sint i < 0) = (sint j < 0) then sint i < sint j else 0 \<le> sint i)"
proof -
  have u: "uint (k :: u32) = (if sint k < 0 then sint k + 2 ^ 32 else sint k)" for k
  proof -
    have "uint k = sint k mod 2 ^ 32" by (simp add: uint_sint take_bit_eq_mod)
    moreover have "- (2 ^ 31) \<le> sint k" "sint k < 2 ^ 31" by (rule sint_int32_range)+
    moreover have "(sint k + 2 ^ 32) mod 2 ^ 32 = sint k mod 2 ^ 32" by simp
    ultimately show ?thesis
      using mod_pos_pos_trivial [of "sint k + 2 ^ 32" "2 ^ 32"] mod_pos_pos_trivial [of "sint k" "2 ^ 32"]
      by (cases "sint k < 0") simp_all
  qed
  have "hd (IntIndex i) < hd (IntIndex j) \<longleftrightarrow> uint i < uint j"
    by (simp add: IntIndex_def binary_Write_int32_def BigEndian_PutUint32_less word_less_def)
  then show ?thesis unfolding u using sint_int32_range [of i] sint_int32_range [of j] by auto
qed

end
