(* ===== verification/Index_Maintenance.thy ===== *)
theory Index_Maintenance
  imports List_Cache Token_Index
begin

text \<open>
  Keeping the index up to date, the mutations of \<^verbatim>\<open>posting/index.go\<close>: a change of an indexed value
  removes the uid from the posting lists of the old value's tokens and adds it to those of the new
  value's tokens, through the cache of posting lists. The tokenizer and the tokens of geometries
  are parameters. Result: a mutation that succeeds leaves the index consistent with the values.
\<close>

section \<open>Operations\<close>

record 'g index_env =
  schema_of :: schema
  tokenize :: "bytes \<Rightarrow> bytes list option"
  geoTokens :: "'g \<Rightarrow> bytes list go"
  fmts :: "'g formats"

type_synonym tables = "(bytes \<times> tokens_table) list"

definition GetTokensTable :: "tables \<Rightarrow> bytes \<Rightarrow> tokens_table option" where
  "GetTokensTable ts attr = map_of ts attr"

definition set_table :: "bytes \<Rightarrow> tokens_table \<Rightarrow> tables \<Rightarrow> tables" where
  "set_table attr t ts = map (\<lambda>(a, u). (a, if a = attr then t else u)) ts"

definition indexTokens :: "'g index_env \<Rightarrow> bytes \<Rightarrow> 'g go_value \<Rightarrow> bytes list go" where
  "indexTokens env attr p =
     (case TypeOf (schema_of env) attr of
        None \<Rightarrow> Inl (Panic ''nil pointer dereference'')
      | Some (Object ob) \<Rightarrow> Inl (Err ''Cannot index attribute of type object.'')
      | Some (Scalar s) \<Rightarrow>
          go_bind (Convert (fmts env) s p) (\<lambda>v.
            case v of
              VGeo g \<Rightarrow> geoTokens env g
            | VInt32 i \<Rightarrow> Inr (IntIndex i)
            | VFloat f \<Rightarrow> Inr (FloatIndex f)
            | VDate t \<Rightarrow> Inr (DateIndex t)
            | VTime t \<Rightarrow> Inr (TimeIndex t)
            | VString s \<Rightarrow> Inr (DefaultIndexKeys (tokenize env) s)
            | _ \<Rightarrow> Inr []))"

definition index_edge :: "bytes \<Rightarrow> u64 \<Rightarrow> edge" where
  "index_edge attr uid =
     \<lparr>Entity = 0, Attr = attr, EValue = None, ValueType = 0, ValueId = uid, ELabel = ''idx''\<rparr>"

text \<open>A mutation of a list of the cache. A returned error leaves everything as it was.\<close>

definition cache_AddMutation ::
  "nat \<Rightarrow> addr \<Rightarrow> edge \<Rightarrow> u32 \<Rightarrow> cache \<Rightarrow> ((go_err + bool) \<times> cache) go" where
  "cache_AddMutation now a t op w =
     (case AddMutation (pstore w) now (lheap w a) t op of
        Inl (Err e) \<Rightarrow> Inr (Inl (Err e), w)
      | Inl e \<Rightarrow> Inl e
      | Inr (ch, l', sent) \<Rightarrow>
          Inr (Inr ch, w\<lparr>lheap := (lheap w)(a := l'), dirtyChan := dirtyChan w @ sent\<rparr>))"

text \<open>The error of the mutation of an index list is traced and dropped.\<close>

definition addIndexMutation ::
  "(bytes \<Rightarrow> u32) \<Rightarrow> (bytes \<Rightarrow> u64) \<Rightarrow> nat \<Rightarrow> bytes \<Rightarrow> edge \<Rightarrow> bool \<Rightarrow> bytes \<Rightarrow> cache \<times> tokens_table
    \<Rightarrow> (cache \<times> tokens_table) go" where
  "addIndexMutation fp32 fp64 now attr edge del token s =
     (case s of (w, table) \<Rightarrow>
        go_bind (GetOrCreate fp32 fp64 (IndexKey attr token) w) (\<lambda>(plist, w1).
          go_bind (cache_AddMutation now plist edge (if del then Del else Set) w1) (\<lambda>(r, w2).
            go_bind (cache_decr plist w2) (\<lambda>w3.
              Inr (w3, if del then table else TokensTable_Add table token)))))"

fun index_loop ::
  "(bytes \<Rightarrow> u32) \<Rightarrow> (bytes \<Rightarrow> u64) \<Rightarrow> nat \<Rightarrow> bytes \<Rightarrow> edge \<Rightarrow> bool \<Rightarrow> bytes list \<Rightarrow> cache \<times> tokens_table
    \<Rightarrow> (cache \<times> tokens_table) go" where
  "index_loop fp32 fp64 now attr edge del [] s = Inr s"
| "index_loop fp32 fp64 now attr edge del (token # tokens) s =
     go_bind (addIndexMutation fp32 fp64 now attr edge del token s)
       (index_loop fp32 fp64 now attr edge del tokens)"

definition addIndexMutations ::
  "'g index_env \<Rightarrow> (bytes \<Rightarrow> u32) \<Rightarrow> (bytes \<Rightarrow> u64) \<Rightarrow> nat \<Rightarrow> bytes \<Rightarrow> u64 \<Rightarrow> 'g go_value \<Rightarrow> bool
    \<Rightarrow> cache \<times> tables \<Rightarrow> (cache \<times> tables) go" where
  "addIndexMutations env fp32 fp64 now attr uid p del s =
     (case s of (w, ts) \<Rightarrow>
        go_bind (assertTruef (uid \<noteq> 0) ''Assert failed'') (\<lambda>_.
          case indexTokens env attr p of
            Inl (Err e) \<Rightarrow> Inr (w, ts)
          | Inl e \<Rightarrow> Inl e
          | Inr tokens \<Rightarrow>
              (case GetTokensTable ts attr of
                 None \<Rightarrow> Inl (Fatal ''TokensTable missing for attr'')
               | Some table \<Rightarrow>
                   go_bind (index_loop fp32 fp64 now attr (index_edge attr uid) del tokens (w, table))
                     (\<lambda>(w', table'). Inr (w', set_table attr table' ts)))))"

text \<open>
  The first component of the result is the error returned, if any: data or index may already have
  changed by then.
\<close>

definition remove_old ::
  "'g index_env \<Rightarrow> (bytes \<Rightarrow> u32) \<Rightarrow> (bytes \<Rightarrow> u64) \<Rightarrow> nat \<Rightarrow> edge \<Rightarrow> (bytes \<times> u8) option \<Rightarrow> cache \<times> tables
    \<Rightarrow> (go_err option \<times> cache \<times> tables) go" where
  "remove_old env fp32 fp64 now t old s =
     (case old of
        None \<Rightarrow> Inr (None, s)
      | Some (vbytes, vtype) \<Rightarrow>
          if vbytes = [] then Inr (None, s)
          else
            (case UnmarshalBinary (fmts env) vtype vbytes of
               Inl (Err e) \<Rightarrow> Inr (Some (Err e), s)
             | Inl e \<Rightarrow> Inl e
             | Inr p \<Rightarrow>
                 go_bind (addIndexMutations env fp32 fp64 now (Attr t) (Entity t) p True s)
                   (\<lambda>s'. Inr (None, s'))))"

definition add_new ::
  "'g index_env \<Rightarrow> (bytes \<Rightarrow> u32) \<Rightarrow> (bytes \<Rightarrow> u64) \<Rightarrow> nat \<Rightarrow> edge \<Rightarrow> u32 \<Rightarrow> cache \<times> tables
    \<Rightarrow> (go_err option \<times> cache \<times> tables) go" where
  "add_new env fp32 fp64 now t op s =
     (if op = Set then
        (case UnmarshalBinary (fmts env) (ucast (ValueType t)) (edge_bytes t) of
           Inl (Err e) \<Rightarrow> Inr (Some (Err e), s)
         | Inl e \<Rightarrow> Inl e
         | Inr p \<Rightarrow>
             go_bind (addIndexMutations env fp32 fp64 now (Attr t) (Entity t) p False s)
               (\<lambda>s'. Inr (None, s')))
      else Inr (None, s))"

definition read_old :: "addr \<Rightarrow> cache \<Rightarrow> ((bytes \<times> u8) option \<times> cache) go" where
  "read_old a w =
     (case List_Value (pstore w) (lheap w a) of
        Inl (Err e) \<Rightarrow> Inr (None, w)
      | Inl e \<Rightarrow> Inl e
      | Inr (v, l') \<Rightarrow> Inr (Some v, w\<lparr>lheap := (lheap w)(a := l')\<rparr>))"

definition AddMutationWithIndex ::
  "'g index_env \<Rightarrow> (bytes \<Rightarrow> u32) \<Rightarrow> (bytes \<Rightarrow> u64) \<Rightarrow> nat \<Rightarrow> addr \<Rightarrow> edge \<Rightarrow> u32 \<Rightarrow> cache \<times> tables
    \<Rightarrow> (go_err option \<times> cache \<times> tables) go" where
  "AddMutationWithIndex env fp32 fp64 now a t op s =
     (case s of (w, ts) \<Rightarrow>
        go_bind (assertTruef (0 < length (Attr t) \<and> hd (Attr t) \<noteq> indexRune) ''Assert failed'') (\<lambda>_.
          let doUpdateIndex = (EValue t \<noteq> None \<and> IsIndexed (schema_of env) (Attr t)) in
          go_bind (if doUpdateIndex then read_old a w else Inr (None, w)) (\<lambda>(old, w1).
            go_bind (cache_AddMutation now a t op w1) (\<lambda>(r, w2).
              case r of
                Inl e \<Rightarrow> Inr (Some e, w2, ts)
              | Inr hasMutated \<Rightarrow>
                  if \<not> hasMutated \<or> \<not> doUpdateIndex then Inr (None, w2, ts)
                  else
                    go_bind (remove_old env fp32 fp64 now t old (w2, ts)) (\<lambda>(err, s3).
                      case err of
                        Some e \<Rightarrow> Inr (Some e, s3)
                      | None \<Rightarrow> add_new env fp32 fp64 now t op s3)))))"

section \<open>Steps of a client\<close>

text \<open>Steps of a client of the cache, on the views of the keys in use.\<close>

lemma acquire_ok:
  assumes "inv_state fp64 K (w, H)" "k \<in> K" "inj_on fp64 K"
  obtains a w' where "GetOrCreate fp32 fp64 k w = Inr (a, w')" "key (lheap w' a) = k"
    "inv_state fp64 K (w', add_mset a H)" "\<forall>k' \<in> K. key_view fp64 w' k' = key_view fp64 w k'"
    "list_ok (pstore w') (lheap w' a)" "\<not> deleteMe (lheap w' a)"
    "list_view (pstore w') (lheap w' a) = key_view fp64 w k"
proof -
  obtain a w' where g: "GetOrCreate fp32 fp64 k w = Inr (a, w')" "key (lheap w' a) = k"
    "list_view (pstore w') (lheap w' a) = key_view fp64 w k" "inv_state fp64 K (w', add_mset a H)"
    "list_ok (pstore w') (lheap w' a)" "\<not> deleteMe (lheap w' a)"
    by (rule GetOrCreate_view [OF assms, where ?fp32.0 = fp32])
  have "cache_step (\<lambda>x. replicate 16 (CHR ''a'')) fp32 fp64 (\<lambda>n. n) K (w, H) [] (w', add_mset a H)"
    by (rule cache_step.acquire [OF assms(2) g(1)])
  from cache_step_ok [OF this assms(1,3)] have "\<forall>k' \<in> K. key_view fp64 w' k' = key_view fp64 w k'" by simp
  with g that show thesis by blast
qed

lemma release_ok:
  assumes "inv_state fp64 K (w, H)" "a \<in># H"
  obtains w' where "cache_decr a w = Inr w'" "inv_state fp64 K (w', H - {#a#})"
    "key_view fp64 w' = key_view fp64 w"
proof -
  have i: "cache_ok fp64 K (lm_lookup (lhmap w)) w H" "lm_invar (lhmap w)"
    using assms(1) by (simp_all add: inv_state_def)
  obtain w' where "cache_decr a w = Inr w'" "cache_ok fp64 K (lm_lookup (lhmap w)) w' (H - {#a#})"
    "cache_view fp64 (lm_lookup (lhmap w)) w' = cache_view fp64 (lm_lookup (lhmap w)) w" "lhmap w' = lhmap w"
    by (rule cache_decr_ok [OF i(1) assms(2)])
  with i(2) that show thesis by (simp add: inv_state_def key_view_def)
qed

text \<open>A list that is held and not marked is the one in the map, so it shows its key.\<close>

lemma held_ok:
  assumes "inv_state fp64 K (w, H)" "a \<in># H" "\<not> deleteMe (lheap w a)"
  shows "key (lheap w a) \<in> K" "list_ok (pstore w) (lheap w a)" "synced (pstore w) (lheap w a)"
    "lm_lookup (lhmap w) (fp64 (key (lheap w a))) = Some a"
    "key_view fp64 w (key (lheap w a)) = list_view (pstore w) (lheap w a)"
proof -
  let ?M = "lm_lookup (lhmap w)"
  have ok: "cache_ok fp64 K ?M w H" using assms(1) by (simp add: inv_state_def)
  note D = cache_okD [OF ok]
  obtain fp where m: "?M fp = Some a" using D(9) [OF assms(2)] assms(3) by (auto simp: ran_def)
  have l: "fp64 (key (lheap w a)) = fp" "key (lheap w a) \<in> K" "list_ok (pstore w) (lheap w a)"
    "synced (pstore w) (lheap w a)" using D(6) [OF m] by (simp_all add: mapped_ok_def)
  then show "key (lheap w a) \<in> K" "list_ok (pstore w) (lheap w a)" "synced (pstore w) (lheap w a)"
    "lm_lookup (lhmap w) (fp64 (key (lheap w a))) = Some a"
    "key_view fp64 w (key (lheap w a)) = list_view (pstore w) (lheap w a)"
    using m by (simp_all add: key_view_def cache_view_def)
qed

lemma list_mutate_ok:
  assumes "inv_state fp64 K (w, H)" "a \<in># H" "\<not> deleteMe (lheap w a)" "inj_on fp64 K" "0 < now"
    "op = Set \<or> op = Del" "edge_uid t \<noteq> 0"
  obtains ch w' where "cache_AddMutation now a t op w = Inr (Inr ch, w')" "inv_state fp64 K (w', H)"
    "\<forall>k \<in> K. key_view fp64 w' k = mutate_view (key (lheap w a)) t op (key_view fp64 w) k"
    "ch = fst (mutate_spec op (edge_uid t) (ValueType t, edge_bytes t, ELabel t) (key_view fp64 w (key (lheap w a))))"
    "key (lheap w' a) = key (lheap w a)" "\<not> deleteMe (lheap w' a)"
proof -
  have i: "cache_ok fp64 K (lm_lookup (lhmap w)) w H" "lm_invar (lhmap w)"
    using assms(1) by (simp_all add: inv_state_def)
  note h = held_ok [OF assms(1-3)]
  obtain ch l' where s: "AddMutation (pstore w) now (lheap w a) t op
      = Inr (ch, l', if mlayer l' = [] then [] else [ghash (lheap w a)])"
    "(ch, list_view (pstore w) l') = mutate_spec op (edge_uid t) (ValueType t, edge_bytes t, ELabel t)
       (list_view (pstore w) (lheap w a))" "key l' = key (lheap w a)" "\<not> deleteMe l'"
    by (rule AddMutation_spec [OF h(2) assms(3,6,7), where now = now])
  let ?w = "w\<lparr>lheap := (lheap w)(a := l'),
    dirtyChan := dirtyChan w @ (if mlayer l' = [] then [] else [ghash (lheap w a)])\<rparr>"
  have run: "cache_AddMutation now a t op w = Inr (Inr ch, ?w)" by (simp add: cache_AddMutation_def s(1))
  note c = cache_mutate_ok [OF i(1) assms(2,4,5) s(1), where w' = ?w]
  show thesis
  proof (rule that [OF run])
    show "inv_state fp64 K (?w, H)" using c(1) i(2) by (simp add: inv_state_def)
    show "\<forall>k \<in> K. key_view fp64 ?w k = mutate_view (key (lheap w a)) t op (key_view fp64 w) k"
      using c(3) by (simp add: key_view_def)
    show "ch = fst (mutate_spec op (edge_uid t) (ValueType t, edge_bytes t, ELabel t)
        (key_view fp64 w (key (lheap w a))))"
      unfolding h(5) s(2) [symmetric] by simp
  qed (use s in simp_all)
qed

text \<open>Reading through a held list loads its immutable layer and changes no view.\<close>

lemma load_ok:
  assumes "inv_state fp64 K (w, H)" "a \<in># H" "\<not> deleteMe (lheap w a)"
    and "getPostingList (pstore w) (lheap w a) = Inr (pl, l')"
  shows "inv_state fp64 K (w\<lparr>lheap := (lheap w)(a := l')\<rparr>, H)"
    "key_view fp64 (w\<lparr>lheap := (lheap w)(a := l')\<rparr>) = key_view fp64 w"
    "key l' = key (lheap w a)" "\<not> deleteMe l'"
proof -
  let ?l = "lheap w a" and ?w = "w\<lparr>lheap := (lheap w)(a := l')\<rparr>"
  have l': "l' = ?l\<lparr>pbuffer := Some pl\<rparr>" by (rule getPostingList_pbuffer [OF assms(4)])
  have g: "getPostingList (pstore w) l' = Inr (pl, l')" unfolding l' by (simp add: getPostingList_def)
  have ok: "list_ok (pstore w) l' = list_ok (pstore w) ?l" "list_view (pstore w) l' = list_view (pstore w) ?l"
    unfolding list_ok_def list_view_def fun_eq_iff g assms(4) by (simp_all add: l')
  have sy: "synced (pstore w) l' = synced (pstore w) ?l"
    using base_view_load(2) [OF assms(4)] by (simp add: synced_def l')
  have i: "cache_ok fp64 K (lm_lookup (lhmap w)) w H" "lm_invar (lhmap w)"
    using assms(1) by (simp_all add: inv_state_def)
  have m: "mapped_ok fp64 K (pstore w) fp (lheap ?w b) = mapped_ok fp64 K (pstore w) fp (lheap w b)" for fp b
    using ok(1) sy by (simp add: mapped_ok_def l')
  have r: "refcount (lheap ?w b) = refcount (lheap w b)" "deleteMe (lheap ?w b) = deleteMe (lheap w b)" for b
    by (simp_all add: l')
  have "cache_ok fp64 K (lm_lookup (lhmap w)) ?w H"
    using i(1) unfolding cache_ok_def m r by (simp add: r m [simplified] r [simplified])
  then show "inv_state fp64 K (?w, H)" using i(2) by (simp add: inv_state_def)
  show "key_view fp64 ?w = key_view fp64 w"
    using ok(2) by (auto simp: key_view_def cache_view_def fun_eq_iff split: option.splits)
  show "key l' = key ?l" "\<not> deleteMe l'" using assms(3) by (simp_all add: l')
qed

section \<open>Index and values\<close>

text \<open>The mutations of an index, on the views.\<close>

definition index_view ::
  "bytes \<Rightarrow> u64 \<Rightarrow> u32 \<Rightarrow> bytes list \<Rightarrow> (bytes \<Rightarrow> u64 \<Rightarrow> content option) \<Rightarrow> bytes \<Rightarrow> u64 \<Rightarrow> content option"
where
  "index_view attr uid op tokens v =
     fold (\<lambda>token. mutate_view (IndexKey attr token) (index_edge attr uid) op) tokens v"

definition idx_content :: content where
  "idx_content = (0, [], ''idx'')"

lemma index_edge_simps [simp]:
  "edge_uid (index_edge attr uid) = uid" "edge_bytes (index_edge attr uid) = []"
  "ValueType (index_edge attr uid) = 0" "ELabel (index_edge attr uid) = ''idx''"
  by (simp_all add: index_edge_def edge_uid_def edge_bytes_def)

lemma mutate_view_agree:
  "\<forall>k \<in> K. v k = v' k \<Longrightarrow> k \<in> K \<Longrightarrow> \<forall>k' \<in> K. mutate_view k t op v k' = mutate_view k t op v' k'"
  by (simp add: mutate_view_def)

lemma index_view_agree:
  "\<forall>k \<in> K. v k = v' k \<Longrightarrow> \<forall>token \<in> set tokens. IndexKey attr token \<in> K \<Longrightarrow>
     \<forall>k \<in> K. index_view attr uid op tokens v k = index_view attr uid op tokens v' k"
  unfolding index_view_def
proof (induction tokens arbitrary: v v')
  case (Cons token tokens)
  from mutate_view_agree [OF Cons.prems(1), of "IndexKey attr token" "index_edge attr uid" op] Cons.prems(2)
  show ?case using Cons.IH by simp
qed simp

lemma addIndexMutation_ok:
  assumes "inv_state fp64 K (w, H)" "inj_on fp64 K" "0 < now" "uid \<noteq> 0" "IndexKey attr token \<in> K"
  obtains w' table' where
    "addIndexMutation fp32 fp64 now attr (index_edge attr uid) del token (w, table) = Inr (w', table')"
    "inv_state fp64 K (w', H)"
    "\<forall>k \<in> K. key_view fp64 w' k =
       index_view attr uid (if del then Del else Set) [token] (key_view fp64 w) k"
proof -
  let ?op = "if del then Del else Set" and ?k = "IndexKey attr token"
  obtain a w1 where w1: "GetOrCreate fp32 fp64 ?k w = Inr (a, w1)" "key (lheap w1 a) = ?k"
    "inv_state fp64 K (w1, add_mset a H)" "\<forall>k' \<in> K. key_view fp64 w1 k' = key_view fp64 w k'"
    "\<not> deleteMe (lheap w1 a)"
    by (rule acquire_ok [OF assms(1,5,2), where ?fp32.0 = fp32]) blast
  have a: "a \<in># add_mset a H" by simp
  have op: "?op = Set \<or> ?op = Del" by simp
  have uid: "edge_uid (index_edge attr uid) \<noteq> 0" using assms(4) by simp
  obtain ch w2 where w2: "cache_AddMutation now a (index_edge attr uid) ?op w1 = Inr (Inr ch, w2)"
    "inv_state fp64 K (w2, add_mset a H)"
    "\<forall>k \<in> K. key_view fp64 w2 k = mutate_view ?k (index_edge attr uid) ?op (key_view fp64 w1) k"
    using list_mutate_ok [OF w1(3) a w1(5) assms(2,3) op uid] unfolding w1(2) by blast
  obtain w3 where w3: "cache_decr a w2 = Inr w3" "inv_state fp64 K (w3, H)"
    "key_view fp64 w3 = key_view fp64 w2"
    using release_ok [OF w2(2) a] by auto
  have "addIndexMutation fp32 fp64 now attr (index_edge attr uid) del token (w, table) =
      Inr (w3, if del then table else TokensTable_Add table token)"
    by (simp add: addIndexMutation_def w1(1) w2(1) w3(1))
  moreover have "\<forall>k \<in> K. key_view fp64 w3 k = index_view attr uid ?op [token] (key_view fp64 w) k"
    using w2(3) mutate_view_agree [OF w1(4) assms(5)] by (simp add: w3(3) index_view_def)
  ultimately show thesis using w3(2) that by blast
qed

lemma index_loop_ok:
  assumes "inv_state fp64 K (w, H)" "inj_on fp64 K" "0 < now" "uid \<noteq> 0"
    "\<forall>token \<in> set tokens. IndexKey attr token \<in> K"
  shows "\<exists>w' table'.
    index_loop fp32 fp64 now attr (index_edge attr uid) del tokens (w, table) = Inr (w', table') \<and>
    inv_state fp64 K (w', H) \<and>
    (\<forall>k \<in> K. key_view fp64 w' k = index_view attr uid (if del then Del else Set) tokens (key_view fp64 w) k)"
  using assms(1,5)
proof (induction tokens arbitrary: w table)
  case Nil
  then show ?case by (simp add: index_view_def)
next
  case (Cons token tokens)
  let ?op = "if del then Del else Set"
  have k: "IndexKey attr token \<in> K" using Cons.prems(2) by simp
  obtain w1 table1 where w1:
    "addIndexMutation fp32 fp64 now attr (index_edge attr uid) del token (w, table) = Inr (w1, table1)"
    "inv_state fp64 K (w1, H)"
    "\<forall>k \<in> K. key_view fp64 w1 k = index_view attr uid ?op [token] (key_view fp64 w) k"
    by (rule addIndexMutation_ok [OF Cons.prems(1) assms(2-4) k])
  obtain w2 table2 where w2:
    "index_loop fp32 fp64 now attr (index_edge attr uid) del tokens (w1, table1) = Inr (w2, table2)"
    "inv_state fp64 K (w2, H)"
    "\<forall>k \<in> K. key_view fp64 w2 k = index_view attr uid ?op tokens (key_view fp64 w1) k"
    using Cons.IH [OF w1(2), of table1] Cons.prems(2) by auto
  have "index_view attr uid ?op tokens (index_view attr uid ?op [token] v) =
      index_view attr uid ?op (token # tokens) v" for v
    by (simp add: index_view_def)
  then show ?case
    using w1(1) w2 index_view_agree [OF w1(3), of tokens attr uid ?op] Cons.prems(2) by simp
qed

text \<open>The tokens of a stored value; a value that cannot be decoded or indexed has none.\<close>

definition value_tokens :: "'g index_env \<Rightarrow> bytes \<Rightarrow> u8 \<Rightarrow> bytes \<Rightarrow> bytes list" where
  "value_tokens env attr ty v =
     (case UnmarshalBinary (fmts env) ty v of
        Inl e \<Rightarrow> []
      | Inr p \<Rightarrow> (case indexTokens env attr p of Inl e \<Rightarrow> [] | Inr tokens \<Rightarrow> tokens))"

definition content_tokens :: "'g index_env \<Rightarrow> bytes \<Rightarrow> content option \<Rightarrow> bytes set" where
  "content_tokens env attr c =
     (case c of None \<Rightarrow> {} | Some (ty, v, lab) \<Rightarrow> if v = [] then {} else set (value_tokens env attr (ucast ty) v))"

text \<open>Decoding succeeds and indexing does not end the process.\<close>

definition indexable :: "'g index_env \<Rightarrow> bytes \<Rightarrow> u8 \<Rightarrow> bytes \<Rightarrow> bool" where
  "indexable env attr ty v \<longleftrightarrow>
     (\<exists>p. UnmarshalBinary (fmts env) ty v = Inr p \<and>
        (case indexTokens env attr p of Inl (Err e) \<Rightarrow> True | Inl _ \<Rightarrow> False | Inr _ \<Rightarrow> True))"

lemma GetTokensTable_set:
  "GetTokensTable (set_table attr t ts) a =
     (if a = attr then map_option (\<lambda>_. t) (GetTokensTable ts a) else GetTokensTable ts a)"
  unfolding GetTokensTable_def set_table_def by (induction ts) auto

lemma addIndexMutations_ok:
  assumes "inv_state fp64 K (w, H)" "inj_on fp64 K" "0 < now" "uid \<noteq> 0"
    and dec: "UnmarshalBinary (fmts env) ty v = Inr p" "indexable env attr ty v"
    and table: "GetTokensTable ts attr \<noteq> None"
    and keys: "\<forall>token \<in> set (value_tokens env attr ty v). IndexKey attr token \<in> K"
  shows "\<exists>w' ts'. addIndexMutations env fp32 fp64 now attr uid p del (w, ts) = Inr (w', ts') \<and>
    inv_state fp64 K (w', H) \<and> GetTokensTable ts' attr \<noteq> None \<and>
    (\<forall>k \<in> K. key_view fp64 w' k =
       index_view attr uid (if del then Del else Set) (value_tokens env attr ty v) (key_view fp64 w) k)"
proof (cases "indexTokens env attr p")
  case (Inl e)
  with dec obtain s where "indexTokens env attr p = Inl (Err s)"
    by (auto simp: indexable_def split: go_err.splits)
  then show ?thesis using assms(1,4) table
    by (simp add: addIndexMutations_def value_tokens_def dec(1) index_view_def)
next
  case (Inr tokens)
  have tk: "value_tokens env attr ty v = tokens" by (simp add: value_tokens_def dec(1) Inr)
  obtain t where t: "GetTokensTable ts attr = Some t" using table by blast
  obtain w' t' where
    "index_loop fp32 fp64 now attr (index_edge attr uid) del tokens (w, t) = Inr (w', t')"
    "inv_state fp64 K (w', H)"
    "\<forall>k \<in> K. key_view fp64 w' k = index_view attr uid (if del then Del else Set) tokens (key_view fp64 w) k"
    using index_loop_ok [OF assms(1-4), of tokens attr fp32 del t] keys tk by blast
  moreover have "GetTokensTable (set_table attr t' ts) attr \<noteq> None"
    using t by (simp add: GetTokensTable_set)
  ultimately show ?thesis using assms(4) t Inr by (simp add: addIndexMutations_def tk)
qed


text \<open>A mutation with its index, on the views.\<close>

definition remove_view ::
  "'g index_env \<Rightarrow> edge \<Rightarrow> content option \<Rightarrow> (bytes \<Rightarrow> u64 \<Rightarrow> content option) \<Rightarrow> bytes \<Rightarrow> u64 \<Rightarrow> content option"
where
  "remove_view env t old v =
     (case old of
        None \<Rightarrow> v
      | Some (ty, ov, lab) \<Rightarrow>
          if ov = [] then v else index_view (Attr t) (Entity t) Del (value_tokens env (Attr t) (ucast ty) ov) v)"

definition indexed_view ::
  "'g index_env \<Rightarrow> edge \<Rightarrow> u32 \<Rightarrow> (bytes \<Rightarrow> u64 \<Rightarrow> content option) \<Rightarrow> bytes \<Rightarrow> u64 \<Rightarrow> content option" where
  "indexed_view env t op v =
     (let k = Key (Entity t) (Attr t); v1 = mutate_view k t op v;
          changed = fst (mutate_spec op (edge_uid t) (ValueType t, edge_bytes t, ELabel t) (v k)) in
      if \<not> changed then v1
      else
        let v2 = remove_view env t (v k maxUint64) v1 in
        if op = Set
        then index_view (Attr t) (Entity t) Set (value_tokens env (Attr t) (ucast (ValueType t)) (edge_bytes t)) v2
        else v2)"

definition index_consistent :: "'g index_env \<Rightarrow> bytes \<Rightarrow> bytes set \<Rightarrow> (bytes \<Rightarrow> u64 \<Rightarrow> content option) \<Rightarrow> bool"
where
  "index_consistent env attr K v \<longleftrightarrow>
     (\<forall>e token. Key e attr \<in> K \<longrightarrow> IndexKey attr token \<in> K \<longrightarrow>
        v (IndexKey attr token) e =
          (if token \<in> content_tokens env attr (v (Key e attr) maxUint64) then Some idx_content else None))"

lemma mutate_view_at:
  "mutate_view k t op v k' u =
     (if k' = k \<and> u = edge_uid t then
        if op = Set then Some (ValueType t, edge_bytes t, ELabel t)
        else if v k u = Some (ValueType t, edge_bytes t, ELabel t) then None else v k u
      else v k' u)"
  by (simp add: mutate_view_def mutate_spec_def)

lemma index_view_at:
  "index_view attr e op tokens v k u =
     (if u = e \<and> k \<in> IndexKey attr ` set tokens then
        if op = Set then Some idx_content
        else if v k u = Some idx_content then None else v k u
      else v k u)"
proof (induction tokens arbitrary: v)
  case (Cons token tokens)
  have "index_view attr e op (token # tokens) v =
      index_view attr e op tokens (mutate_view (IndexKey attr token) (index_edge attr e) op v)"
    by (simp add: index_view_def)
  then show ?case unfolding Cons by (auto simp: Cons mutate_view_at idx_content_def [symmetric])
qed (simp add: index_view_def)

lemma IndexKey_inj [simp]: "IndexKey attr a = IndexKey attr b \<longleftrightarrow> a = b"
  by (simp add: IndexKey_def)

lemma Key_not_IndexKey: "ascii attr \<Longrightarrow> Key e attr \<noteq> IndexKey attr token"
  by (simp add: Key_ascii IndexKey_def indexRune_def)

lemma remove_view_at:
  "remove_view env t old v k u =
     (if u = Entity t \<and> k \<in> IndexKey (Attr t) ` content_tokens env (Attr t) old then
        if v k u = Some idx_content then None else v k u
      else v k u)"
proof (cases old)
  case (Some c)
  obtain ty ov lab where "c = (ty, ov, lab)" by (rule prod_cases3)
  with Some show ?thesis by (simp add: remove_view_def content_tokens_def index_view_at)
qed (simp add: remove_view_def content_tokens_def)

lemma indexed_view_unchanged:
  assumes "edge_uid t = u" "op = Set \<or> op = Del"
    "\<not> fst (mutate_spec op u (ValueType t, edge_bytes t, ELabel t) (v (Key (Entity t) (Attr t))))"
  shows "indexed_view env t op v = v"
  using assms by (auto simp: indexed_view_def Let_def mutate_view_def mutate_spec_def fun_eq_iff)

lemma index_consistent_mutation:
  assumes cons: "index_consistent env (Attr t) K v" and attr: "ascii (Attr t)"
    and t: "edge_bytes t \<noteq> []" "op = Set \<or> op = Del" and k: "Key (Entity t) (Attr t) \<in> K"
  shows "index_consistent env (Attr t) K (indexed_view env t op v)"
proof -
  let ?attr = "Attr t" and ?k = "Key (Entity t) (Attr t)"
  let ?c = "(ValueType t, edge_bytes t, ELabel t)" and ?old = "v (Key (Entity t) (Attr t)) maxUint64"
  let ?new = "set (value_tokens env ?attr (ucast (ValueType t)) (edge_bytes t))"
  let ?v1 = "mutate_view ?k t op v" and ?v = "indexed_view env t op v"
  have uid: "edge_uid t = maxUint64" using t(1) by (simp add: edge_uid_def)
  show ?thesis
  proof (cases "fst (mutate_spec op maxUint64 ?c (v ?k))")
    case False
    from indexed_view_unchanged [OF uid t(2), of v env] False cons show ?thesis by simp
  next
    case True
    define v2 where "v2 = remove_view env t ?old ?v1"
    have v: "?v = (if op = Set
        then index_view ?attr (Entity t) Set (value_tokens env ?attr (ucast (ValueType t)) (edge_bytes t)) v2
        else v2)"
      using True by (simp add: indexed_view_def Let_def uid v2_def)
    have old: "op = Del \<Longrightarrow> ?old = Some ?c" using True by (simp add: mutate_spec_def)
    have nik: "Key e ?attr \<notin> IndexKey ?attr ` S" for e S using Key_not_IndexKey [OF attr] by blast
    have data: "?v (Key e ?attr) maxUint64 =
        (if e = Entity t then if op = Set then Some ?c else None else v (Key e ?attr) maxUint64)" for e
    proof -
      have "?v (Key e ?attr) maxUint64 = ?v1 (Key e ?attr) maxUint64"
        unfolding v v2_def using nik by (simp add: index_view_at remove_view_at)
      then show ?thesis using t(2) old Key_inj [OF attr attr] by (auto simp: mutate_view_at uid)
    qed
    have v1: "?v1 (IndexKey ?attr token) = v (IndexKey ?attr token)" for token
      using Key_not_IndexKey [OF attr, of "Entity t" token] by (simp add: mutate_view_def)
    have new: "content_tokens env ?attr (Some ?c) = ?new" using t(1) by (simp add: content_tokens_def)
    show ?thesis unfolding index_consistent_def
    proof (intro allI impI)
      fix e token assume e: "Key e ?attr \<in> K" "IndexKey ?attr token \<in> K"
      let ?ik = "IndexKey ?attr token"
      have ix: "v ?ik e = (if token \<in> content_tokens env ?attr (v (Key e ?attr) maxUint64) then Some idx_content else None)"
        using cons e by (simp add: index_consistent_def)
      have rem: "v2 ?ik e = (if e = Entity t then None else v ?ik e)"
        using ix by (auto simp: v2_def remove_view_at v1 image_iff)
      have "?v ?ik e = (if op = Set \<and> e = Entity t \<and> token \<in> ?new then Some idx_content
          else if e = Entity t then None else v ?ik e)"
        unfolding v using rem by (auto simp: index_view_at image_iff)
      then show "?v ?ik e = (if token \<in> content_tokens env ?attr (?v (Key e ?attr) maxUint64) then Some idx_content else None)"
        unfolding data using ix new t(2) by (cases "e = Entity t"; cases "op = Set") (simp_all add: content_tokens_def)
    qed
  qed
qed

lemma read_old_ok:
  assumes "inv_state fp64 K (w, H)" "a \<in># H" "\<not> deleteMe (lheap w a)"
  obtains w' where "read_old a w = Inr (map_option (\<lambda>(ty, v, lab). (v, ucast ty))
      (key_view fp64 w (key (lheap w a)) maxUint64), w')" "inv_state fp64 K (w', H)"
    "key_view fp64 w' = key_view fp64 w" "key (lheap w' a) = key (lheap w a)" "\<not> deleteMe (lheap w' a)"
proof -
  note h = held_ok [OF assms]
  obtain pl l' where g: "getPostingList (pstore w) (lheap w a) = Inr (pl, l')"
    "layers_ok (Postings pl) (mlayer (lheap w a))"
    "list_view (pstore w) (lheap w a) = view (Postings pl) (mlayer (lheap w a))"
    by (rule list_ok_getE [OF h(2)])
  note l = load_ok [OF assms g(1)]
  note v = List_Value_spec [OF g(1,2)]
  show thesis
  proof (cases "key_view fp64 w (key (lheap w a)) maxUint64")
    case None
    then have "read_old a w = Inr (None, w)"
      using v g(3) h(5) by (simp add: read_old_def ErrNoValue_def)
    then show thesis using that [of w] assms None by simp
  next
    case (Some c)
    obtain ty x lab where c: "c = (ty, x, lab)" by (rule prod_cases3)
    have "read_old a w = Inr (Some (x, ucast ty), w\<lparr>lheap := (lheap w)(a := l')\<rparr>)"
      using v g(3) h(5) Some c by (simp add: read_old_def)
    then show thesis using that [of "w\<lparr>lheap := (lheap w)(a := l')\<rparr>"] l Some c by simp
  qed
qed

text \<open>What the index needs of the value written and of the value replaced.\<close>

definition mutation_indexable ::
  "'g index_env \<Rightarrow> bytes set \<Rightarrow> edge \<Rightarrow> u32 \<Rightarrow> content option \<Rightarrow> bool" where
  "mutation_indexable env K t op old \<longleftrightarrow>
     (op = Set \<longrightarrow> indexable env (Attr t) (ucast (ValueType t)) (edge_bytes t) \<and>
        (\<forall>token \<in> set (value_tokens env (Attr t) (ucast (ValueType t)) (edge_bytes t)). IndexKey (Attr t) token \<in> K)) \<and>
     (case old of None \<Rightarrow> True | Some (ty, v, lab) \<Rightarrow> v \<noteq> [] \<longrightarrow>
        indexable env (Attr t) (ucast ty) v \<and>
        (\<forall>token \<in> set (value_tokens env (Attr t) (ucast ty) v). IndexKey (Attr t) token \<in> K))"

lemma remove_old_ok:
  assumes "inv_state fp64 K (w, H)" "inj_on fp64 K" "0 < now" "Entity t \<noteq> 0"
    and "mutation_indexable env K t op old" "GetTokensTable ts (Attr t) \<noteq> None"
  shows "\<exists>w' ts'. remove_old env fp32 fp64 now t (map_option (\<lambda>(ty, v, lab). (v, ucast ty)) old) (w, ts) =
      Inr (None, w', ts') \<and> inv_state fp64 K (w', H) \<and> GetTokensTable ts' (Attr t) \<noteq> None \<and>
    (\<forall>k \<in> K. key_view fp64 w' k = remove_view env t old (key_view fp64 w) k)"
proof (cases old)
  case (Some c)
  obtain ty v lab where c: "c = (ty, v, lab)" by (rule prod_cases3)
  show ?thesis
  proof (cases "v = []")
    case False
    then have ix: "indexable env (Attr t) (ucast ty) v"
      "\<forall>token \<in> set (value_tokens env (Attr t) (ucast ty) v). IndexKey (Attr t) token \<in> K"
      using assms(5) Some c by (simp_all add: mutation_indexable_def)
    then obtain p where p: "UnmarshalBinary (fmts env) (ucast ty) v = Inr p" by (auto simp: indexable_def)
    from addIndexMutations_ok [OF assms(1-4) p ix(1) assms(6) ix(2), of fp32 True]
    show ?thesis using Some c False p by (auto simp: remove_old_def remove_view_def)
  qed (use Some c assms in \<open>simp add: remove_old_def remove_view_def\<close>)
qed (use assms in \<open>simp add: remove_old_def remove_view_def\<close>)

lemma add_new_ok:
  assumes "inv_state fp64 K (w, H)" "inj_on fp64 K" "0 < now" "Entity t \<noteq> 0"
    and "mutation_indexable env K t op old" "GetTokensTable ts (Attr t) \<noteq> None"
  shows "\<exists>w' ts'. add_new env fp32 fp64 now t op (w, ts) = Inr (None, w', ts') \<and> inv_state fp64 K (w', H) \<and>
    GetTokensTable ts' (Attr t) \<noteq> None \<and>
    (\<forall>k \<in> K. key_view fp64 w' k =
       (if op = Set then index_view (Attr t) (Entity t) Set
          (value_tokens env (Attr t) (ucast (ValueType t)) (edge_bytes t)) (key_view fp64 w)
        else key_view fp64 w) k)"
proof (cases "op = Set")
  case True
  then have ix: "indexable env (Attr t) (ucast (ValueType t)) (edge_bytes t)"
    "\<forall>token \<in> set (value_tokens env (Attr t) (ucast (ValueType t)) (edge_bytes t)). IndexKey (Attr t) token \<in> K"
    using assms(5) by (simp_all add: mutation_indexable_def)
  then obtain p where p: "UnmarshalBinary (fmts env) (ucast (ValueType t)) (edge_bytes t) = Inr p"
    by (auto simp: indexable_def)
  from addIndexMutations_ok [OF assms(1-4) p ix(1) assms(6) ix(2), of fp32 False]
  show ?thesis using True p by (auto simp: add_new_def)
qed (use assms in \<open>simp add: add_new_def\<close>)

lemma remove_view_agree:
  assumes "\<forall>k \<in> K. v k = v' k" "mutation_indexable env K t op old"
  shows "\<forall>k \<in> K. remove_view env t old v k = remove_view env t old v' k"
  using assms index_view_agree [OF assms(1), where attr = "Attr t" and uid = "Entity t" and op = Del]
  by (auto simp: remove_view_def mutation_indexable_def split: option.splits)

text \<open>A mutation with its index never fails on a list in use, and refines the mutation of the views.\<close>

lemma AddMutationWithIndex_ok:
  assumes inv: "inv_state fp64 K (w, H)" "a \<in># H" "\<not> deleteMe (lheap w a)" "inj_on fp64 K" "0 < now"
    and t: "key (lheap w a) = Key (Entity t) (Attr t)" "Attr t \<noteq> []" "hd (Attr t) \<noteq> indexRune" "Entity t \<noteq> 0"
      "EValue t \<noteq> None" "edge_uid t \<noteq> 0" "op = Set \<or> op = Del" "IsIndexed (schema_of env) (Attr t)"
    and ix: "mutation_indexable env K t op (key_view fp64 w (Key (Entity t) (Attr t)) maxUint64)"
      "GetTokensTable ts (Attr t) \<noteq> None"
  shows "\<exists>w' ts'. AddMutationWithIndex env fp32 fp64 now a t op (w, ts) = Inr (None, w', ts') \<and>
    inv_state fp64 K (w', H) \<and> GetTokensTable ts' (Attr t) \<noteq> None \<and>
    (\<forall>k \<in> K. key_view fp64 w' k = indexed_view env t op (key_view fp64 w) k)"
proof -
  let ?k = "Key (Entity t) (Attr t)" and ?v = "key_view fp64 w"
  let ?c = "(ValueType t, edge_bytes t, ELabel t)" and ?old = "key_view fp64 w (Key (Entity t) (Attr t)) maxUint64"
  obtain w1 where w1: "read_old a w = Inr (map_option (\<lambda>(ty, v, lab). (v, ucast ty)) ?old, w1)"
    "inv_state fp64 K (w1, H)" "key_view fp64 w1 = ?v" "key (lheap w1 a) = ?k" "\<not> deleteMe (lheap w1 a)"
    using read_old_ok [OF inv(1-3)] unfolding t(1) by metis
  obtain ch w2 where w2: "cache_AddMutation now a t op w1 = Inr (Inr ch, w2)" "inv_state fp64 K (w2, H)"
    "\<forall>k \<in> K. key_view fp64 w2 k = mutate_view ?k t op ?v k" "ch = fst (mutate_spec op (edge_uid t) ?c (?v ?k))"
    using list_mutate_ok [OF w1(2) inv(2) w1(5) inv(4,5) t(7,6)] unfolding w1(3,4) by metis
  have run: "AddMutationWithIndex env fp32 fp64 now a t op (w, ts) =
      (if \<not> ch then Inr (None, w2, ts)
       else go_bind (remove_old env fp32 fp64 now t (map_option (\<lambda>(ty, v, lab). (v, ucast ty)) ?old) (w2, ts))
         (\<lambda>(err, s3). case err of Some e \<Rightarrow> Inr (Some e, s3) | None \<Rightarrow> add_new env fp32 fp64 now t op s3))"
    using t(2,3,5,8) by (simp add: AddMutationWithIndex_def Let_def w1(1) w2(1))
  show ?thesis
  proof (cases ch)
    case False
    then show ?thesis using run w2 ix(2) by (simp add: indexed_view_def Let_def)
  next
    case True
    obtain w3 ts3 where w3: "remove_old env fp32 fp64 now t (map_option (\<lambda>(ty, v, lab). (v, ucast ty)) ?old) (w2, ts) =
        Inr (None, w3, ts3)" "inv_state fp64 K (w3, H)" "GetTokensTable ts3 (Attr t) \<noteq> None"
      "\<forall>k \<in> K. key_view fp64 w3 k = remove_view env t ?old (key_view fp64 w2) k"
      using remove_old_ok [OF w2(2) inv(4,5) t(4) ix] by blast
    obtain w4 ts4 where w4: "add_new env fp32 fp64 now t op (w3, ts3) = Inr (None, w4, ts4)"
      "inv_state fp64 K (w4, H)" "GetTokensTable ts4 (Attr t) \<noteq> None"
      "\<forall>k \<in> K. key_view fp64 w4 k = (if op = Set then index_view (Attr t) (Entity t) Set
          (value_tokens env (Attr t) (ucast (ValueType t)) (edge_bytes t)) (key_view fp64 w3)
        else key_view fp64 w3) k"
      using add_new_ok [OF w3(2) inv(4,5) t(4) ix(1) w3(3)] by blast
    have v3: "\<forall>k \<in> K. key_view fp64 w3 k = remove_view env t ?old (mutate_view ?k t op ?v) k"
      using w3(4) remove_view_agree [OF w2(3) ix(1)] by simp
    have "\<forall>k \<in> K. key_view fp64 w4 k = indexed_view env t op ?v k"
    proof (cases "op = Set")
      case set: True
      have "\<forall>token \<in> set (value_tokens env (Attr t) (ucast (ValueType t)) (edge_bytes t)). IndexKey (Attr t) token \<in> K"
        using ix(1) set by (simp add: mutation_indexable_def)
      from w4(4) index_view_agree [OF v3 this] show ?thesis
        using True w2(4) set by (simp add: indexed_view_def Let_def)
    qed (use w4(4) v3 True w2(4) in \<open>simp add: indexed_view_def Let_def\<close>)
    then show ?thesis using run True w3(1) w4 by simp
  qed
qed

lemma index_consistent_agree:
  "\<forall>k \<in> K. v k = v' k \<Longrightarrow> index_consistent env attr K v = index_consistent env attr K v'"
  unfolding index_consistent_def by (auto split: if_splits)

section \<open>Properties\<close>

text \<open>
  C18: on a list in use, a mutation that writes or deletes a value of an indexed predicate returns without
  error and keeps the index exact: the uid of an entity is in the posting list of a token if and only
  if the token is one of its current value. The value written and the one replaced must decode, the
  predicate be ASCII with a table of tokens, and the keys involved have distinct fingerprints.
\<close>

theorem index_stays_exact:
  assumes inv: "inv_state fp64 K (w, H)" "a \<in># H" "\<not> deleteMe (lheap w a)" "inj_on fp64 K" "0 < now"
    and t: "key (lheap w a) = Key (Entity t) (Attr t)" "Attr t \<noteq> []" "hd (Attr t) \<noteq> indexRune"
      "ascii (Attr t)" "Entity t \<noteq> 0" "EValue t = Some v" "v \<noteq> []" "op = Set \<or> op = Del"
      "IsIndexed (schema_of env) (Attr t)"
    and ix: "mutation_indexable env K t op (key_view fp64 w (Key (Entity t) (Attr t)) maxUint64)"
      "GetTokensTable ts (Attr t) \<noteq> None" "index_consistent env (Attr t) K (key_view fp64 w)"
  shows "\<exists>w' ts'. AddMutationWithIndex env fp32 fp64 now a t op (w, ts) = Inr (None, w', ts') \<and>
    inv_state fp64 K (w', H) \<and> index_consistent env (Attr t) K (key_view fp64 w') \<and>
    (op = Set \<longrightarrow> key_view fp64 w' (Key (Entity t) (Attr t)) maxUint64 = Some (ValueType t, v, ELabel t))"
proof -
  have e: "edge_bytes t = v" "edge_uid t = maxUint64" using t(6,7) by (simp_all add: edge_bytes_def edge_uid_def)
  then have nz: "edge_uid t \<noteq> 0" by (simp add: maxUint64_def)
  have val: "EValue t \<noteq> None" using t(6) by simp
  have k: "Key (Entity t) (Attr t) \<in> K" using held_ok(1) [OF inv(1-3)] t(1) by simp
  obtain w' ts' where w': "AddMutationWithIndex env fp32 fp64 now a t op (w, ts) = Inr (None, w', ts')"
    "inv_state fp64 K (w', H)" "\<forall>k \<in> K. key_view fp64 w' k = indexed_view env t op (key_view fp64 w) k"
    using AddMutationWithIndex_ok [OF inv t(1-3,5) val nz t(8,9) ix(1,2)] by blast
  have "edge_bytes t \<noteq> []" using e t(7) by simp
  from index_consistent_mutation [OF ix(3) t(4) this t(8) k]
  have "index_consistent env (Attr t) K (key_view fp64 w')"
    unfolding index_consistent_agree [OF w'(3)] .
  moreover have "key_view fp64 w' (Key (Entity t) (Attr t)) maxUint64 = Some (ValueType t, v, ELabel t)"
    if "op = Set"
  proof -
    have nik: "Key (Entity t) (Attr t) \<notin> IndexKey (Attr t) ` S" for S using Key_not_IndexKey [OF t(4)] by blast
    show ?thesis using w'(3) k that e nik
      by (simp add: indexed_view_def Let_def index_view_at remove_view_at mutate_view_at)
  qed
  ultimately show ?thesis using w'(1,2) by blast
qed

definition sample_env :: "unit index_env" where
  "sample_env = \<lparr>schema_of = \<lparr>str = [(''n'', Scalar stringType)], indexedFields = [''n'']\<rparr>,
     tokenize = (\<lambda>s. Some [s]), geoTokens = (\<lambda>_. Inr []), fmts = utc_formats\<rparr>"

definition name_edge :: edge where
  "name_edge = \<lparr>Entity = 1, Attr = ''n'', EValue = Some ''x'', ValueType = 5, ValueId = 0, ELabel = []\<rparr>"

definition sample_keys :: "bytes set" where
  "sample_keys = {Key 1 ''n'', IndexKey ''n'' ''x''}"

definition length_fp :: "bytes \<Rightarrow> u64" where
  "length_fp k = word_of_nat (length k)"

lemma sample_key_length: "length (Key 1 ''n'') = 10" "length (IndexKey ''n'' ''x'') = 3"
  by code_simp+

lemma sample_keys_inj: "inj_on length_fp sample_keys"
  using sample_key_length by (auto simp: inj_on_def sample_keys_def length_fp_def)

lemma sample_indexable:
  "UnmarshalBinary (fmts sample_env) 5 ''x'' = Inr (VString ''x'')"
  "indexTokens sample_env ''n'' (VString ''x'') = Inr [''x'']"
  by (simp_all add: UnmarshalBinary_def ValueForType_def type_ids String_UnmarshalBinary_def indexTokens_def
      sample_env_def TypeOf_def Convert_def stringType_def value_Type_def DefaultIndexKeys_def)


theorem index_stays_exact_witness:
  "\<exists>a w w' ts'. GetOrCreate (\<lambda>_. 0) length_fp (Key 1 ''n'') (cache_Init 32 empty_store) = Inr (a, w) \<and>
     AddMutationWithIndex sample_env (\<lambda>_. 0) length_fp 5 a name_edge Set (w, [(''n'', NewTokensTable)]) =
       Inr (None, w', ts') \<and>
     index_consistent sample_env ''n'' sample_keys (key_view length_fp w') \<and>
     key_view length_fp w' (Key 1 ''n'') maxUint64 = Some (5, ''x'', [])"
proof -
  let ?w0 = "cache_Init 32 empty_store" and ?K = sample_keys and ?ts = "[(''n'', NewTokensTable)]"
  have init: "inv_state length_fp ?K (?w0, {#})"
    by (rule init_state) (simp_all add: store_ok_def empty_store_def list_ok_empty_store [unfolded empty_store_def])
  have v0: "key_view length_fp ?w0 k u = None" for k u
    using init_state(2) [of 32 empty_store "{}" length_fp k]
    by (simp add: store_ok_def empty_store_def list_view_def getPostingList_def fresh_def getNew_def
        store_Get_def empty_posting_list_def view_def)
  have k: "Key 1 ''n'' \<in> ?K" by (simp add: sample_keys_def)
  obtain a w where w: "GetOrCreate (\<lambda>_. 0) length_fp (Key 1 ''n'') ?w0 = Inr (a, w)" "key (lheap w a) = Key 1 ''n''"
    "inv_state length_fp ?K (w, add_mset a {#})" "\<forall>k' \<in> ?K. key_view length_fp w k' = key_view length_fp ?w0 k'"
    "\<not> deleteMe (lheap w a)"
    by (rule acquire_ok [OF init k sample_keys_inj, where ?fp32.0 = "\<lambda>_. 0"]) blast
  have old: "key_view length_fp w (Key 1 ''n'') maxUint64 = None" using bspec [OF w(4) k] v0 by simp
  have "index_consistent sample_env ''n'' ?K (\<lambda>_ _. None)"
    by (simp add: index_consistent_def content_tokens_def)
  moreover have "\<forall>k \<in> ?K. key_view length_fp w k = (\<lambda>_. None)" using w(4) v0 by (simp add: fun_eq_iff)
  ultimately have cons: "index_consistent sample_env ''n'' ?K (key_view length_fp w)"
    using index_consistent_agree [of ?K "key_view length_fp w" "\<lambda>_ _. None" sample_env "''n''"] by simp
  have ix: "mutation_indexable sample_env ?K name_edge Set (key_view length_fp w (Key 1 ''n'') maxUint64)"
    unfolding old by (simp add: mutation_indexable_def name_edge_def edge_bytes_def indexable_def value_tokens_def
        sample_indexable sample_keys_def)
  have "\<exists>w' ts'. AddMutationWithIndex sample_env (\<lambda>_. 0) length_fp 5 a name_edge Set (w, ?ts) = Inr (None, w', ts') \<and>
      inv_state length_fp ?K (w', add_mset a {#}) \<and> index_consistent sample_env (Attr name_edge) ?K (key_view length_fp w') \<and>
      (Set = Set \<longrightarrow> key_view length_fp w' (Key (Entity name_edge) (Attr name_edge)) maxUint64 =
         Some (ValueType name_edge, ''x'', ELabel name_edge))"
    by (rule index_stays_exact [OF w(3) _ w(5) sample_keys_inj])
      (use w(2) ix cons in \<open>simp_all add: name_edge_def indexRune_def sample_env_def IsIndexed_def GetTokensTable_def ascii_def\<close>)
  then show ?thesis using w(1) by (simp add: name_edge_def) blast
qed

end
