(* ===== verification/Conn_Pool.thy ===== *)
theory Conn_Pool
  imports Go_Prelude
begin

text \<open>
  Connections to other workers, \<^verbatim>\<open>worker/conn.go\<close>: a pool of idle connections for every address. A
  connection is opaque; dialling, closing and the echo call are parameters. Results: a pool never holds
  more connections than its capacity, and connecting again to a known address changes nothing.
\<close>

section \<open>Operations\<close>

definition errNoConnection :: go_err where
  "errNoConnection = Err ''No connection exists''"

record 'c pool =
  conns :: "'c list"
  maxCap :: nat
  pool_Addr :: bytes

type_synonym 'c poolsi = "(bytes \<times> 'c pool) list"

text \<open>The capacity is that of the channel; putting into a full channel closes the connection.\<close>

definition newPool :: "(bytes \<Rightarrow> 'c go) \<Rightarrow> bytes \<Rightarrow> nat \<Rightarrow> 'c pool go" where
  "newPool dial addr cap =
     (case dial addr of
        Inl (Err e) \<Rightarrow> Inl (Fatal e)
      | Inl e \<Rightarrow> Inl e
      | Inr conn \<Rightarrow> Inr \<lparr>conns = [conn], maxCap = cap, pool_Addr = addr\<rparr>)"

definition pool_Get :: "(bytes \<Rightarrow> 'c go) \<Rightarrow> 'c pool option \<Rightarrow> ('c \<times> 'c pool) go" where
  "pool_Get dial p =
     (case p of
        None \<Rightarrow> Inl errNoConnection
      | Some p \<Rightarrow>
          (case conns p of
             conn # cs \<Rightarrow> Inr (conn, p\<lparr>conns := cs\<rparr>)
           | [] \<Rightarrow> go_bind (dial (pool_Addr p)) (\<lambda>conn. Inr (conn, p))))"

definition pool_Put :: "('c \<Rightarrow> unit go) \<Rightarrow> 'c \<Rightarrow> 'c pool \<Rightarrow> unit go \<times> 'c pool" where
  "pool_Put close conn p =
     (if length (conns p) < maxCap p then (Inr (), p\<lparr>conns := conns p @ [conn]\<rparr>)
      else (close conn, p))"

definition pools_any :: "'c poolsi \<Rightarrow> 'c pool option" where
  "pools_any ps = (case ps of [] \<Rightarrow> None | (_, p) # _ \<Rightarrow> Some p)"

definition pools_get :: "'c poolsi \<Rightarrow> bytes \<Rightarrow> 'c pool option" where
  "pools_get ps addr = map_of ps addr"

definition x_Fatal :: "'a go \<Rightarrow> 'a go" where
  "x_Fatal m = (case m of Inl (Err e) \<Rightarrow> Inl (Fatal e) | _ \<Rightarrow> m)"

text \<open>The new pool is registered after an echo over its first connection has come back.\<close>

definition pools_connect ::
  "(bytes \<Rightarrow> 'c go) \<Rightarrow> ('c \<Rightarrow> unit go) \<Rightarrow> ('c \<Rightarrow> bool go) \<Rightarrow> bytes \<Rightarrow> bytes \<Rightarrow> 'c poolsi \<Rightarrow> 'c poolsi go"
where
  "pools_connect dial close echo myAddr addr ps =
     (if addr = myAddr \<or> map_of ps addr \<noteq> None then Inr ps
      else
        go_bind (newPool dial addr 5) (\<lambda>pool.
          go_bind (x_Fatal (pool_Get dial (Some pool))) (\<lambda>(conn, pool1).
            go_bind (x_Fatal (echo conn)) (\<lambda>same.
              go_bind (assertTruef same ''Assert failed'') (\<lambda>_.
                case pool_Put close conn pool1 of (r, pool2) \<Rightarrow>
                  go_bind (x_Fatal r) (\<lambda>_. Inr (ps @ [(addr, pool2)])))))))"

section \<open>Lemmas\<close>

definition pool_ok :: "bytes \<Rightarrow> 'c pool \<Rightarrow> bool" where
  "pool_ok addr p \<longleftrightarrow> pool_Addr p = addr \<and> length (conns p) \<le> maxCap p"

definition pools_ok :: "bytes \<Rightarrow> 'c poolsi \<Rightarrow> bool" where
  "pools_ok myAddr ps \<longleftrightarrow>
     distinct (map fst ps) \<and> myAddr \<notin> fst ` set ps \<and> (\<forall>(addr, p) \<in> set ps. pool_ok addr p)"

lemma x_Fatal_Inr [simp]: "x_Fatal m = Inr x \<longleftrightarrow> m = Inr x"
  by (cases m) (auto simp: x_Fatal_def split: go_err.splits)

lemma pool_Get_ok: "pool_Get dial (Some p) = Inr (conn, p') \<Longrightarrow> pool_ok addr p \<Longrightarrow> pool_ok addr p'"
  by (auto simp: pool_Get_def pool_ok_def go_simps split: list.splits)

lemma pool_Put_ok: "pool_Put close conn p = (r, p') \<Longrightarrow> pool_ok addr p \<Longrightarrow> pool_ok addr p'"
  by (auto simp: pool_Put_def pool_ok_def split: if_splits)

lemma newPool_ok: "newPool dial addr cap = Inr p \<Longrightarrow> 0 < cap \<Longrightarrow> pool_ok addr p"
  by (auto simp: newPool_def pool_ok_def split: sum.splits go_err.splits)

lemma pools_connect_ok:
  assumes "pools_connect dial close echo myAddr addr ps = Inr ps'" "pools_ok myAddr ps"
  shows "pools_ok myAddr ps' \<and> (addr = myAddr \<longrightarrow> ps' = ps) \<and>
    (addr \<noteq> myAddr \<longrightarrow> pools_get ps' addr \<noteq> None) \<and>
    (\<forall>a. pools_get ps a \<noteq> None \<longrightarrow> pools_get ps' a = pools_get ps a)"
proof (cases "addr = myAddr \<or> map_of ps addr \<noteq> None")
  case True
  with assms show ?thesis by (auto simp: pools_connect_def pools_get_def)
next
  case False
  then obtain p0 conn p1 where get: "newPool dial addr 5 = Inr p0"
      "pool_Get dial (Some p0) = Inr (conn, p1)"
      "(case pool_Put close conn p1 of (r, p2) \<Rightarrow>
         go_bind (x_Fatal r) (\<lambda>_. Inr (ps @ [(addr, p2)]))) = Inr ps'"
    using assms(1) by (auto simp: pools_connect_def go_bind_eq_Inr)
  obtain r p2 where put: "pool_Put close conn p1 = (r, p2)" by fastforce
  with get have s: "ps' = ps @ [(addr, p2)]" by (auto simp: go_simps)
  have "pool_ok addr p2"
    using newPool_ok [OF get(1)] pool_Get_ok [OF get(2)] pool_Put_ok [OF put] by simp
  moreover have "addr \<notin> fst ` set ps" using False by (simp add: map_of_eq_None_iff)
  ultimately show ?thesis using False assms(2) s
    by (auto simp: pools_ok_def pools_get_def map_add_def split: option.splits)
qed

end
