(* ===== verification/Membership.thy ===== *)
theory Membership
  imports Conn_Pool
begin

text \<open>
  The membership of servers in Raft groups, \<^verbatim>\<open>worker/groups.go\<close>: what a server knows of all groups of
  the cluster, the update of one member, and the exchange of updates with a server of group zero.
  A Go map is an association list in the order in which \<^verbatim>\<open>range\<close> visits it; the results hold for every
  order. The raft library, the random numbers and the remote call are parameters. Results: in every
  reachable state a group has at least one server, no server twice, and at most its first server is
  a leader; a synchronisation brings the addresses of all servers up to date, but not always the
  leaders.
\<close>

section \<open>State\<close>

record server =
  NodeId :: u64
  srv_Addr :: bytes
  srv_Leader :: bool
  RaftIdx :: u64

record raftContext =
  rc_Id :: u64
  rc_Group :: u32
  rc_Addr :: bytes

record membership =
  mm_Id :: u64
  mm_Group :: u32
  mm_Addr :: bytes
  mm_Leader :: bool

record membershipUpdate =
  Members :: "membership list"
  mu_LastUpdate :: u64
  Redirect :: bool
  RedirectAddr :: bytes

text \<open>A node of a Raft group; \<open>status_Lead\<close> and \<open>status_ID\<close> are what \<^verbatim>\<open>raft.Status\<close> answers.\<close>

record raft_node =
  node_id :: u64
  node_gid :: u32
  peers :: "u64 \<rightharpoonup> bytes"
  prop_ids :: "u32 list"
  node_context :: raftContext
  canCampaign :: bool
  status_Lead :: u64
  status_ID :: u64

record groupi =
  local_nodes :: "(u32 \<times> raft_node) list"
  all_servers :: "(u32 \<times> server list) list"
  lastUpdate :: u64

definition newNode :: "u32 \<Rightarrow> u64 \<Rightarrow> bytes \<Rightarrow> raft_node" where
  "newNode gid nid myAddr =
     \<lparr>node_id = nid, node_gid = gid, peers = Map.empty, prop_ids = [],
      node_context = \<lparr>rc_Id = nid, rc_Group = gid, rc_Addr = myAddr\<rparr>, canCampaign = False,
      status_Lead = 0, status_ID = nid\<rparr>"

definition AmLeader :: "raft_node option \<Rightarrow> bool" where
  "AmLeader n = (case n of None \<Rightarrow> False | Some n \<Rightarrow> status_Lead n = status_ID n)"

section \<open>Queries\<close>

definition groups_Node :: "groupi \<Rightarrow> u32 \<Rightarrow> raft_node option" where
  "groups_Node g groupId = map_of (local_nodes g) groupId"

definition ServesGroup :: "groupi \<Rightarrow> u32 \<Rightarrow> bool" where
  "ServesGroup g groupId \<longleftrightarrow> map_of (local_nodes g) groupId \<noteq> None"

definition groups_newNode :: "u32 \<Rightarrow> u64 \<Rightarrow> bytes \<Rightarrow> groupi \<Rightarrow> groupi go" where
  "groups_newNode groupId nodeId publicAddr g =
     go_bind (assertTruef (map_of (local_nodes g) groupId = None)
                ''Didn't expect a node in RAFT group mapping'') (\<lambda>_.
       Inr (g\<lparr>local_nodes := local_nodes g @ [(groupId, newNode groupId nodeId publicAddr)]\<rparr>))"

definition groups_Server :: "groupi \<Rightarrow> u64 \<Rightarrow> u32 \<Rightarrow> server option" where
  "groups_Server g sid groupId =
     (case map_of (all_servers g) groupId of
        None \<Rightarrow> None
      | Some sl \<Rightarrow> find (\<lambda>s. NodeId s = sid) sl)"

text \<open>\<open>intn\<close> is \<^verbatim>\<open>rand.Intn\<close>, which panics on zero.\<close>

definition AnyServer :: "(nat \<Rightarrow> nat) \<Rightarrow> groupi \<Rightarrow> u32 \<Rightarrow> bytes go" where
  "AnyServer intn g groupId =
     (case map_of (all_servers g) groupId of
        None \<Rightarrow> Inr []
      | Some sl \<Rightarrow>
          if sl = [] then Inl (Panic ''invalid argument to Intn'')
          else Inr (srv_Addr (sl ! intn (length sl))))"

definition HasPeer :: "groupi \<Rightarrow> u32 \<Rightarrow> bool" where
  "HasPeer g groupId =
     (case map_of (all_servers g) groupId of None \<Rightarrow> False | Some sl \<Rightarrow> length sl > 0)"

definition groups_Leader :: "groupi \<Rightarrow> u32 \<Rightarrow> (u64 \<times> bytes) go" where
  "groups_Leader g groupId =
     (case map_of (all_servers g) groupId of
        None \<Rightarrow> Inr (0, [])
      | Some [] \<Rightarrow> Inl (Panic ''index out of range'')
      | Some (s # _) \<Rightarrow> Inr (NodeId s, srv_Addr s))"

definition KnownGroups :: "groupi \<Rightarrow> u32 list" where
  "KnownGroups g = map fst (all_servers g)"

definition duplicate :: "groupi \<Rightarrow> u32 \<Rightarrow> u64 \<Rightarrow> bytes \<Rightarrow> bool \<Rightarrow> bool" where
  "duplicate g gid nid addr leader =
     (case map_of (all_servers g) gid of
        None \<Rightarrow> False
      | Some sl \<Rightarrow>
          list_ex (\<lambda>s. NodeId s = nid \<and> srv_Addr s = addr \<and> srv_Leader s = leader) sl)"

definition TouchLastUpdate :: "u64 \<Rightarrow> groupi \<Rightarrow> groupi" where
  "TouchLastUpdate u g = (if lastUpdate g < u then g\<lparr>lastUpdate := u\<rparr> else g)"

section \<open>The update of a member\<close>

text \<open>
  One pass of the removal: \<^verbatim>\<open>range\<close> walks the array that the slice had at the start, while the slice
  loses its last element at every removal. The state is the array, the length of the slice, and
  whether something was found.
\<close>

fun remove_pass :: "u64 \<Rightarrow> nat list \<Rightarrow> server list \<Rightarrow> nat \<Rightarrow> bool \<Rightarrow> (server list \<times> bool) go" where
  "remove_pass nid [] arr m found = Inr (take m arr, found)"
| "remove_pass nid (i # is) arr m found =
     (if NodeId (arr ! i) = nid then
        if i < m then remove_pass nid is (arr[i := arr ! (m - 1)]) (m - 1) True
        else Inl (Panic ''index out of range'')
      else remove_pass nid is arr m found)"

lemma remove_pass_shrinks:
  "remove_pass nid is arr m found = Inr (l, f) \<Longrightarrow>
     length l \<le> m \<and> (f \<and> \<not> found \<longrightarrow> length l < m)"
proof (induction "is" arbitrary: arr m found)
  case (Cons i "is")
  then show ?case by (fastforce simp: Let_def split: if_splits dest: Cons.IH)
qed auto

function remove_node :: "u64 \<Rightarrow> server list \<Rightarrow> server list go" where
  "remove_node nid l =
     (case remove_pass nid [0..<length l] l (length l) False of
        Inl e \<Rightarrow> Inl e
      | Inr (l', True) \<Rightarrow> remove_node nid l'
      | Inr (l', False) \<Rightarrow> Inr l')"
  by pat_completeness auto
termination
  by (relation "measure (length \<circ> snd)") (auto dest: remove_pass_shrinks)

declare remove_node.simps [simp del]

text \<open>A leader goes to the front; every server behind the front becomes a follower.\<close>

definition move_leader :: "server \<Rightarrow> server list \<Rightarrow> server list" where
  "move_leader update l =
     (let last = length l - 1 in
      if srv_Leader update then l[0 := l ! last, last := l ! 0] else l)"

definition demote :: "server list \<Rightarrow> server list" where
  "demote l = (case l of [] \<Rightarrow> [] | s # ss \<Rightarrow> s # map (\<lambda>t. t\<lparr>srv_Leader := False\<rparr>) ss)"

fun set_group :: "u32 \<Rightarrow> 'a \<Rightarrow> (u32 \<times> 'a) list \<Rightarrow> (u32 \<times> 'a) list" where
  "set_group gid sl [] = [(gid, sl)]"
| "set_group gid sl ((h, hl) # rest) =
     (if h = gid then (gid, sl) # rest else (h, hl) # set_group gid sl rest)"

definition update_of :: "u64 \<Rightarrow> membership \<Rightarrow> server" where
  "update_of raftIdx mm =
     \<lparr>NodeId = mm_Id mm, srv_Addr = mm_Addr mm, srv_Leader = mm_Leader mm, RaftIdx = raftIdx\<rparr>"

definition update_servers :: "server \<Rightarrow> server list \<Rightarrow> server list go" where
  "update_servers update l =
     go_bind (remove_node (NodeId update) l) (\<lambda>l'. Inr (demote (move_leader update (l' @ [update]))))"

definition servers_of :: "groupi \<Rightarrow> u32 \<Rightarrow> server list" where
  "servers_of g gid = (case map_of (all_servers g) gid of None \<Rightarrow> [] | Some sl \<Rightarrow> sl)"

definition applyMembershipUpdate :: "u64 \<Rightarrow> membership \<Rightarrow> groupi \<Rightarrow> groupi go" where
  "applyMembershipUpdate raftIdx mm g =
     go_bind (update_servers (update_of raftIdx mm) (servers_of g (mm_Group mm))) (\<lambda>sl.
       Inr (g\<lparr>all_servers := set_group (mm_Group mm) sl (all_servers g)\<rparr>))"

section \<open>The exchange of updates\<close>

definition members_after :: "u64 \<Rightarrow> u32 \<times> server list \<Rightarrow> membership list" where
  "members_after ridx = (\<lambda>(gid, sl).
     map (\<lambda>s. \<lparr>mm_Id = NodeId s, mm_Group = gid, mm_Addr = srv_Addr s, mm_Leader = srv_Leader s\<rparr>)
       (filter (\<lambda>s. \<not> RaftIdx s \<le> ridx) sl))"

definition max_index :: "u64 \<Rightarrow> server list \<Rightarrow> u64" where
  "max_index ridx sl =
     fold (\<lambda>s maxIdx. if RaftIdx s > maxIdx then RaftIdx s else maxIdx) sl ridx"

definition MembershipUpdateAfter :: "u64 \<Rightarrow> groupi \<Rightarrow> membershipUpdate" where
  "MembershipUpdateAfter ridx g =
     \<lparr>Members = concat (map (members_after ridx) (all_servers g)),
      mu_LastUpdate = max_index ridx (concat (map snd (all_servers g))),
      Redirect = False, RedirectAddr = []\<rparr>"

text \<open>
  The call of a server that does not serve group zero. \<open>propose\<close> is \<^verbatim>\<open>ProposeAndWait\<close> on the node of
  group zero; the proposals run one after the other, in the order of the request. All are made before
  the first error is returned.
\<close>

definition emptyMembershipUpdate :: membershipUpdate where
  "emptyMembershipUpdate = \<lparr>Members = [], mu_LastUpdate = 0, Redirect = False, RedirectAddr = []\<rparr>"

fun propose_members ::
  "(membership \<Rightarrow> groupi \<Rightarrow> go_err option \<times> groupi) \<Rightarrow> membership list \<Rightarrow> groupi
    \<Rightarrow> go_err option \<times> groupi" where
  "propose_members propose [] g = (None, g)"
| "propose_members propose (mm # mms) g =
     (if duplicate g (mm_Group mm) (mm_Id mm) (mm_Addr mm) (mm_Leader mm)
      then propose_members propose mms g
      else
        case propose mm g of (e, g') \<Rightarrow>
          (case propose_members propose mms g' of (e', g'') \<Rightarrow>
             (case e of None \<Rightarrow> e' | Some _ \<Rightarrow> e, g'')))"

definition UpdateMembership ::
  "(nat \<Rightarrow> nat) \<Rightarrow> (membership \<Rightarrow> groupi \<Rightarrow> go_err option \<times> groupi) \<Rightarrow> go_err option
    \<Rightarrow> membershipUpdate \<Rightarrow> groupi \<Rightarrow> membershipUpdate go \<times> groupi" where
  "UpdateMembership intn propose ctxErr update g =
     (case ctxErr of
        Some e \<Rightarrow> (Inl e, g)
      | None \<Rightarrow>
          if \<not> ServesGroup g 0 then
            (go_bind (AnyServer intn g 0) (\<lambda>addr.
               Inr (emptyMembershipUpdate\<lparr>Redirect := True, RedirectAddr := addr\<rparr>)), g)
          else
            case propose_members propose (Members update) g of
              (Some e, g') \<Rightarrow> (Inl e, g')
            | (None, g') \<Rightarrow> (Inr (MembershipUpdateAfter (mu_LastUpdate update) g'), g'))"

text \<open>The memberships a server of group zero proposes, and those another server sends.\<close>

definition node_membership :: "raft_node \<Rightarrow> membership" where
  "node_membership n =
     (let rc = node_context n in
      \<lparr>mm_Id = rc_Id rc, mm_Group = rc_Group rc, mm_Addr = rc_Addr rc, mm_Leader = AmLeader (Some n)\<rparr>)"

definition sync_proposals :: "groupi \<Rightarrow> membership list" where
  "sync_proposals g =
     filter (\<lambda>mm. \<not> duplicate g (mm_Group mm) (mm_Id mm) (mm_Addr mm) (mm_Leader mm))
       (map (node_membership \<circ> snd) (local_nodes g))"

definition sync_request :: "groupi \<Rightarrow> membershipUpdate" where
  "sync_request g =
     emptyMembershipUpdate\<lparr>Members := map (node_membership \<circ> snd) (local_nodes g),
       mu_LastUpdate := lastUpdate g\<rparr>"

fun apply_members :: "u64 \<Rightarrow> membership list \<Rightarrow> groupi \<Rightarrow> groupi go" where
  "apply_members lu [] g = Inr g"
| "apply_members lu (mm # mms) g = go_bind (applyMembershipUpdate lu mm g) (apply_members lu mms)"

definition apply_reply :: "membershipUpdate \<Rightarrow> groupi \<Rightarrow> groupi go" where
  "apply_reply update g =
     go_bind (apply_members (mu_LastUpdate update) (Members update) g) (\<lambda>g'.
       Inr (TouchLastUpdate (if Members update = [] then 0 else mu_LastUpdate update) g'))"

text \<open>
  The synchronisation itself. The server asked may redirect to another one; the loop has no bound, so
  it is a partial function and \<^term>\<open>None\<close> means that it never ends. Connections are put back into
  their pools when the call returns. \<open>rpc\<close> is the remote call of \<^verbatim>\<open>UpdateMembership\<close> over a connection.
\<close>

record 'c net =
  dial :: "bytes \<Rightarrow> 'c go"
  close_conn :: "'c \<Rightarrow> unit go"
  echo :: "'c \<Rightarrow> bool go"
  rpc :: "'c \<Rightarrow> membershipUpdate \<Rightarrow> membershipUpdate go"

definition set_pool :: "'c pool \<Rightarrow> 'c poolsi \<Rightarrow> 'c poolsi" where
  "set_pool p ps = map (\<lambda>(a, q). (a, if a = pool_Addr p then p else q)) ps"

fun put_back :: "('c \<Rightarrow> unit go) \<Rightarrow> (bytes \<times> 'c) list \<Rightarrow> 'c poolsi \<Rightarrow> 'c poolsi" where
  "put_back close [] ps = ps"
| "put_back close ((a, conn) # held) ps =
     put_back close held (case pools_get ps a of
        None \<Rightarrow> ps | Some p \<Rightarrow> set_pool (snd (pool_Put close conn p)) ps)"

partial_function (option) sync_loop ::
  "'c net \<Rightarrow> bytes \<Rightarrow> membershipUpdate \<Rightarrow> bytes \<Rightarrow> 'c poolsi \<Rightarrow> (bytes \<times> 'c) list
    \<Rightarrow> (membershipUpdate option \<times> 'c poolsi \<times> (bytes \<times> 'c) list) go option" where
  "sync_loop net myAddr mu addr ps held =
     (case pool_Get (dial net) (if addr \<noteq> [] then pools_get ps addr else pools_any ps) of
        Inl e \<Rightarrow> Some (if e = errNoConnection then Inr (None, ps, held) else x_Fatal (Inl e))
      | Inr (conn, p) \<Rightarrow>
          (case rpc net conn mu of
             Inl (Err e) \<Rightarrow> Some (Inr (None, set_pool p ps, (pool_Addr p, conn) # held))
           | Inl e \<Rightarrow> Some (Inl e)
           | Inr update \<Rightarrow>
               if \<not> Redirect update then
                 Some (Inr (Some update, set_pool p ps, (pool_Addr p, conn) # held))
               else if RedirectAddr update = [] then
                 Some (Inr (None, set_pool p ps, (pool_Addr p, conn) # held))
               else
                 (case pools_connect (dial net) (close_conn net) (echo net) myAddr
                         (RedirectAddr update) (set_pool p ps) of
                    Inl e \<Rightarrow> Some (Inl e)
                  | Inr ps' \<Rightarrow>
                      sync_loop net myAddr mu (RedirectAddr update) ps' ((pool_Addr p, conn) # held))))"

text \<open>The result holds the proposals that a server of group zero makes on its own node.\<close>

definition syncMemberships ::
  "'c net \<Rightarrow> (nat \<Rightarrow> nat) \<Rightarrow> bytes \<Rightarrow> groupi \<Rightarrow> 'c poolsi
    \<Rightarrow> (groupi \<times> 'c poolsi \<times> membership list) go option" where
  "syncMemberships net intn myAddr g ps =
     (if ServesGroup g 0 then Some (Inr (g, ps, sync_proposals g))
      else
        case AnyServer intn g 0 of
          Inl e \<Rightarrow> Some (Inl e)
        | Inr addr \<Rightarrow>
            (case sync_loop net myAddr (sync_request g) addr ps [] of
               None \<Rightarrow> None
             | Some (Inl e) \<Rightarrow> Some (Inl e)
             | Some (Inr (update, ps', held)) \<Rightarrow>
                 Some (go_bind (case update of None \<Rightarrow> Inr g | Some u \<Rightarrow> apply_reply u g) (\<lambda>g'.
                   Inr (g', put_back (close_conn net) held ps', [])))))"

section \<open>Groups of servers\<close>

text \<open>A group that is well formed: no server twice, no leader behind the front.\<close>

definition servers_ok :: "server list \<Rightarrow> bool" where
  "servers_ok l \<longleftrightarrow> distinct (map NodeId l) \<and> (\<forall>s \<in> set (tl l). \<not> srv_Leader s)"

text \<open>What a group means: the address and index of every server, and the leader.\<close>

definition entry :: "server \<Rightarrow> u64 \<times> bytes \<times> u64" where
  "entry s = (NodeId s, srv_Addr s, RaftIdx s)"

definition srv_entries :: "server list \<Rightarrow> u64 \<rightharpoonup> bytes \<times> u64" where
  "srv_entries l = map_of (map entry l)"

definition leader_of :: "server list \<Rightarrow> u64 option" where
  "leader_of l = (case l of [] \<Rightarrow> None | s # _ \<Rightarrow> if srv_Leader s then Some (NodeId s) else None)"

lemma remove_pass_skip:
  "\<forall>i \<in> set is. NodeId (arr ! i) \<noteq> nid \<Longrightarrow> remove_pass nid (is @ js) arr m f = remove_pass nid js arr m f"
  by (induction "is") auto

lemma remove_pass_none:
  "\<forall>i \<in> set is. NodeId (arr ! i) \<noteq> nid \<Longrightarrow> remove_pass nid is arr m f = Inr (take m arr, f)"
  using remove_pass_skip [of "is" arr nid "[]"] by simp

lemma remove_node_absent:
  assumes "\<forall>s \<in> set l. NodeId s \<noteq> nid"
  shows "remove_node nid l = Inr l"
  using assms remove_pass_none [of "[0..<length l]" l nid "length l" False]
  by (subst remove_node.simps) simp

lemma remove_node_present:
  assumes "\<forall>s \<in> set xs \<union> set ys. NodeId s \<noteq> nid" "NodeId s = nid"
  shows "remove_node nid (xs @ s # ys) = Inr (if ys = [] then xs else xs @ last ys # butlast ys)"
    (is "_ = Inr ?r")
proof -
  let ?l = "xs @ s # ys" and ?k = "length xs"
  let ?arr = "?l[?k := ?l ! (length ?l - 1)]"
  have ix: "[0..<length ?l] = [0..<?k] @ ?k # [Suc ?k..<length ?l]"
    using upt_add_eq_append [of 0 ?k "Suc (length ys)"] upt_conv_Cons [of ?k "length ?l"] by simp
  have "\<forall>i \<in> set [0..<?k]. NodeId (?l ! i) \<noteq> nid" using assms by (auto simp: nth_append)
  then have "remove_pass nid [0..<length ?l] ?l (length ?l) False =
      remove_pass nid [Suc ?k..<length ?l] ?arr (length ?l - 1) True"
    unfolding ix using assms(2) by (simp add: remove_pass_skip nth_append)
  moreover have "\<forall>i \<in> set [Suc ?k..<length ?l]. NodeId (?arr ! i) \<noteq> nid"
    using assms by (auto simp: nth_append nth_Cons' )
  ultimately have "remove_pass nid [0..<length ?l] ?l (length ?l) False =
      Inr (take (length ?l - 1) ?arr, True)"
    using remove_pass_none by metis
  moreover have "take (length ?l - 1) ?arr = ?r"
    by (cases ys rule: rev_cases) (auto simp: list_update_append nth_append)
  ultimately have "remove_node nid ?l = remove_node nid ?r"
    by (subst remove_node.simps) simp
  moreover have "\<forall>t \<in> set ?r. NodeId t \<noteq> nid"
    using assms by (cases ys rule: rev_cases) auto
  ultimately show ?thesis using remove_node_absent by metis
qed


lemma remove_node_spec:
  assumes "servers_ok l"
  shows "\<exists>l'. remove_node nid l = Inr l' \<and> servers_ok l' \<and> nid \<notin> NodeId ` set l' \<and>
    entry ` set l' = {e \<in> entry ` set l. fst e \<noteq> nid} \<and>
    leader_of l' = (if leader_of l = Some nid then None else leader_of l)"
proof (cases "nid \<in> NodeId ` set l")
  case False
  then have "remove_node nid l = Inr l" by (intro remove_node_absent) auto
  moreover have "leader_of l \<noteq> Some nid" using False by (auto simp: leader_of_def split: list.splits)
  ultimately show ?thesis using assms False by (auto simp: entry_def)
next
  case True
  then obtain xs s ys where l: "l = xs @ s # ys" "NodeId s = nid" by (auto simp: in_set_conv_decomp)
  with assms have others: "\<forall>t \<in> set xs \<union> set ys. NodeId t \<noteq> nid"
    by (auto simp: servers_ok_def image_iff)
  let ?r = "if ys = [] then xs else xs @ last ys # butlast ys"
  have r: "remove_node nid l = Inr ?r" using remove_node_present [OF others l(2)] l(1) by simp
  have sets: "set ?r = set xs \<union> set ys" by (cases ys rule: rev_cases) auto
  have "servers_ok ?r" using assms l by (cases ys rule: rev_cases; cases xs) (auto simp: servers_ok_def)
  moreover have "leader_of ?r = (if leader_of l = Some nid then None else leader_of l)"
    using assms l others
    by (cases xs; cases ys rule: rev_cases) (auto simp: leader_of_def servers_ok_def)
  moreover have "nid \<notin> NodeId ` set ?r" "entry ` set ?r = {e \<in> entry ` set l. fst e \<noteq> nid}"
    unfolding sets using l others by (auto simp: entry_def)
  ultimately show ?thesis using r by blast
qed

lemma move_leader_append:
  "move_leader u (l @ [u]) =
     (if srv_Leader u then if l = [] then [u] else u # tl l @ [hd l] else l @ [u])"
  by (cases l) (auto simp: move_leader_def Let_def nth_append list_update_append)

lemma demote_spec:
  "map NodeId (demote l) = map NodeId l" "entry ` set (demote l) = entry ` set l"
  "leader_of (demote l) = leader_of l" "\<forall>s \<in> set (tl (demote l)). \<not> srv_Leader s"
  "demote l = [] \<longleftrightarrow> l = []"
  by (cases l; force simp: demote_def leader_of_def entry_def image_image)+

lemma entries_update:
  assumes "distinct (map NodeId l)" "distinct (map NodeId l')"
    "entry ` set l' = insert (nid, v) {e \<in> entry ` set l. fst e \<noteq> nid}"
  shows "srv_entries l' = (srv_entries l)(nid \<mapsto> v)"
proof
  have fst: "map fst (map entry k) = map NodeId k" for k by (simp add: entry_def)
  have iff: "srv_entries k i = Some w \<longleftrightarrow> (i, w) \<in> entry ` set k" if "distinct (map NodeId k)" for k i w
    using that map_of_eq_Some_iff [of "map entry k" i w] unfolding fst srv_entries_def by simp
  fix i
  show "srv_entries l' i = ((srv_entries l)(nid \<mapsto> v)) i"
  proof (cases "srv_entries l' i")
    case None
    then have None': "\<forall>w. (i, w) \<notin> entry ` set l'"
      using iff [OF assms(2)] by (metis option.distinct(1))
    then have "i \<noteq> nid" using spec [OF None', of v] unfolding assms(3) by auto
    moreover from this have "srv_entries l i \<noteq> Some w" for w
      using None' [rule_format, of w] iff [OF assms(1), of i w] unfolding assms(3) by simp
    then have "srv_entries l i = None" by (cases "srv_entries l i") auto
    ultimately show ?thesis using None by simp
  next
    case (Some w)
    then have "(i, w) \<in> entry ` set l'" using iff [OF assms(2)] by simp
    then have "i = nid \<and> w = v \<or> i \<noteq> nid \<and> (i, w) \<in> entry ` set l" unfolding assms(3) by auto
    then show ?thesis using Some iff [OF assms(1), of i w] by (elim disjE) simp_all
  qed
qed

text \<open>The update of one member refines the update of a map of servers and of the leader.\<close>

definition new_leader :: "u64 \<Rightarrow> bool \<Rightarrow> u64 option \<Rightarrow> u64 option" where
  "new_leader nid leads old = (if leads then Some nid else if old = Some nid then None else old)"

lemma update_servers_spec:
  assumes "servers_ok l"
  shows "\<exists>l'. update_servers u l = Inr l' \<and> servers_ok l' \<and> l' \<noteq> [] \<and>
    srv_entries l' = (srv_entries l)(NodeId u \<mapsto> (srv_Addr u, RaftIdx u)) \<and>
    leader_of l' = new_leader (NodeId u) (srv_Leader u) (leader_of l)"
proof -
  obtain r where r: "remove_node (NodeId u) l = Inr r" "servers_ok r" "NodeId u \<notin> NodeId ` set r"
      "entry ` set r = {e \<in> entry ` set l. fst e \<noteq> NodeId u}"
      "leader_of r = (if leader_of l = Some (NodeId u) then None else leader_of l)"
    using remove_node_spec [OF assms] by blast
  let ?m = "move_leader u (r @ [u])"
  have u: "update_servers u l = Inr (demote ?m)" by (simp add: update_servers_def r(1))
  have dm: "distinct (map NodeId ?m)"
    unfolding move_leader_append using r(2,3) by (cases r) (auto simp: servers_ok_def)
  then have ok: "servers_ok (demote ?m)"
    unfolding servers_ok_def demote_spec(1) using demote_spec(4) by blast
  have "set ?m = insert u (set r)" unfolding move_leader_append by (cases r) auto
  then have "entry ` set (demote ?m) =
      insert (NodeId u, srv_Addr u, RaftIdx u) {e \<in> entry ` set l. fst e \<noteq> NodeId u}"
    unfolding demote_spec(2) by (simp add: r(4)) (simp add: entry_def)
  then have "srv_entries (demote ?m) = (srv_entries l)(NodeId u \<mapsto> (srv_Addr u, RaftIdx u))"
    using entries_update assms ok by (simp add: servers_ok_def)
  moreover have "leader_of ?m = new_leader (NodeId u) (srv_Leader u) (leader_of l)"
    unfolding move_leader_append using r(5) by (cases r) (auto simp: leader_of_def new_leader_def)
  moreover have "?m \<noteq> []" unfolding move_leader_append by simp
  ultimately show ?thesis using u ok demote_spec(3,5) [of ?m] by metis
qed

definition membership_ok :: "groupi \<Rightarrow> bool" where
  "membership_ok g \<longleftrightarrow> distinct (map fst (all_servers g)) \<and>
     (\<forall>(gid, sl) \<in> set (all_servers g). servers_ok sl \<and> sl \<noteq> [])"

abbreviation members_of :: "groupi \<Rightarrow> u32 \<Rightarrow> u64 \<rightharpoonup> bytes \<times> u64" where
  "members_of g gid \<equiv> srv_entries (servers_of g gid)"

abbreviation group_leader :: "groupi \<Rightarrow> u32 \<Rightarrow> u64 option" where
  "group_leader g gid \<equiv> leader_of (servers_of g gid)"

lemma set_group_map_of: "map_of (set_group gid sl al) k = (if k = gid then Some sl else map_of al k)"
  by (induction gid sl al rule: set_group.induct) auto

lemma set_group_keys: "fst ` set (set_group gid sl al) = insert gid (fst ` set al)"
  unfolding dom_map_of_conv_image_fst [symmetric] by (auto simp: set_group_map_of split: if_splits)

lemma set_group_distinct: "distinct (map fst al) \<Longrightarrow> distinct (map fst (set_group gid sl al))"
proof (induction gid sl al rule: set_group.induct)
  case (2 gid sl h hl rest)
  then show ?case using set_group_keys [of gid sl rest] by auto
qed simp

lemma set_group_set: "set (set_group gid sl al) \<subseteq> insert (gid, sl) (set al)"
  by (induction gid sl al rule: set_group.induct) auto

lemma servers_of_ok: "membership_ok g \<Longrightarrow> servers_ok (servers_of g gid)"
  by (auto simp: membership_ok_def servers_of_def servers_ok_def split: option.splits dest!: map_of_SomeD)

lemma applyMembershipUpdate_spec:
  assumes "membership_ok g"
  shows "\<exists>g'. applyMembershipUpdate i mm g = Inr g' \<and> membership_ok g' \<and>
    lastUpdate g' = lastUpdate g \<and> local_nodes g' = local_nodes g \<and>
    (\<forall>gid. members_of g' gid =
       (if gid = mm_Group mm then (members_of g gid)(mm_Id mm \<mapsto> (mm_Addr mm, i)) else members_of g gid)) \<and>
    (\<forall>gid. group_leader g' gid =
       (if gid = mm_Group mm then new_leader (mm_Id mm) (mm_Leader mm) (group_leader g gid)
        else group_leader g gid))"
proof -
  let ?gid = "mm_Group mm"
  obtain sl where sl: "update_servers (update_of i mm) (servers_of g ?gid) = Inr sl" "servers_ok sl" "sl \<noteq> []"
      "srv_entries sl = (members_of g ?gid)(mm_Id mm \<mapsto> (mm_Addr mm, i))"
      "leader_of sl = new_leader (mm_Id mm) (mm_Leader mm) (group_leader g ?gid)"
    using update_servers_spec [OF servers_of_ok [OF assms], of "update_of i mm"]
    by (auto simp: update_of_def)
  let ?g = "g\<lparr>all_servers := set_group ?gid sl (all_servers g)\<rparr>"
  have "applyMembershipUpdate i mm g = Inr ?g" by (simp add: applyMembershipUpdate_def sl(1))
  moreover have "membership_ok ?g"
    using assms sl(2,3) set_group_set [of ?gid sl "all_servers g"] set_group_distinct
    by (fastforce simp: membership_ok_def)
  moreover have "servers_of ?g gid = (if gid = ?gid then sl else servers_of g gid)" for gid
    by (simp add: servers_of_def set_group_map_of)
  ultimately show ?thesis using sl(4,5) by simp
qed

text \<open>The states of a server: memberships are applied one after the other.\<close>

inductive membership_reach :: "groupi \<Rightarrow> bool" where
  start: "all_servers g = [] \<Longrightarrow> membership_reach g"
| apply_update: "membership_reach g \<Longrightarrow> applyMembershipUpdate i mm g = Inr g' \<Longrightarrow> membership_reach g'"
| touch: "membership_reach g \<Longrightarrow> membership_reach (TouchLastUpdate u g)"

lemma TouchLastUpdate_simps [simp]:
  "all_servers (TouchLastUpdate u g) = all_servers g"
  "local_nodes (TouchLastUpdate u g) = local_nodes g"
  "lastUpdate (TouchLastUpdate u g) = max (lastUpdate g) u"
  by (auto simp: TouchLastUpdate_def max_def)

lemma servers_of_touch [simp]: "servers_of (TouchLastUpdate u g) = servers_of g"
  by (simp add: servers_of_def fun_eq_iff)

lemma membership_ok_touch [simp]: "membership_ok (TouchLastUpdate u g) = membership_ok g"
  by (simp add: membership_ok_def)

lemma membership_reach_ok: "membership_reach g \<Longrightarrow> membership_ok g"
proof (induction rule: membership_reach.induct)
  case (apply_update g i mm g')
  then show ?case using applyMembershipUpdate_spec [of g i mm] by auto
qed (auto simp: membership_ok_def)

section \<open>Synchronisation\<close>

abbreviation mm_key :: "membership \<Rightarrow> u32 \<times> u64" where
  "mm_key mm \<equiv> (mm_Group mm, mm_Id mm)"

lemma apply_members_spec:
  assumes "membership_ok g" "distinct (map mm_key mms)"
  shows "\<exists>g'. apply_members i mms g = Inr g' \<and> membership_ok g' \<and>
    lastUpdate g' = lastUpdate g \<and> local_nodes g' = local_nodes g \<and>
    (\<forall>mm \<in> set mms. members_of g' (mm_Group mm) (mm_Id mm) = Some (mm_Addr mm, i)) \<and>
    (\<forall>gid n. (gid, n) \<notin> mm_key ` set mms \<longrightarrow> members_of g' gid n = members_of g gid n)"
  using assms
proof (induction mms arbitrary: g)
  case (Cons mm mms)
  obtain g1 where g1: "applyMembershipUpdate i mm g = Inr g1" "membership_ok g1"
      "lastUpdate g1 = lastUpdate g" "local_nodes g1 = local_nodes g"
      "\<forall>gid. members_of g1 gid =
        (if gid = mm_Group mm then (members_of g gid)(mm_Id mm \<mapsto> (mm_Addr mm, i)) else members_of g gid)"
    using applyMembershipUpdate_spec [OF Cons.prems(1), of i mm] by blast
  obtain g' where g': "apply_members i mms g1 = Inr g'" "membership_ok g'"
      "lastUpdate g' = lastUpdate g1" "local_nodes g' = local_nodes g1"
      "\<forall>mm \<in> set mms. members_of g' (mm_Group mm) (mm_Id mm) = Some (mm_Addr mm, i)"
      "\<forall>gid n. (gid, n) \<notin> mm_key ` set mms \<longrightarrow> members_of g' gid n = members_of g1 gid n"
    using Cons.IH [OF g1(2)] Cons.prems(2) by auto
  have "members_of g' (mm_Group mm) (mm_Id mm) = Some (mm_Addr mm, i)"
    using g'(6) g1(5) Cons.prems(2) by simp
  moreover have "members_of g' gid n = members_of g gid n" if "(gid, n) \<notin> mm_key ` set (mm # mms)" for gid n
    using that g'(6) g1(5) by auto
  ultimately show ?case using g1 g' by simp
qed simp

text \<open>The leader after a sequence of updates: the last word on it.\<close>

lemma apply_members_leader:
  assumes "membership_ok g" "apply_members i mms g = Inr g'"
  shows "group_leader g' gid =
    fold (\<lambda>mm. new_leader (mm_Id mm) (mm_Leader mm)) (filter (\<lambda>mm. mm_Group mm = gid) mms) (group_leader g gid)"
  using assms
proof (induction mms arbitrary: g)
  case (Cons mm mms)
  obtain g1 where g1: "applyMembershipUpdate i mm g = Inr g1" "membership_ok g1"
      "\<forall>gid. group_leader g1 gid = (if gid = mm_Group mm
         then new_leader (mm_Id mm) (mm_Leader mm) (group_leader g gid) else group_leader g gid)"
    using applyMembershipUpdate_spec [OF Cons.prems(1), of i mm] by blast
  then have "apply_members i mms g1 = Inr g'" using Cons.prems(2) by simp
  from Cons.IH [OF g1(2) this] g1(3) show ?case by simp
qed simp

lemma new_leader_keeps:
  "\<forall>mm \<in> set mms. mm_Id mm \<noteq> n \<and> \<not> mm_Leader mm \<Longrightarrow>
     fold (\<lambda>mm. new_leader (mm_Id mm) (mm_Leader mm)) mms (Some n) = Some n"
  by (induction mms) (auto simp: new_leader_def)

lemma new_leader_wins:
  assumes "mm \<in> set mms" "mm_Leader mm" "distinct (map mm_Id mms)"
    "\<forall>m \<in> set mms. mm_Leader m \<longrightarrow> m = mm"
  shows "fold (\<lambda>mm. new_leader (mm_Id mm) (mm_Leader mm)) mms old = Some (mm_Id mm)"
proof -
  obtain xs ys where s: "mms = xs @ mm # ys" using assms(1) by (auto simp: in_set_conv_decomp)
  have "\<forall>m \<in> set ys. mm_Id m \<noteq> mm_Id mm \<and> \<not> mm_Leader m"
    using assms(3,4) unfolding s by (auto simp: image_iff)
  then show ?thesis using assms(2) new_leader_keeps [of ys "mm_Id mm"] by (simp add: s new_leader_def)
qed

text \<open>What a reply holds.\<close>

definition membership_of :: "u32 \<Rightarrow> server \<Rightarrow> membership" where
  "membership_of gid s =
     \<lparr>mm_Id = NodeId s, mm_Group = gid, mm_Addr = srv_Addr s, mm_Leader = srv_Leader s\<rparr>"

lemma membership_of_simps [simp]:
  "mm_Id (membership_of gid s) = NodeId s" "mm_Group (membership_of gid s) = gid"
  "mm_Addr (membership_of gid s) = srv_Addr s" "mm_Leader (membership_of gid s) = srv_Leader s"
  by (simp_all add: membership_of_def)

lemma members_after_eq:
  "members_after ridx (gid, sl) = map (membership_of gid) (filter (\<lambda>s. ridx < RaftIdx s) sl)"
  by (simp add: members_after_def membership_of_def [abs_def] not_le)

lemma in_all_servers:
  "membership_ok g \<Longrightarrow> (gid, sl) \<in> set (all_servers g) \<longleftrightarrow> map_of (all_servers g) gid = Some sl"
  by (auto simp: membership_ok_def)

lemma reply_members_in:
  assumes "membership_ok g"
  shows "mm \<in> set (Members (MembershipUpdateAfter ridx g)) \<longleftrightarrow>
    (\<exists>gid. \<exists>s \<in> set (servers_of g gid). ridx < RaftIdx s \<and> mm = membership_of gid s)"
proof -
  have "mm \<in> set (Members (MembershipUpdateAfter ridx g)) \<longleftrightarrow>
      (\<exists>gid sl. (gid, sl) \<in> set (all_servers g) \<and> (\<exists>s \<in> set sl. ridx < RaftIdx s \<and> mm = membership_of gid s))"
    by (force simp: MembershipUpdateAfter_def members_after_eq)
  then show ?thesis unfolding in_all_servers [OF assms] by (force simp: servers_of_def split: option.splits)
qed

lemma entries_in: "servers_ok l \<Longrightarrow> s \<in> set l \<Longrightarrow> srv_entries l (NodeId s) = Some (srv_Addr s, RaftIdx s)"
  unfolding srv_entries_def servers_ok_def
  by (rule map_of_is_SomeI) (auto simp: comp_def entry_def intro: rev_image_eqI)

lemma entries_Some: "srv_entries l n = Some (a, i) \<Longrightarrow> \<exists>s \<in> set l. NodeId s = n \<and> srv_Addr s = a \<and> RaftIdx s = i"
  unfolding srv_entries_def by (drule map_of_SomeD) (auto simp: entry_def)

lemma leader_in: "servers_ok l \<Longrightarrow> s \<in> set l \<Longrightarrow> srv_Leader s \<Longrightarrow> leader_of l = Some (NodeId s)"
  by (cases l) (auto simp: servers_ok_def leader_of_def)

lemma leader_Some: "leader_of l = Some n \<Longrightarrow> \<exists>s \<in> set l. NodeId s = n \<and> srv_Leader s"
  by (cases l) (auto simp: leader_of_def split: if_splits)

lemma reply_keys_distinct:
  assumes "membership_ok g"
  shows "distinct (map mm_key (Members (MembershipUpdateAfter ridx g)))"
proof -
  have "distinct (map mm_key (concat (map (members_after ridx) al)))"
    if "distinct (map fst al)" "\<forall>(gid, sl) \<in> set al. servers_ok sl" for al
    using that
  proof (induction al)
    case (Cons x al)
    obtain gid sl where x: "x = (gid, sl)" by fastforce
    have "distinct (map NodeId (filter (\<lambda>s. ridx < RaftIdx s) sl))"
      using Cons.prems(2) by (simp add: x servers_ok_def distinct_map_filter)
    then have "distinct (map mm_key (members_after ridx x))"
      by (auto simp: x members_after_eq comp_def distinct_map inj_on_def)
    moreover have "fst ` mm_key ` set (members_after ridx x) \<subseteq> {gid}" by (auto simp: x members_after_eq)
    moreover have "gid \<notin> fst ` mm_key ` set (concat (map (members_after ridx) al))"
      using Cons.prems(1) by (force simp: x members_after_eq)
    ultimately show ?case using Cons by (fastforce simp: x)
  qed simp
  then show ?thesis using assms by (fastforce simp: MembershipUpdateAfter_def membership_ok_def)
qed

lemma max_index_ge: "r \<le> max_index r sl"
  unfolding max_index_def
proof (induction sl arbitrary: r)
  case (Cons s sl)
  show ?case using Cons [of r] Cons [of "RaftIdx s"] by (auto intro: order_trans)
qed simp

lemma max_index_le: "r \<le> n \<Longrightarrow> \<forall>s \<in> set sl. RaftIdx s \<le> n \<Longrightarrow> max_index r sl \<le> n"
  unfolding max_index_def by (induction sl arbitrary: r) auto

text \<open>
  A server \<open>S\<close> of group zero applies updates in the order of the log, another server \<open>R\<close> fetches them
  from time to time; \<open>n\<close> is the index of the last entry applied.
\<close>

inductive cluster_reach :: "u64 \<Rightarrow> groupi \<Rightarrow> groupi \<Rightarrow> bool" where
  start: "all_servers S = [] \<Longrightarrow> all_servers R = [] \<Longrightarrow> lastUpdate R = 0 \<Longrightarrow> cluster_reach 0 S R"
| log_entry: "cluster_reach n S R \<Longrightarrow> n < i \<Longrightarrow> applyMembershipUpdate i mm S = Inr S' \<Longrightarrow> cluster_reach i S' R"
| sync: "cluster_reach n S R \<Longrightarrow> apply_reply (MembershipUpdateAfter (lastUpdate R) S) R = Inr R' \<Longrightarrow>
    cluster_reach n S R'"

definition sync_inv :: "u64 \<Rightarrow> groupi \<Rightarrow> groupi \<Rightarrow> bool" where
  "sync_inv n S R \<longleftrightarrow> membership_ok S \<and> membership_ok R \<and> lastUpdate R \<le> n \<and>
     (\<forall>gid m. members_of S gid m = None \<longrightarrow> members_of R gid m = None) \<and>
     (\<forall>gid m a i. members_of S gid m = Some (a, i) \<longrightarrow>
        i \<le> n \<and> (i \<le> lastUpdate R \<longrightarrow> map_option fst (members_of R gid m) = Some a)) \<and>
     (\<forall>gid m a i. group_leader S gid = Some m \<longrightarrow> members_of S gid m = Some (a, i) \<longrightarrow>
        i \<le> lastUpdate R \<longrightarrow> group_leader R gid = Some m)"

lemma sync_inv_start:
  "all_servers S = [] \<Longrightarrow> all_servers R = [] \<Longrightarrow> lastUpdate R = 0 \<Longrightarrow> sync_inv 0 S R"
  by (simp add: sync_inv_def membership_ok_def servers_of_def srv_entries_def leader_of_def)

lemma sync_inv_log:
  assumes "sync_inv n S R" "n < i" "applyMembershipUpdate i mm S = Inr S'"
  shows "sync_inv i S' R"
proof -
  have S': "membership_ok S'" "\<And>gid. members_of S' gid = (if gid = mm_Group mm
        then (members_of S gid)(mm_Id mm \<mapsto> (mm_Addr mm, i)) else members_of S gid)"
      "\<And>gid. group_leader S' gid = (if gid = mm_Group mm
        then new_leader (mm_Id mm) (mm_Leader mm) (group_leader S gid) else group_leader S gid)"
    using applyMembershipUpdate_spec [of S i mm] assms by (auto simp: sync_inv_def)
  have lt: "\<not> i \<le> lastUpdate R" using assms(1,2) by (auto simp: sync_inv_def)
  have "j \<le> i" if "members_of S gid m = Some (a, j)" for gid m a j
    using that assms(1,2) unfolding sync_inv_def by (meson less_imp_le order_trans)
  then show ?thesis using assms(1,2) lt unfolding sync_inv_def S'(2,3) 
    by (auto simp: S'(1) new_leader_def split: if_splits)
qed

text \<open>The addresses after a reply: sent ones are new, the others were known.\<close>

lemma sync_addresses:
  assumes inv: "sync_inv n S R"
    and R': "apply_members lu (Members (MembershipUpdateAfter (lastUpdate R) S)) R = Inr R'"
  shows "map_option fst (members_of R' gid m) = map_option fst (members_of S gid m)"
proof -
  let ?mms = "Members (MembershipUpdateAfter (lastUpdate R) S)"
  have ok: "membership_ok S" "membership_ok R" using inv by (auto simp: sync_inv_def)
  have sent: "\<forall>mm \<in> set ?mms. members_of R' (mm_Group mm) (mm_Id mm) = Some (mm_Addr mm, lu)"
    and kept: "\<forall>gid n. (gid, n) \<notin> mm_key ` set ?mms \<longrightarrow> members_of R' gid n = members_of R gid n"
    using apply_members_spec [OF ok(2) reply_keys_distinct [OF ok(1), of "lastUpdate R"], of lu]
    unfolding R' by simp_all
  show ?thesis
  proof (cases "members_of S gid m")
    case None
    then have "(gid, m) \<notin> mm_key ` set ?mms"
      using entries_in [OF servers_of_ok [OF ok(1)]] by (auto simp: reply_members_in [OF ok(1)])
    then show ?thesis using None kept inv by (simp add: sync_inv_def)
  next
    case (Some v)
    then obtain s where s: "s \<in> set (servers_of S gid)" "NodeId s = m" "v = (srv_Addr s, RaftIdx s)"
      using entries_Some by (metis surj_pair)
    show ?thesis
    proof (cases "lastUpdate R < RaftIdx s")
      case True
      then have "membership_of gid s \<in> set ?mms" using s(1) by (auto simp: reply_members_in [OF ok(1)])
      from sent [rule_format, OF this] show ?thesis using s Some by simp
    next
      case False
      have "\<not> lastUpdate R < RaftIdx t" if "t \<in> set (servers_of S gid)" "NodeId t = m" for t
        using that s(1,2) False entries_in [OF servers_of_ok [OF ok(1)]] by (metis option.inject prod.inject)
      then have "(gid, m) \<notin> mm_key ` set ?mms" by (auto simp: reply_members_in [OF ok(1)])
      then have "members_of R' gid m = members_of R gid m" using kept by simp
      moreover have "map_option fst (members_of R gid m) = Some (srv_Addr s)"
        using inv Some False unfolding sync_inv_def s(3) by (meson not_less)
      ultimately show ?thesis using Some s(3) by simp
    qed
  qed
qed

lemma sync_leaders:
  assumes inv: "sync_inv n S R" and leader: "group_leader S gid = Some m"
    and R': "apply_members lu (Members (MembershipUpdateAfter (lastUpdate R) S)) R = Inr R'"
  shows "group_leader R' gid = Some m"
proof -
  let ?mms = "filter (\<lambda>mm. mm_Group mm = gid) (Members (MembershipUpdateAfter (lastUpdate R) S))"
  have ok: "membership_ok S" "membership_ok R" using inv by (auto simp: sync_inv_def)
  have sok: "servers_ok (servers_of S gid)" by (rule servers_of_ok [OF ok(1)])
  obtain s where s: "s \<in> set (servers_of S gid)" "NodeId s = m" "srv_Leader s"
    using leader_Some [OF leader] by blast
  have only: "t = s" if "t \<in> set (servers_of S gid)" "NodeId t = m \<or> srv_Leader t" for t
  proof -
    have "NodeId t = m" using that leader leader_in [OF sok that(1)] by auto
    then show ?thesis using that(1) s(1,2) sok by (auto simp: servers_ok_def distinct_map inj_on_def)
  qed
  have mms: "mm \<in> set ?mms \<longleftrightarrow>
      (\<exists>t \<in> set (servers_of S gid). lastUpdate R < RaftIdx t \<and> mm = membership_of gid t)" for mm
    by (auto simp: reply_members_in [OF ok(1)])
  have fold: "group_leader R' gid =
      fold (\<lambda>mm. new_leader (mm_Id mm) (mm_Leader mm)) ?mms (group_leader R gid)"
    by (rule apply_members_leader [OF ok(2) R'])
  show ?thesis
  proof (cases "lastUpdate R < RaftIdx s")
    case True
    have "distinct (map mm_key ?mms)"
      using reply_keys_distinct [OF ok(1)] by (rule distinct_map_filter)
    moreover have "map mm_key ?mms = map (Pair gid) (map mm_Id ?mms)" by simp
    ultimately have "distinct (map (Pair gid) (map mm_Id ?mms))" by argo
    then have dist: "distinct (map mm_Id ?mms)" unfolding distinct_map [of "Pair gid"] by blast
    have mem: "membership_of gid s \<in> set ?mms" unfolding mms using True s(1) by blast
    have uniq: "\<forall>mm \<in> set ?mms. mm_Leader mm \<longrightarrow> mm = membership_of gid s"
    proof (intro ballI impI)
      fix mm assume "mm \<in> set ?mms" "mm_Leader mm"
      then obtain t where "t \<in> set (servers_of S gid)" "mm = membership_of gid t" "srv_Leader t"
        unfolding mms by auto
      then show "mm = membership_of gid s" using only by simp
    qed
    have "fold (\<lambda>mm. new_leader (mm_Id mm) (mm_Leader mm)) ?mms (group_leader R gid) =
        Some (mm_Id (membership_of gid s))"
      using new_leader_wins [OF mem _ dist uniq] s(3) by simp
    then show ?thesis using fold s(2) by simp
  next
    case False
    have "members_of S gid m = Some (srv_Addr s, RaftIdx s)" using entries_in [OF sok s(1)] s(2) by simp
    then have R: "group_leader R gid = Some m"
      using inv leader False unfolding sync_inv_def by (meson not_less)
    have "\<forall>mm \<in> set ?mms. mm_Id mm \<noteq> m \<and> \<not> mm_Leader mm"
    proof
      fix mm assume "mm \<in> set ?mms"
      then obtain t where t: "t \<in> set (servers_of S gid)" "mm = membership_of gid t" "t \<noteq> s"
        unfolding mms using False by blast
      then show "mm_Id mm \<noteq> m \<and> \<not> mm_Leader mm" using only [of t] by auto
    qed
    from new_leader_keeps [OF this] show ?thesis using fold R by simp
  qed
qed

lemma sync_inv_agree:
  assumes "sync_inv n S R" "membership_ok R'" "lastUpdate R' \<le> n"
    and addr: "\<And>gid m. map_option fst (members_of R' gid m) = map_option fst (members_of S gid m)"
    and "\<And>gid m. group_leader S gid = Some m \<Longrightarrow> group_leader R' gid = Some m"
  shows "sync_inv n S R'"
proof -
  have "members_of R' gid m = None" if "members_of S gid m = None" for gid m
    using addr [of gid m] that by simp
  moreover have "map_option fst (members_of R' gid m) = Some a" if "members_of S gid m = Some (a, i)" for gid m a i
    using addr [of gid m] that by simp
  ultimately show ?thesis using assms(1-3,5) unfolding sync_inv_def by blast
qed

lemma sync_step:
  assumes inv: "sync_inv n S R"
  shows "\<exists>R'. apply_reply (MembershipUpdateAfter (lastUpdate R) S) R = Inr R' \<and> sync_inv n S R' \<and>
    (\<forall>gid m. map_option fst (members_of R' gid m) = map_option fst (members_of S gid m)) \<and>
    (\<forall>gid m. group_leader S gid = Some m \<longrightarrow> group_leader R' gid = Some m)"
proof -
  let ?u = "MembershipUpdateAfter (lastUpdate R) S"
  have ok: "membership_ok S" "membership_ok R" using inv by (auto simp: sync_inv_def)
  obtain g where g: "apply_members (mu_LastUpdate ?u) (Members ?u) R = Inr g" "membership_ok g"
      "lastUpdate g = lastUpdate R"
    using apply_members_spec [OF ok(2) reply_keys_distinct [OF ok(1)]] by blast
  let ?R = "TouchLastUpdate (if Members ?u = [] then 0 else mu_LastUpdate ?u) g"
  have addr: "map_option fst (members_of ?R gid m) = map_option fst (members_of S gid m)" for gid m
    using sync_addresses [OF inv g(1)] by simp
  have lead: "group_leader ?R gid = Some m" if "group_leader S gid = Some m" for gid m
    using sync_leaders [OF inv that g(1)] by simp
  have "RaftIdx s \<le> n" if "(gid, sl) \<in> set (all_servers S)" "s \<in> set sl" for gid sl s
  proof -
    have "s \<in> set (servers_of S gid)" using that in_all_servers [OF ok(1)] by (simp add: servers_of_def)
    from entries_in [OF servers_of_ok [OF ok(1)] this] show ?thesis using inv unfolding sync_inv_def by blast
  qed
  then have "mu_LastUpdate ?u \<le> n"
    using inv by (auto simp: MembershipUpdateAfter_def sync_inv_def intro!: max_index_le)
  then have "lastUpdate ?R \<le> n" using inv g(3) by (simp add: sync_inv_def)
  then have "sync_inv n S ?R" using g(2) addr lead by (intro sync_inv_agree [OF inv]) simp_all
  moreover have "apply_reply ?u R = Inr ?R" by (simp add: apply_reply_def g(1))
  ultimately show ?thesis using addr lead by blast
qed

lemma cluster_reach_inv: "cluster_reach n S R \<Longrightarrow> sync_inv n S R"
proof (induction rule: cluster_reach.induct)
  case (sync n S R R')
  then show ?case using sync_step by fastforce
qed (auto intro: sync_inv_start sync_inv_log)

lemma UpdateMembership_reply:
  "UpdateMembership intn propose None req S = (Inr u, S') \<Longrightarrow> ServesGroup S 0 \<Longrightarrow>
     u = MembershipUpdateAfter (mu_LastUpdate req) S'"
  by (auto simp: UpdateMembership_def split: prod.splits option.splits)

lemma syncMemberships_reply:
  assumes "\<not> ServesGroup R 0" "AnyServer intn R 0 = Inr addr"
    "pool_Get (dial net) (if addr \<noteq> [] then pools_get ps addr else pools_any ps) = Inr (conn, p)"
    "rpc net conn (sync_request R) = Inr u" "\<not> Redirect u" "apply_reply u R = Inr R'"
  shows "syncMemberships net intn myAddr R ps =
    Some (Inr (R', put_back (close_conn net) [(pool_Addr p, conn)] (set_pool p ps), []))"
proof -
  have "sync_loop net myAddr (sync_request R) addr ps [] =
      Some (Inr (Some u, set_pool p ps, [(pool_Addr p, conn)]))"
    using assms(3-5) by (subst sync_loop.simps) simp
  then show ?thesis using assms(1,2,6) by (simp add: syncMemberships_def)
qed

section \<open>Properties\<close>

text \<open>
  C22: in every state reached by updates, whatever their order, a known group has at least one server,
  no server twice and no leader behind its first server. So the next update succeeds, and asking for
  any server or for the leader of a group never panics; after the update the group is the old one with
  this server's address replaced, led by it if the update says so.
\<close>

theorem membership_updates_refine:
  assumes "membership_reach g" "\<forall>n > 0. intn n < n"
  shows "(\<forall>gid. servers_ok (servers_of g gid)) \<and>
    (\<forall>gid. \<exists>l. groups_Leader g gid = Inr l) \<and>
    (\<forall>gid. \<exists>a. AnyServer intn g gid = Inr a \<and>
       (servers_of g gid = [] \<or> a \<in> srv_Addr ` set (servers_of g gid))) \<and>
    (\<exists>g'. applyMembershipUpdate i mm g = Inr g' \<and> membership_reach g' \<and>
      (\<forall>gid. members_of g' gid = (if gid = mm_Group mm
         then (members_of g gid)(mm_Id mm \<mapsto> (mm_Addr mm, i)) else members_of g gid)) \<and>
      (\<forall>gid. group_leader g' gid = (if gid = mm_Group mm
         then new_leader (mm_Id mm) (mm_Leader mm) (group_leader g gid) else group_leader g gid)) \<and>
      (mm_Leader mm \<longrightarrow> groups_Leader g' (mm_Group mm) = Inr (mm_Id mm, mm_Addr mm)))"
proof -
  have ok: "membership_ok g" by (rule membership_reach_ok [OF assms(1)])
  have nonempty: "map_of (all_servers g) gid \<noteq> Some []" for gid
    using ok by (auto simp: membership_ok_def dest!: map_of_SomeD)
  obtain g' where g': "applyMembershipUpdate i mm g = Inr g'" "membership_ok g'"
      "\<forall>gid. members_of g' gid = (if gid = mm_Group mm
         then (members_of g gid)(mm_Id mm \<mapsto> (mm_Addr mm, i)) else members_of g gid)"
      "\<forall>gid. group_leader g' gid = (if gid = mm_Group mm
         then new_leader (mm_Id mm) (mm_Leader mm) (group_leader g gid) else group_leader g gid)"
    using applyMembershipUpdate_spec [OF ok, of i mm] by blast
  have "groups_Leader g' (mm_Group mm) = Inr (mm_Id mm, mm_Addr mm)" if "mm_Leader mm"
  proof -
    have l: "group_leader g' (mm_Group mm) = Some (mm_Id mm)" using g'(4) that by (simp add: new_leader_def)
    have e: "members_of g' (mm_Group mm) (mm_Id mm) = Some (mm_Addr mm, i)" using g'(3) by simp
    from l obtain s ss where "map_of (all_servers g') (mm_Group mm) = Some (s # ss)" "NodeId s = mm_Id mm"
      by (auto simp: servers_of_def leader_of_def split: option.splits list.splits if_splits)
    with e show ?thesis by (simp add: groups_Leader_def servers_of_def srv_entries_def entry_def)
  qed
  moreover have "\<exists>l. groups_Leader g gid = Inr l" for gid
    using nonempty [of gid] by (auto simp: groups_Leader_def split: option.splits list.splits)
  moreover have "\<exists>a. AnyServer intn g gid = Inr a \<and>
      (servers_of g gid = [] \<or> a \<in> srv_Addr ` set (servers_of g gid))" for gid
    using nonempty [of gid] assms(2) by (auto simp: AnyServer_def servers_of_def split: option.splits)
  ultimately show ?thesis
    using g' servers_of_ok [OF ok] membership_reach.apply_update [OF assms(1) g'(1)] by blast
qed


definition mm_example :: "u64 \<Rightarrow> bool \<Rightarrow> membership" where
  "mm_example n leads = \<lparr>mm_Id = n, mm_Group = 0, mm_Addr = ''a'', mm_Leader = leads\<rparr>"

definition g_example :: "server list \<Rightarrow> u64 \<Rightarrow> groupi" where
  "g_example sl lu = \<lparr>local_nodes = [], all_servers = (if sl = [] then [] else [(0, sl)]), lastUpdate = lu\<rparr>"

definition s_example :: "u64 \<Rightarrow> bool \<Rightarrow> u64 \<Rightarrow> server" where
  "s_example n leads i = \<lparr>NodeId = n, srv_Addr = ''a'', srv_Leader = leads, RaftIdx = i\<rparr>"

lemma example_update_1: "update_servers (s_example 1 True 1) [] = Inr [s_example 1 True 1]"
  by (simp add: update_servers_def remove_node_absent s_example_def demote_def move_leader_def)

lemma example_update_2: "update_servers (s_example 2 True 2) [s_example 1 True 1] =
    Inr [s_example 2 True 2, s_example 1 False 1]"
  by (simp add: update_servers_def remove_node_absent s_example_def demote_def move_leader_def)

lemma example_update_3: "update_servers (s_example 2 False 3) [s_example 2 True 2, s_example 1 False 1] =
    Inr [s_example 1 False 1, s_example 2 False 3]"
  using remove_node_present [of "[]" "[s_example 1 False 1]" 2 "s_example 2 True 2"]
  by (simp add: update_servers_def s_example_def demote_def move_leader_def)

lemma example_update_4: "update_servers (s_example 2 False 3) [s_example 1 True 1] =
    Inr [s_example 1 True 1, s_example 2 False 3]"
  by (simp add: update_servers_def remove_node_absent s_example_def demote_def move_leader_def)

lemmas example_simps = applyMembershipUpdate_def update_of_def servers_of_def mm_example_def g_example_def
  apply_reply_def TouchLastUpdate_def MembershipUpdateAfter_def members_after_def max_index_def

lemma example_apply:
  "update_servers (s_example n leads i) sl = Inr sl' \<Longrightarrow> sl' \<noteq> [] \<Longrightarrow>
     applyMembershipUpdate i (mm_example n leads) (g_example sl lu) = Inr (g_example sl' lu)"
  by (cases "sl = []") (simp_all add: example_simps s_example_def)

lemma example_sync_1:
  "apply_reply (MembershipUpdateAfter 0 (g_example [s_example 1 True 1] 0)) (g_example [] 0) =
    Inr (g_example [s_example 1 True 1] 1)"
  using example_update_1 by (simp add: example_simps s_example_def)

lemma example_sync_2:
  "apply_reply (MembershipUpdateAfter 1 (g_example [s_example 1 False 1, s_example 2 False 3] 0))
      (g_example [s_example 1 True 1] 1) = Inr (g_example [s_example 1 True 1, s_example 2 False 3] 3)"
  using example_update_4 by (simp add: example_simps s_example_def word_le_nat_alt word_less_nat_alt)

theorem membership_updates_refine_witness:
  "\<exists>g'. applyMembershipUpdate 1 (mm_example 1 True) (g_example [] 0) = Inr g' \<and>
     groups_Leader g' 0 = Inr (1, ''a'')"
proof -
  have "membership_reach (g_example [] 0)" by (rule membership_reach.start) (simp add: g_example_def)
  from membership_updates_refine [OF this, of "\<lambda>n. 0" 1 "mm_example 1 True"]
  show ?thesis by (auto simp: mm_example_def)
qed

text \<open>
  C23: a synchronisation with a server of group zero brings a server up to date. Take any sequence of log
  entries and earlier synchronisations, and let the server reached hand out its answer to the
  request after applying the proposals in it. Then the call returns, and the caller knows exactly the
  servers of the other, with their addresses, and the leader of every group that has one there.
\<close>

theorem sync_brings_up_to_date:
  assumes "cluster_reach n S' R" "\<not> ServesGroup R 0" "AnyServer intn R 0 = Inr addr"
    and "pool_Get (dial net) (if addr \<noteq> [] then pools_get ps addr else pools_any ps) = Inr (conn, p)"
    and "ServesGroup S 0" "UpdateMembership intn' propose None (sync_request R) S = (Inr reply, S')"
    and "rpc net conn (sync_request R) = Inr reply"
  shows "\<exists>R' ps'. syncMemberships net intn myAddr R ps = Some (Inr (R', ps', [])) \<and>
    (\<forall>gid m. map_option fst (members_of R' gid m) = map_option fst (members_of S' gid m)) \<and>
    (\<forall>gid m. group_leader S' gid = Some m \<longrightarrow> group_leader R' gid = Some m)"
proof -
  have reply: "reply = MembershipUpdateAfter (lastUpdate R) S'"
    using UpdateMembership_reply [OF assms(6,5)] by (simp add: sync_request_def)
  obtain R' where R': "apply_reply reply R = Inr R'"
      "\<forall>gid m. map_option fst (members_of R' gid m) = map_option fst (members_of S' gid m)"
      "\<forall>gid m. group_leader S' gid = Some m \<longrightarrow> group_leader R' gid = Some m"
    using sync_step [OF cluster_reach_inv [OF assms(1)]] unfolding reply by blast
  have "\<not> Redirect reply" by (simp add: reply MembershipUpdateAfter_def)
  from syncMemberships_reply [OF assms(2-4,7) this R'(1)] R'(2,3) show ?thesis by blast
qed

definition zero_example :: "server list \<Rightarrow> groupi" where
  "zero_example sl = (g_example sl 0)\<lparr>local_nodes := [(0, newNode 0 1 ''a'')]\<rparr>"

definition net_example :: "membershipUpdate \<Rightarrow> unit net" where
  "net_example u = \<lparr>dial = \<lambda>_. Inr (), close_conn = \<lambda>_. Inr (), echo = \<lambda>_. Inr True, rpc = \<lambda>_ _. Inr u\<rparr>"

theorem sync_brings_up_to_date_witness:
  "\<exists>R' ps'. syncMemberships (net_example (MembershipUpdateAfter 0 (zero_example [s_example 1 True 1])))
      (\<lambda>n. 0) ''b'' (g_example [] 0) [(''a'', \<lparr>conns = [()], maxCap = 5, pool_Addr = ''a''\<rparr>)] =
      Some (Inr (R', ps', [])) \<and> group_leader R' 0 = Some 1"
proof -
  let ?S = "zero_example [s_example 1 True 1]" and ?R = "g_example [] 0"
  let ?u = "MembershipUpdateAfter 0 ?S" and ?ps = "[(''a'', \<lparr>conns = [()], maxCap = 5, pool_Addr = ''a''\<rparr>)]"
  have "cluster_reach 0 (zero_example []) ?R"
    by (rule cluster_reach.start) (simp_all add: zero_example_def g_example_def)
  moreover have "applyMembershipUpdate 1 (mm_example 1 True) (zero_example []) = Inr ?S"
    using example_update_1 by (simp add: example_simps zero_example_def s_example_def)
  ultimately have "cluster_reach 1 ?S ?R" using cluster_reach.log_entry [of 0 _ _ 1] by simp
  moreover have "\<not> ServesGroup ?R 0" by (simp add: ServesGroup_def g_example_def)
  moreover have "AnyServer (\<lambda>n. 0) ?R 0 = Inr []" by (simp add: AnyServer_def g_example_def)
  moreover have "pool_Get (dial (net_example ?u)) (if [] \<noteq> ([] :: bytes) then pools_get ?ps [] else pools_any ?ps) =
      Inr ((), \<lparr>conns = [], maxCap = 5, pool_Addr = ''a''\<rparr>)"
    by (simp add: pool_Get_def pools_any_def)
  moreover have "ServesGroup ?S 0" by (simp add: ServesGroup_def zero_example_def)
  moreover have "UpdateMembership (\<lambda>n. 0) (\<lambda>_ g. (None, g)) None (sync_request ?R) ?S = (Inr ?u, ?S)"
    by (simp add: UpdateMembership_def ServesGroup_def sync_request_def zero_example_def g_example_def
        emptyMembershipUpdate_def)
  moreover have "rpc (net_example ?u) () (sync_request ?R) = Inr ?u" by (simp add: net_example_def)
  ultimately have "\<exists>R' ps'. syncMemberships (net_example ?u) (\<lambda>n. 0) ''b'' ?R ?ps = Some (Inr (R', ps', [])) \<and>
      (\<forall>gid m. map_option fst (members_of R' gid m) = map_option fst (members_of ?S gid m)) \<and>
      (\<forall>gid m. group_leader ?S gid = Some m \<longrightarrow> group_leader R' gid = Some m)"
    by (rule sync_brings_up_to_date)
  moreover have "group_leader ?S 0 = Some 1"
    by (simp add: servers_of_def g_example_def zero_example_def s_example_def leader_of_def)
  ultimately show ?thesis by blast
qed

text \<open>
  C24: a synchronisation does not always take back a leader. A server that loses the lead to another has
  its flag cleared without a new index, so when the new leader steps down before the next
  synchronisation, the flag is not sent: group zero knows no leader, the other server still has the old
  one.
\<close>

theorem sync_keeps_stale_leader:
  "\<exists>n S R R'. cluster_reach n S R \<and> apply_reply (MembershipUpdateAfter (lastUpdate R) S) R = Inr R' \<and>
     group_leader S 0 = None \<and> group_leader R' 0 = Some 1"
proof -
  have "cluster_reach 0 (g_example [] 0) (g_example [] 0)"
    by (rule cluster_reach.start) (simp_all add: g_example_def)
  then have "cluster_reach 1 (g_example [s_example 1 True 1] 0) (g_example [] 0)"
    by (rule cluster_reach.log_entry [OF _ _ example_apply [OF example_update_1]]) simp_all
  then have "cluster_reach 1 (g_example [s_example 1 True 1] 0) (g_example [s_example 1 True 1] 1)"
    by (rule cluster_reach.sync) (use example_sync_1 in \<open>simp add: g_example_def\<close>)
  then have "cluster_reach 2 (g_example [s_example 2 True 2, s_example 1 False 1] 0) (g_example [s_example 1 True 1] 1)"
    by (rule cluster_reach.log_entry [OF _ _ example_apply [OF example_update_2]]) simp_all
  then have "cluster_reach 3 (g_example [s_example 1 False 1, s_example 2 False 3] 0) (g_example [s_example 1 True 1] 1)"
    by (rule cluster_reach.log_entry [OF _ _ example_apply [OF example_update_3]]) simp_all
  moreover have "lastUpdate (g_example [s_example 1 True 1] 1) = 1" by (simp add: g_example_def)
  moreover have "group_leader (g_example [s_example 1 False 1, s_example 2 False 3] 0) 0 = None"
      "group_leader (g_example [s_example 1 True 1, s_example 2 False 3] 3) 0 = Some 1"
    by (simp_all add: servers_of_def g_example_def s_example_def leader_of_def)
  ultimately show ?thesis using example_sync_2 by metis
qed

end
