(* ===== verification/Go_Strconv.thy ===== *)
theory Go_Strconv
  imports Go_Strings
begin

text \<open>
  The parts of Go's packages \<^verbatim>\<open>strconv\<close> and \<^verbatim>\<open>strings\<close> that the parsers use: integers whose prefix
  selects the base, and the trimming and replacing of single bytes.
\<close>

text \<open>\<^verbatim>\<open>strconv.ParseUint(s, 0, 64)\<close>: the prefix of the digits selects the base.\<close>

definition base_digit :: "char \<Rightarrow> int" where
  "base_digit c =
     (let n = of_char c in
      if 48 \<le> n \<and> n \<le> 57 then n - 48 else if 97 \<le> n \<and> n \<le> 122 then n - 87
      else if 65 \<le> n \<and> n \<le> 90 then n - 55 else 36)"

definition base_val :: "int \<Rightarrow> bytes \<Rightarrow> int" where
  "base_val b s = foldl (\<lambda>n c. n * b + base_digit c) 0 s"

definition base_split :: "bytes \<Rightarrow> int \<times> bytes" where
  "base_split s =
     (if HasPrefix s ''0x'' \<or> HasPrefix s ''0X'' then (16, drop 2 s)
      else if HasPrefix s ''0'' then (8, s) else (10, s))"

definition ParseUint0 :: "bytes \<Rightarrow> u64 go" where
  "ParseUint0 s =
     (case base_split s of (b, ds) \<Rightarrow>
        if ds = [] \<or> \<not> list_all (\<lambda>c. base_digit c < b) ds then Inl (Err ''invalid syntax'')
        else if 2 ^ 64 \<le> base_val b ds then Inl (Err ''value out of range'')
        else Inr (word_of_int (base_val b ds)))"

text \<open>\<^verbatim>\<open>strings.Trim(s, " ")\<close> and \<^verbatim>\<open>strings.Replace(s, a, b, -1)\<close> for single bytes.\<close>

definition Trim_spaces :: "bytes \<Rightarrow> bytes" where
  "Trim_spaces s =
     rev (dropWhile (\<lambda>c. c = CHR '' '') (rev (dropWhile (\<lambda>c. c = CHR '' '') s)))"

definition Replace_byte :: "bytes \<Rightarrow> char \<Rightarrow> char \<Rightarrow> bytes" where
  "Replace_byte s a b = map (\<lambda>c. if c = a then b else c) s"

text \<open>\<^verbatim>\<open>strconv.ParseInt(s, 0, 64)\<close>.\<close>

definition ParseInt0 :: "bytes \<Rightarrow> int go" where
  "ParseInt0 s =
     (let neg = HasPrefix s ''-'';
          rest = (if HasPrefix s ''-'' \<or> HasPrefix s ''+'' then drop 1 s else s)
      in go_bind (ParseUint0 rest) (\<lambda>n.
        if \<not> neg \<and> 2 ^ 63 \<le> uint n \<or> neg \<and> 2 ^ 63 < uint n then Inl (Err ''value out of range'')
        else Inr (if neg then - uint n else uint n)))"

text \<open>Outcomes other than a run-time panic.\<close>

definition no_panic :: "'a go \<Rightarrow> bool" where
  "no_panic m \<longleftrightarrow> (\<forall>e. m \<noteq> Inl (Panic e))"

lemma no_panic_simps [simp]:
  "no_panic (Inr x)" "no_panic (Inl (Err e))" "no_panic (Inl (Fatal e))" "\<not> no_panic (Inl (Panic e))"
  by (simp_all add: no_panic_def)

lemma no_panic_bind [intro!]:
  "no_panic m \<Longrightarrow> (\<And>x. m = Inr x \<Longrightarrow> no_panic (f x)) \<Longrightarrow> no_panic (go_bind m f)"
  by (cases m) (simp_all add: no_panic_def)

lemma no_panic_ParseUint0 [simp]: "no_panic (ParseUint0 s)"
  by (simp add: ParseUint0_def split: prod.split)

lemma no_panic_ParseInt0 [simp]: "no_panic (ParseInt0 s)"
  by (auto simp: ParseInt0_def Let_def)

end
