(* ===== verification/Geo_Index.thy ===== *)
theory Geo_Index
  imports Token_Index Go_Strconv
begin

text \<open>
  The index of geometries, \<^verbatim>\<open>geo/s2index.go\<close>, \<^verbatim>\<open>geo/filter.go\<close>, \<^verbatim>\<open>geo/s2.go\<close> and \<^verbatim>\<open>geo/earth.go\<close>: the
  tokens under which a geometry is stored, the tokens a query looks up, and the filter applied to what
  they find. The decoded geometries of \<^verbatim>\<open>go-geom\<close> and the points, loops, caps and cells of the S2 library
  are abstract, with their operations in a record of parameters. Results: an object that matches a
  query shares a token with it, except that two points may differ by a rounding error, and the filter
  keeps exactly the matches.
\<close>

section \<open>The libraries\<close>

datatype geom_kind = GeomPoint | GeomPolygon | GeomOther

type_synonym coord = "u64 \<times> u64"

text \<open>What the covering algorithm asks of a region.\<close>

record ('cap, 'rect, 'cell) region =
  CapBound :: 'cap
  RectBound :: 'rect
  reg_ContainsCell :: "'cell \<Rightarrow> bool"
  reg_IntersectsCell :: "'cell \<Rightarrow> bool"

record ('g, 'pt, 'loop, 'cap, 'cell, 'rect) s2_lib =
  geom_kind :: "'g \<Rightarrow> geom_kind"
  Stride :: "'g \<Rightarrow> nat"
  Coords :: "'g \<Rightarrow> coord"
  LinearRing0 :: "'g \<Rightarrow> coord list"
  PointFromLatLng :: "u64 \<Rightarrow> u64 \<Rightarrow> 'pt"
  LoopFromPoints :: "'pt list \<Rightarrow> 'loop"
  LoopCapBound :: "'loop \<Rightarrow> 'cap"
  CapRadiusDegrees :: "'cap \<Rightarrow> u64"
  ApproxEqual :: "'pt \<Rightarrow> 'pt \<Rightarrow> bool"
  LoopContainsPoint :: "'loop \<Rightarrow> 'pt \<Rightarrow> bool"
  CapFromCenterAngle :: "'pt \<Rightarrow> u64 \<Rightarrow> 'cap"
  CapContainsPoint :: "'cap \<Rightarrow> 'pt \<Rightarrow> bool"
  CapRectBound :: "'cap \<Rightarrow> 'rect"
  CapContainsCell :: "'cap \<Rightarrow> 'cell \<Rightarrow> bool"
  CapIntersectsCell :: "'cap \<Rightarrow> 'cell \<Rightarrow> bool"
  CellIDFromLatLng :: "u64 \<Rightarrow> u64 \<Rightarrow> 'cell"
  CellParent :: "'cell \<Rightarrow> nat \<Rightarrow> 'cell"
  CellLevel :: "'cell \<Rightarrow> nat"
  ToToken :: "'cell \<Rightarrow> bytes"
  CellVertex :: "'cell \<Rightarrow> nat \<Rightarrow> 'pt"
  CellRectBound :: "'cell \<Rightarrow> 'rect"
  CellContainsPoint :: "'cell \<Rightarrow> 'pt \<Rightarrow> bool"
  Covering :: "nat \<Rightarrow> nat \<Rightarrow> nat \<Rightarrow> nat \<Rightarrow> ('cap, 'rect, 'cell) region \<Rightarrow> 'cell list"
  LoopNumEdges :: "'loop \<Rightarrow> nat"
  LoopVertices :: "'loop \<Rightarrow> 'pt list"
  LoopRectBound :: "'loop \<Rightarrow> 'rect"
  RectIntersects :: "'rect \<Rightarrow> 'rect \<Rightarrow> bool"
  RectContains :: "'rect \<Rightarrow> 'rect \<Rightarrow> bool"
  RectContainsCell :: "'rect \<Rightarrow> 'cell \<Rightarrow> bool"
  RectIntersectsCell :: "'rect \<Rightarrow> 'cell \<Rightarrow> bool"
  EdgeOrVertexCrossing :: "'pt \<Rightarrow> 'pt \<Rightarrow> 'pt \<Rightarrow> 'pt \<Rightarrow> bool"

section \<open>Distances\<close>

definition EarthRadiusMeters :: int where "EarthRadiusMeters = 1000 * 6371"

definition EarthAngle :: "u64 \<Rightarrow> u64" where
  "EarthAngle d = fl_div_int d EarthRadiusMeters"

section \<open>Loops as regions\<close>

definition LoopVertex :: "('g, 'pt, 'loop, 'cap, 'cell, 'rect) s2_lib \<Rightarrow> 'loop \<Rightarrow> nat \<Rightarrow> 'pt" where
  "LoopVertex L l i = LoopVertices L l ! (i mod length (LoopVertices L l))"

text \<open>
  A crosser of the edge from \<open>a\<close> to \<open>b\<close> follows a chain of vertices: every further vertex is tested with
  the one before it. The chain starts at a vertex of the points given, not of the loop.
\<close>

fun chain_crosses :: "('g, 'pt, 'loop, 'cap, 'cell, 'rect) s2_lib \<Rightarrow> 'pt \<Rightarrow> 'pt \<Rightarrow> 'pt \<Rightarrow> 'pt list \<Rightarrow> bool" where
  "chain_crosses L a b c [] = False"
| "chain_crosses L a b c (d # ds) = (if EdgeOrVertexCrossing L a b c d then True else chain_crosses L a b d ds)"

definition edgesCrossPoints :: "('g, 'pt, 'loop, 'cap, 'cell, 'rect) s2_lib \<Rightarrow> 'loop \<Rightarrow> 'pt list \<Rightarrow> bool" where
  "edgesCrossPoints L l pts =
     (let n = length pts in
      list_ex (\<lambda>i. chain_crosses L (pts ! i) (pts ! ((i + 1) mod n)) (pts ! 0)
                     (map (LoopVertex L l) [1..<LoopNumEdges L l + 1])) [0..<n])"

definition edgesCross :: "('g, 'pt, 'loop, 'cap, 'cell, 'rect) s2_lib \<Rightarrow> 'loop \<Rightarrow> 'cell \<Rightarrow> bool" where
  "edgesCross L l c = edgesCrossPoints L l (map (CellVertex L c) [0, 1, 2, 3])"

definition ContainsCell :: "('g, 'pt, 'loop, 'cap, 'cell, 'rect) s2_lib \<Rightarrow> 'loop \<Rightarrow> 'cell \<Rightarrow> bool" where
  "ContainsCell L l c =
     (if \<not> RectContainsCell L (LoopRectBound L l) c then False
      else if \<not> LoopContainsPoint L l (CellVertex L c 0) then False
      else \<not> edgesCross L l c)"

definition IntersectsCell :: "('g, 'pt, 'loop, 'cap, 'cell, 'rect) s2_lib \<Rightarrow> 'loop \<Rightarrow> 'cell \<Rightarrow> bool" where
  "IntersectsCell L l c =
     (if \<not> RectIntersectsCell L (LoopRectBound L l) c then False
      else if LoopContainsPoint L l (CellVertex L c 0) then True
      else if edgesCross L l c then True
      else if RectContains L (CellRectBound L c) (LoopRectBound L l)
      then CellContainsPoint L c (LoopVertex L l 0)
      else False)"

definition loop_intersects :: "('g, 'pt, 'loop, 'cap, 'cell, 'rect) s2_lib \<Rightarrow> 'loop \<Rightarrow> 'loop \<Rightarrow> bool" where
  "loop_intersects L l loop =
     (if \<not> RectIntersects L (LoopRectBound L l) (LoopRectBound L loop) then False
      else if LoopContainsPoint L l (LoopVertex L loop 0) then True
      else if edgesCrossPoints L l (LoopVertices L loop) then True
      else if RectContains L (LoopRectBound L loop) (LoopRectBound L l)
      then LoopContainsPoint L loop (LoopVertex L l 0)
      else False)"

definition Intersects :: "('g, 'pt, 'loop, 'cap, 'cell, 'rect) s2_lib \<Rightarrow> 'loop \<Rightarrow> 'loop \<Rightarrow> bool" where
  "Intersects L l1 l2 =
     (if LoopNumEdges L l2 > LoopNumEdges L l1 then loop_intersects L l2 l1
      else loop_intersects L l1 l2)"

section \<open>Cells of a geometry\<close>

definition parentPrefix :: bytes where "parentPrefix = ''p/''"
definition coverPrefix :: bytes where "coverPrefix = ''c/''"
definition MinCellLevel :: nat where "MinCellLevel = 5"
definition MaxCellLevel :: nat where "MaxCellLevel = 16"
definition MaxCells :: nat where "MaxCells = 18"

definition appendTokens :: "('g, 'pt, 'loop, 'cap, 'cell, 'rect) s2_lib \<Rightarrow> bytes list \<Rightarrow> 'cell list \<Rightarrow> bytes \<Rightarrow> bytes list" where
  "appendTokens L toks cu pre = fold (\<lambda>c toks. toks @ [pre @ ToToken L c]) cu toks"

definition toTokens :: "('g, 'pt, 'loop, 'cap, 'cell, 'rect) s2_lib \<Rightarrow> 'cell list \<Rightarrow> bytes \<Rightarrow> bytes list" where
  "toTokens L cu pre = appendTokens L [] cu pre"

definition parentCoverTokens ::
  "('g, 'pt, 'loop, 'cap, 'cell, 'rect) s2_lib \<Rightarrow> 'cell list \<Rightarrow> 'cell list \<Rightarrow> bytes list go" where
  "parentCoverTokens L parents cover =
     (let tokens = appendTokens L (appendTokens L [] parents parentPrefix) cover coverPrefix in
      go_bind (assertTruef (length tokens = length parents + length cover) ''Assert failed'') (\<lambda>_. Inr tokens))"

definition indexCellsForCap :: "('g, 'pt, 'loop, 'cap, 'cell, 'rect) s2_lib \<Rightarrow> 'cap \<Rightarrow> 'cell list" where
  "indexCellsForCap L c =
     Covering L MinCellLevel MaxCellLevel 0 MaxCells
       \<lparr>CapBound = c, RectBound = CapRectBound L c, reg_ContainsCell = CapContainsCell L c,
        reg_IntersectsCell = CapIntersectsCell L c\<rparr>"

definition coverLoop :: "('g, 'pt, 'loop, 'cap, 'cell, 'rect) s2_lib \<Rightarrow> 'loop \<Rightarrow> nat \<Rightarrow> nat \<Rightarrow> nat \<Rightarrow> 'cell list" where
  "coverLoop L l minLevel maxLevel maxCells =
     Covering L minLevel maxLevel 0 maxCells
       \<lparr>CapBound = LoopCapBound L l, RectBound = LoopRectBound L l, reg_ContainsCell = ContainsCell L l,
        reg_IntersectsCell = IntersectsCell L l\<rparr>"

text \<open>Coordinates are longitude and latitude.\<close>

definition pointFromCoord :: "('g, 'pt, 'loop, 'cap, 'cell, 'rect) s2_lib \<Rightarrow> coord \<Rightarrow> 'pt" where
  "pointFromCoord L r = PointFromLatLng L (snd r) (fst r)"

definition pointFromPoint :: "('g, 'pt, 'loop, 'cap, 'cell, 'rect) s2_lib \<Rightarrow> 'g \<Rightarrow> 'pt" where
  "pointFromPoint L g = pointFromCoord L (Coords L g)"

text \<open>The shoelace formula in floating point.\<close>

definition isClockwise :: "coord list \<Rightarrow> bool" where
  "isClockwise r =
     (let n = length r;
          a = fold (\<lambda>i a.
                let p1 = r ! i; p2 = r ! ((i + 1) mod n) in
                fl_add a (fl_mul (fl_sub (fst p2) (fst p1)) (fl_add (snd p1) (snd p2)))) [0..<n] 0
      in fl_gt_int a 0)"

definition loopFromRing :: "('g, 'pt, 'loop, 'cap, 'cell, 'rect) s2_lib \<Rightarrow> coord list \<Rightarrow> bool \<Rightarrow> 'loop" where
  "loopFromRing L r rv =
     (let n = length r in
      LoopFromPoints L (map (\<lambda>i. pointFromCoord L (if rv then r ! (n - 1 - i) else r ! i)) [0..<n - 1]))"

definition loopFromPolygon :: "('g, 'pt, 'loop, 'cap, 'cell, 'rect) s2_lib \<Rightarrow> 'g \<Rightarrow> 'loop go" where
  "loopFromPolygon L p =
     (let r = LinearRing0 L p in
      if length r < 4 then Inl (Err ''Can't convert ring with less than 4 pts'')
      else
        let rv = isClockwise r; l = loopFromRing L r rv in
        Inr (if fl_gt_int (CapRadiusDegrees L (LoopCapBound L l)) 90 then loopFromRing L r (\<not> rv) else l))"

definition indexCellsForPoint ::
  "('g, 'pt, 'loop, 'cap, 'cell, 'rect) s2_lib \<Rightarrow> 'g \<Rightarrow> nat \<Rightarrow> nat \<Rightarrow> ('cell list \<times> 'cell list) go" where
  "indexCellsForPoint L p minLevel maxLevel =
     (if maxLevel < minLevel then Inl (Fatal ''Maxlevel should be greater than minLevel'')
      else
        let c = CellIDFromLatLng L (snd (Coords L p)) (fst (Coords L p)) in
        Inr (map (CellParent L c) [minLevel..<maxLevel + 1], [CellParent L c maxLevel]))"

text \<open>The parents are collected in a map; their order is that of the first occurrences here.\<close>

definition getParentCells :: "('g, 'pt, 'loop, 'cap, 'cell, 'rect) s2_lib \<Rightarrow> 'cell list \<Rightarrow> nat \<Rightarrow> 'cell list" where
  "getParentCells L cu minLevel =
     remdups (concat (map (\<lambda>c. map (CellParent L c) (rev [minLevel..<CellLevel L c + 1])) cu))"

definition indexCells ::
  "('g, 'pt, 'loop, 'cap, 'cell, 'rect) s2_lib \<Rightarrow> 'g \<Rightarrow> ('cell list \<times> 'cell list) go" where
  "indexCells L g =
     (if Stride L g \<noteq> 2 then Inl (Err ''Covering only available for 2D co-ordinates.'')
      else
        case geom_kind L g of
          GeomPoint \<Rightarrow> indexCellsForPoint L g MinCellLevel MaxCellLevel
        | GeomPolygon \<Rightarrow>
            go_bind (loopFromPolygon L g) (\<lambda>l.
              let cover = coverLoop L l MinCellLevel MaxCellLevel MaxCells in
              Inr (getParentCells L cover MinCellLevel, cover))
        | GeomOther \<Rightarrow> Inl (Err ''Cannot index geometry of this type''))"

definition geo_IndexTokens :: "('g, 'pt, 'loop, 'cap, 'cell, 'rect) s2_lib \<Rightarrow> 'g \<Rightarrow> bytes list go" where
  "geo_IndexTokens L g =
     go_bind (indexCells L g) (\<lambda>(parents, cover). parentCoverTokens L parents cover)"

section \<open>Queries\<close>

datatype query_type = QueryTypeWithin | QueryTypeContains | QueryTypeIntersects | QueryTypeNear

record ('pt, 'loop, 'cap) query_data =
  qd_pt :: "'pt option"
  qd_loop :: "'loop option"
  qd_cap :: "'cap option"
  qtype :: query_type

definition IsGeoFunc :: "bytes \<Rightarrow> bool" where
  "IsGeoFunc s \<longleftrightarrow> s = ''near'' \<or> s = ''contains'' \<or> s = ''within'' \<or> s = ''intersects''"

text \<open>A comparison with a number that is not one is false.\<close>

definition nearQueryKeys ::
  "('g, 'pt, 'loop, 'cap, 'cell, 'rect) s2_lib \<Rightarrow> 'pt \<Rightarrow> u64 \<Rightarrow> (bytes list \<times> ('pt, 'loop, 'cap) query_data) go"
where
  "nearQueryKeys L pt d =
     (if \<not> fl_is_nan d \<and> \<not> fl_gt_int d 0
      then Inl (Err ''Invalid max distance specified for a near query'')
      else
        let c = CapFromCenterAngle L pt (EarthAngle d);
            cu = indexCellsForCap L c in
        Inr (toTokens L cu parentPrefix,
             \<lparr>qd_pt = None, qd_loop = None, qd_cap = Some c, qtype = QueryTypeNear\<rparr>))"

definition geo_input ::
  "('g, 'pt, 'loop, 'cap, 'cell, 'rect) s2_lib \<Rightarrow> 'g \<Rightarrow> ('loop option \<times> 'pt option) go" where
  "geo_input L g =
     (case geom_kind L g of
        GeomPoint \<Rightarrow> Inr (None, Some (pointFromPoint L g))
      | GeomPolygon \<Rightarrow> go_bind (loopFromPolygon L g) (\<lambda>l. Inr (Some l, None))
      | GeomOther \<Rightarrow> Inl (Err ''Cannot query using a geometry of this type''))"

definition queryTokens ::
  "('g, 'pt, 'loop, 'cap, 'cell, 'rect) s2_lib \<Rightarrow> (bytes \<Rightarrow> 'g go) \<Rightarrow> query_type \<Rightarrow> bytes \<Rightarrow> u64
    \<Rightarrow> (bytes list \<times> ('pt, 'loop, 'cap) query_data) go" where
  "queryTokens L fromJSON qt data maxDistance =
     go_bind (fromJSON (Replace_byte data (CHR 0x27) (CHR 0x22))) (\<lambda>g.
       go_bind (geo_input L g) (\<lambda>(l, pt).
         go_bind (indexCells L g) (\<lambda>(parents, cover).
           case qt of
             QueryTypeWithin \<Rightarrow>
               Inr (toTokens L cover parentPrefix, \<lparr>qd_pt = pt, qd_loop = l, qd_cap = None, qtype = qt\<rparr>)
           | QueryTypeContains \<Rightarrow>
               if l \<noteq> None then Inl (Err ''Cannot use a polygon in a contains query'')
               else Inr (toTokens L parents coverPrefix,
                         \<lparr>qd_pt = pt, qd_loop = None, qd_cap = None, qtype = qt\<rparr>)
           | QueryTypeNear \<Rightarrow>
               (case (l, pt) of
                  (None, Some p) \<Rightarrow> nearQueryKeys L p maxDistance
                | _ \<Rightarrow> Inl (Err ''Cannot use a polygon in a near query''))
           | QueryTypeIntersects \<Rightarrow>
               go_bind (parentCoverTokens L parents cover) (\<lambda>toks.
                 Inr (toks, \<lparr>qd_pt = pt, qd_loop = l, qd_cap = None, qtype = qt\<rparr>)))))"

text \<open>\<open>toLower\<close> is \<^verbatim>\<open>strings.ToLower\<close>, \<open>parseFloat\<close> \<^verbatim>\<open>strconv.ParseFloat\<close>.\<close>

definition geo_GetTokens ::
  "('g, 'pt, 'loop, 'cap, 'cell, 'rect) s2_lib \<Rightarrow> (bytes \<Rightarrow> 'g go) \<Rightarrow> (bytes \<Rightarrow> bytes) \<Rightarrow> (bytes \<Rightarrow> u64 go)
    \<Rightarrow> bytes list \<Rightarrow> (bytes list \<times> ('pt, 'loop, 'cap) query_data) go" where
  "geo_GetTokens L fromJSON toLower parseFloat funcArgs =
     go_bind (assertTruef (1 < length funcArgs) ''Invalid function'') (\<lambda>_.
       let funcName = toLower (funcArgs ! 0); two = (length funcArgs = 2) in
       if funcName = ''near'' then
         if length funcArgs \<noteq> 3 then Inl (Err ''near function requires 3 arguments'')
         else go_bind (parseFloat (funcArgs ! 2)) (queryTokens L fromJSON QueryTypeNear (funcArgs ! 1))
       else if funcName = ''within'' then
         if \<not> two then Inl (Err ''within function requires 2 arguments'')
         else queryTokens L fromJSON QueryTypeWithin (funcArgs ! 1) 0
       else if funcName = ''contains'' then
         if \<not> two then Inl (Err ''contains function requires 2 arguments'')
         else queryTokens L fromJSON QueryTypeContains (funcArgs ! 1) 0
       else if funcName = ''intersects'' then
         if \<not> two then Inl (Err ''intersects function requires 2 arguments'')
         else queryTokens L fromJSON QueryTypeIntersects (funcArgs ! 1) 0
       else Inl (Err ''Invalid geo function''))"

section \<open>Filters\<close>

definition isWithin :: "('g, 'pt, 'loop, 'cap, 'cell, 'rect) s2_lib \<Rightarrow> ('pt, 'loop, 'cap) query_data \<Rightarrow> 'g \<Rightarrow> bool go" where
  "isWithin L q g =
     go_bind (assertTruef (qd_pt q \<noteq> None \<or> qd_loop q \<noteq> None \<or> qd_cap q \<noteq> None)
                ''At least a point, loop or cap should be defined.'') (\<lambda>_.
       if geom_kind L g \<noteq> GeomPoint then Inr False
       else
         let s2pt = pointFromPoint L g in
         case qd_pt q of
           Some p \<Rightarrow> Inr (ApproxEqual L p s2pt)
         | None \<Rightarrow>
             (case qd_loop q of
                Some l \<Rightarrow> Inr (LoopContainsPoint L l s2pt)
              | None \<Rightarrow> Inr (CapContainsPoint L (the (qd_cap q)) s2pt)))"

definition qd_contains :: "('g, 'pt, 'loop, 'cap, 'cell, 'rect) s2_lib \<Rightarrow> ('pt, 'loop, 'cap) query_data \<Rightarrow> 'g \<Rightarrow> bool go" where
  "qd_contains L q g =
     go_bind (assertTruef (qd_pt q \<noteq> None \<or> qd_loop q \<noteq> None)
                ''At least a point or loop should be defined.'') (\<lambda>_.
       if qd_loop q \<noteq> None then Inr False
       else if geom_kind L g \<noteq> GeomPolygon then Inr False
       else
         case loopFromPolygon L g of
           Inl e \<Rightarrow> Inr False
         | Inr s2loop \<Rightarrow> Inr (LoopContainsPoint L s2loop (the (qd_pt q))))"

definition qd_intersects :: "('g, 'pt, 'loop, 'cap, 'cell, 'rect) s2_lib \<Rightarrow> ('pt, 'loop, 'cap) query_data \<Rightarrow> 'g \<Rightarrow> bool go" where
  "qd_intersects L q g =
     go_bind (assertTruef (qd_pt q \<noteq> None \<or> qd_loop q \<noteq> None)
                ''At least a point or loop should be defined.'') (\<lambda>_.
       case geom_kind L g of
         GeomPoint \<Rightarrow>
           let p = pointFromPoint L g in
           (case qd_pt q of
              Some qp \<Rightarrow> Inr (ApproxEqual L qp p)
            | None \<Rightarrow> Inr (LoopContainsPoint L (the (qd_loop q)) p))
       | GeomPolygon \<Rightarrow>
           (case loopFromPolygon L g of
              Inl e \<Rightarrow> Inr False
            | Inr l \<Rightarrow>
                (case qd_pt q of
                   Some qp \<Rightarrow> Inr (LoopContainsPoint L l qp)
                 | None \<Rightarrow> Inr (Intersects L l (the (qd_loop q)))))
       | GeomOther \<Rightarrow> Inr False)"

definition MatchesFilter :: "('g, 'pt, 'loop, 'cap, 'cell, 'rect) s2_lib \<Rightarrow> ('pt, 'loop, 'cap) query_data \<Rightarrow> 'g \<Rightarrow> bool go" where
  "MatchesFilter L q g =
     (case qtype q of
        QueryTypeWithin \<Rightarrow> isWithin L q g
      | QueryTypeContains \<Rightarrow> qd_contains L q g
      | QueryTypeIntersects \<Rightarrow> qd_intersects L q g
      | QueryTypeNear \<Rightarrow> if qd_cap q = None then Inr False else isWithin L q g)"

text \<open>The values of a task: their bytes, empty for none, and their type.\<close>

record task_value =
  tv_Val :: bytes
  tv_ValType :: u32

fun filter_loop ::
  "('g, 'pt, 'loop, 'cap, 'cell, 'rect) s2_lib \<Rightarrow> (bytes \<Rightarrow> 'g go) \<Rightarrow> ('pt, 'loop, 'cap) query_data
    \<Rightarrow> (u64 \<times> task_value) list \<Rightarrow> u64 list go" where
  "filter_loop L fromWKB q [] = Inr []"
| "filter_loop L fromWKB q ((uid, tv) # rest) =
     (if tv_Val tv = [] \<or> (ucast (tv_ValType tv) :: u8) \<noteq> GeoID then filter_loop L fromWKB q rest
      else
        case fromWKB (tv_Val tv) of
          Inl (Err e) \<Rightarrow> filter_loop L fromWKB q rest
        | Inl e \<Rightarrow> Inl e
        | Inr g \<Rightarrow>
            (case MatchesFilter L q g of
               Inl e \<Rightarrow> Inl e
             | Inr False \<Rightarrow> filter_loop L fromWKB q rest
             | Inr True \<Rightarrow>
                 (case filter_loop L fromWKB q rest of Inl e \<Rightarrow> Inl e | Inr us \<Rightarrow> Inr (uid # us))))"

definition FilterUids ::
  "('g, 'pt, 'loop, 'cap, 'cell, 'rect) s2_lib \<Rightarrow> (bytes \<Rightarrow> 'g go) \<Rightarrow> ('pt, 'loop, 'cap) query_data
    \<Rightarrow> u64 list \<Rightarrow> task_value list \<Rightarrow> u64 list go" where
  "FilterUids L fromWKB q uids vs =
     go_bind (assertTruef (length vs = length uids) ''lengths not matching'') (\<lambda>_.
       filter_loop L fromWKB q (zip uids vs))"

section \<open>Lemmas\<close>

lemma appendTokens_eq: "appendTokens L toks cu pre = toks @ map (\<lambda>c. pre @ ToToken L c) cu"
  unfolding appendTokens_def by (induction cu arbitrary: toks) auto

lemma toTokens_eq: "toTokens L cu pre = map (\<lambda>c. pre @ ToToken L c) cu"
  by (simp add: toTokens_def appendTokens_eq)

lemma parentCoverTokens_eq:
  "parentCoverTokens L parents cover =
     Inr (map (\<lambda>c. parentPrefix @ ToToken L c) parents @ map (\<lambda>c. coverPrefix @ ToToken L c) cover)"
  by (simp add: parentCoverTokens_def Let_def appendTokens_eq)

text \<open>
  What the S2 library documents: a cell is its own parent at its level, and a covering has cells between
  the levels asked for, one of which contains each point of the region.
\<close>

definition cell_of :: "('g, 'pt, 'loop, 'cap, 'cell, 'rect) s2_lib \<Rightarrow> coord \<Rightarrow> 'cell" where
  "cell_of L x = CellIDFromLatLng L (snd x) (fst x)"

definition in_cover :: "('g, 'pt, 'loop, 'cap, 'cell, 'rect) s2_lib \<Rightarrow> coord \<Rightarrow> 'cell list \<Rightarrow> bool" where
  "in_cover L x cu \<longleftrightarrow> (\<exists>c \<in> set cu. CellParent L (cell_of L x) (CellLevel L c) = c)"

definition levels_ok :: "('g, 'pt, 'loop, 'cap, 'cell, 'rect) s2_lib \<Rightarrow> 'cell list \<Rightarrow> bool" where
  "levels_ok L cu \<longleftrightarrow> (\<forall>c \<in> set cu. MinCellLevel \<le> CellLevel L c \<and> CellLevel L c \<le> MaxCellLevel)"

definition cover_laws :: "('g, 'pt, 'loop, 'cap, 'cell, 'rect) s2_lib \<Rightarrow> bool" where
  "cover_laws L \<longleftrightarrow>
     (\<forall>R. levels_ok L (Covering L MinCellLevel MaxCellLevel 0 MaxCells R)) \<and>
     (\<forall>R x. CapContainsPoint L (CapBound R) (pointFromCoord L x) \<longrightarrow>
        (\<forall>i. reg_IntersectsCell R (CellParent L (cell_of L x) i)) \<longrightarrow>
        in_cover L x (Covering L MinCellLevel MaxCellLevel 0 MaxCells R))"

definition s2_laws :: "('g, 'pt, 'loop, 'cap, 'cell, 'rect) s2_lib \<Rightarrow> bool" where
  "s2_laws L \<longleftrightarrow> cover_laws L \<and>
     (\<forall>c. CellParent L c (CellLevel L c) = c) \<and>
     (\<forall>c i j. i \<le> j \<longrightarrow> CellParent L (CellParent L c j) i = CellParent L c i) \<and>
     (\<forall>l p. LoopContainsPoint L l p \<longrightarrow> CapContainsPoint L (LoopCapBound L l) p) \<and>
     (\<forall>c x i. CapContainsPoint L c (pointFromCoord L x) \<longrightarrow>
        CapIntersectsCell L c (CellParent L (cell_of L x) i))"

text \<open>The test of a loop against a cell misses none of the cells around a point of the loop.\<close>

definition region_sound :: "('g, 'pt, 'loop, 'cap, 'cell, 'rect) s2_lib \<Rightarrow> 'loop \<Rightarrow> bool" where
  "region_sound L l \<longleftrightarrow> (\<forall>x i. LoopContainsPoint L l (pointFromCoord L x) \<longrightarrow>
     IntersectsCell L l (CellParent L (cell_of L x) i))"

lemma coverLoop_laws:
  assumes "s2_laws L"
  shows "levels_ok L (coverLoop L l MinCellLevel MaxCellLevel MaxCells)"
    "region_sound L l \<Longrightarrow> LoopContainsPoint L l (pointFromCoord L x) \<Longrightarrow>
      in_cover L x (coverLoop L l MinCellLevel MaxCellLevel MaxCells)"
  using assms unfolding s2_laws_def cover_laws_def coverLoop_def region_sound_def by (cases x, simp)+

lemma indexCellsForCap_laws:
  assumes "s2_laws L"
  shows "levels_ok L (indexCellsForCap L c)"
    "CapContainsPoint L c (pointFromCoord L x) \<Longrightarrow> in_cover L x (indexCellsForCap L c)"
  using assms unfolding s2_laws_def cover_laws_def indexCellsForCap_def by (cases x, simp)+

definition point_cells :: "('g, 'pt, 'loop, 'cap, 'cell, 'rect) s2_lib \<Rightarrow> coord \<Rightarrow> 'cell set" where
  "point_cells L x = CellParent L (cell_of L x) ` {MinCellLevel..MaxCellLevel}"

lemma indexCells_point:
  assumes "indexCells L g = Inr (parents, cover)" "geom_kind L g = GeomPoint"
  shows "set parents = point_cells L (Coords L g)"
proof -
  have "parents = map (CellParent L (cell_of L (Coords L g))) [MinCellLevel..<MaxCellLevel + 1]"
    using assms by (auto simp: indexCells_def indexCellsForPoint_def cell_of_def Let_def split: if_splits)
  moreover have "set [MinCellLevel..<MaxCellLevel + 1] = {MinCellLevel..MaxCellLevel}"
    by auto
  ultimately show ?thesis by (simp only: point_cells_def set_map)
qed

lemma indexCells_polygon:
  assumes "indexCells L g = Inr (parents, cover)" "geom_kind L g = GeomPolygon"
  obtains l where "loopFromPolygon L g = Inr l" "cover = coverLoop L l MinCellLevel MaxCellLevel MaxCells"
    "parents = getParentCells L cover MinCellLevel"
  using assms by (auto simp: indexCells_def go_bind_eq_Inr Let_def split: if_splits)

lemma cover_in_parents:
  assumes "s2_laws L" "levels_ok L cu"
  shows "set cu \<subseteq> set (getParentCells L cu MinCellLevel)"
proof
  fix c assume c: "c \<in> set cu"
  then have lv: "CellLevel L c \<in> set (rev [MinCellLevel..<CellLevel L c + 1])"
    using assms(2) by (auto simp: levels_ok_def)
  have self: "c = CellParent L c (CellLevel L c)" using assms(1) by (simp add: s2_laws_def)
  let ?f = "\<lambda>c. map (CellParent L c) (rev [MinCellLevel..<CellLevel L c + 1])"
  have "c \<in> set (?f c)" unfolding set_map by (rule image_eqI) (rule self, rule lv)
  then have "c \<in> set (concat (map ?f cu))" unfolding set_concat set_map [of ?f cu]
    by (intro UN_I [of "?f c"] imageI [OF c, of ?f])
  then show "c \<in> set (getParentCells L cu MinCellLevel)" unfolding getParentCells_def set_remdups .
qed

lemma cover_point_cell:
  assumes "levels_ok L cu" "in_cover L x cu"
  obtains c where "c \<in> set cu" "c \<in> point_cells L x"
proof -
  obtain c where c: "c \<in> set cu" "CellParent L (cell_of L x) (CellLevel L c) = c"
    using assms(2) by (auto simp: in_cover_def)
  then have "CellLevel L c \<in> {MinCellLevel..MaxCellLevel}" using assms(1) by (auto simp: levels_ok_def)
  then have "c \<in> point_cells L x" unfolding point_cells_def by (rule image_eqI [rotated]) (rule c(2) [symmetric])
  with c(1) show thesis by (rule that)
qed

text \<open>A loop over a point, in terms of the cells of both.\<close>

lemma loop_point_cell:
  assumes "s2_laws L" "region_sound L l" "LoopContainsPoint L l (pointFromCoord L x)"
  defines "cu \<equiv> coverLoop L l MinCellLevel MaxCellLevel MaxCells"
  obtains c where "c \<in> set cu" "c \<in> set (getParentCells L cu MinCellLevel)" "c \<in> point_cells L x"
proof -
  have lv: "levels_ok L cu" "in_cover L x cu" unfolding cu_def
    by (rule coverLoop_laws(1) [OF assms(1)], rule coverLoop_laws(2) [OF assms(1-3)])
  obtain c where "c \<in> set cu" "c \<in> point_cells L x" by (rule cover_point_cell [OF lv])
  with cover_in_parents [OF assms(1) lv(1)] show thesis by (intro that) blast+
qed


lemma filter_loop_eq:
  assumes "\<forall>(uid, tv) \<in> set ps. \<forall>e. fromWKB (tv_Val tv) = Inl e \<longrightarrow> (\<exists>s. e = Err s)"
    and "\<forall>g. \<exists>b. MatchesFilter L q g = Inr b"
  shows "filter_loop L fromWKB q ps = Inr (map fst (filter (\<lambda>(uid, tv).
    tv_Val tv \<noteq> [] \<and> (ucast (tv_ValType tv) :: u8) = GeoID \<and>
    (\<exists>g. fromWKB (tv_Val tv) = Inr g \<and> MatchesFilter L q g = Inr True)) ps))"
  using assms(1)
proof (induction ps)
  case (Cons x ps)
  obtain uid tv where x: "x = (uid, tv)" by fastforce
  have IH: "filter_loop L fromWKB q ps = Inr (map fst (filter (\<lambda>(uid, tv).
    tv_Val tv \<noteq> [] \<and> (ucast (tv_ValType tv) :: u8) = GeoID \<and>
    (\<exists>g. fromWKB (tv_Val tv) = Inr g \<and> MatchesFilter L q g = Inr True)) ps))"
    using Cons by simp
  show ?case
  proof (cases "fromWKB (tv_Val tv)")
    case (Inl e)
    then obtain s where "e = Err s" using Cons.prems x by auto
    then show ?thesis using IH Inl by (simp add: x)
  next
    case (Inr g)
    obtain b where "MatchesFilter L q g = Inr b" using assms(2) by blast
    then show ?thesis using IH Inr by (cases b) (simp_all add: x)
  qed
qed simp

lemma nearQueryKeys_Inr:
  assumes "nearQueryKeys L pt d = Inr (toks, q)"
  shows "qtype q = QueryTypeNear \<and> qd_pt q = None \<and> qd_loop q = None \<and>
    (\<exists>c. qd_cap q = Some c \<and> toks = toTokens L (indexCellsForCap L c) parentPrefix)"
  using assms by (auto simp: nearQueryKeys_def Let_def split: if_splits)

text \<open>The tokens under which a geometry is stored.\<close>

lemma stored_tokens:
  assumes "geo_IndexTokens L g = Inr gtoks"
  obtains parents cover where "indexCells L g = Inr (parents, cover)"
    "\<And>c. c \<in> set parents \<Longrightarrow> parentPrefix @ ToToken L c \<in> set gtoks"
    "\<And>c. c \<in> set cover \<Longrightarrow> coverPrefix @ ToToken L c \<in> set gtoks"
  using assms by (auto simp: geo_IndexTokens_def go_bind_eq_Inr parentCoverTokens_eq)

lemma match_within:
  assumes "isWithin L q g = Inr True" "qd_pt q = None"
  shows "geom_kind L g = GeomPoint" "\<And>l. qd_loop q = Some l \<Longrightarrow> LoopContainsPoint L l (pointFromCoord L (Coords L g))"
    "\<And>c. qd_loop q = None \<Longrightarrow> qd_cap q = Some c \<Longrightarrow> CapContainsPoint L c (pointFromCoord L (Coords L g))"
  using assms by (auto simp: isWithin_def go_bind_eq_Inr pointFromPoint_def Let_def split: if_splits)

text \<open>The query and the object share a cell, each kind of query in turn.\<close>

lemma within_tokens:
  assumes "s2_laws L" "indexCells L gq = Inr (qparents, qcover)" "geom_kind L gq = GeomPolygon"
    "loopFromPolygon L gq = Inr l" "region_sound L l" "geom_kind L g = GeomPoint"
    "LoopContainsPoint L l (pointFromCoord L (Coords L g))" "geo_IndexTokens L g = Inr gtoks"
  shows "set (toTokens L qcover parentPrefix) \<inter> set gtoks \<noteq> {}"
    "set (map (\<lambda>c. parentPrefix @ ToToken L c) qparents) \<inter> set gtoks \<noteq> {}"
proof -
  have q: "qcover = coverLoop L l MinCellLevel MaxCellLevel MaxCells" "qparents = getParentCells L qcover MinCellLevel"
    using indexCells_polygon [OF assms(2,3)] assms(4) by fastforce+
  obtain parents cover where st: "indexCells L g = Inr (parents, cover)"
    "\<And>c. c \<in> set parents \<Longrightarrow> parentPrefix @ ToToken L c \<in> set gtoks"
    using stored_tokens [OF assms(8)] by metis
  obtain c where c: "c \<in> set qcover" "c \<in> set qparents" "c \<in> point_cells L (Coords L g)"
    using loop_point_cell [OF assms(1,5,7)] unfolding q by metis
  then have "parentPrefix @ ToToken L c \<in> set gtoks" using st(2) indexCells_point [OF st(1) assms(6)] by blast
  then show "set (toTokens L qcover parentPrefix) \<inter> set gtoks \<noteq> {}"
    "set (map (\<lambda>c. parentPrefix @ ToToken L c) qparents) \<inter> set gtoks \<noteq> {}"
    using c(1,2) by (auto simp: toTokens_eq)
qed

lemma contains_tokens:
  assumes "s2_laws L" "indexCells L gq = Inr (qparents, qcover)" "geom_kind L gq = GeomPoint"
    "geom_kind L g = GeomPolygon" "loopFromPolygon L g = Inr l" "region_sound L l"
    "LoopContainsPoint L l (pointFromCoord L (Coords L gq))" "geo_IndexTokens L g = Inr gtoks"
  shows "set (toTokens L qparents coverPrefix) \<inter> set gtoks \<noteq> {}"
    "set (map (\<lambda>c. parentPrefix @ ToToken L c) qparents) \<inter> set gtoks \<noteq> {}"
proof -
  obtain parents cover where st: "indexCells L g = Inr (parents, cover)"
    "\<And>c. c \<in> set parents \<Longrightarrow> parentPrefix @ ToToken L c \<in> set gtoks"
    "\<And>c. c \<in> set cover \<Longrightarrow> coverPrefix @ ToToken L c \<in> set gtoks"
    using stored_tokens [OF assms(8)] by metis
  have o: "cover = coverLoop L l MinCellLevel MaxCellLevel MaxCells" "parents = getParentCells L cover MinCellLevel"
    using indexCells_polygon [OF st(1) assms(4)] assms(5) by fastforce+
  obtain c where c: "c \<in> set cover" "c \<in> set parents" "c \<in> point_cells L (Coords L gq)"
    using loop_point_cell [OF assms(1,6,7)] unfolding o by metis
  then have "c \<in> set qparents" using indexCells_point [OF assms(2,3)] by blast
  then show "set (toTokens L qparents coverPrefix) \<inter> set gtoks \<noteq> {}"
    "set (map (\<lambda>c. parentPrefix @ ToToken L c) qparents) \<inter> set gtoks \<noteq> {}"
    using st(2) [OF c(2)] st(3) [OF c(1)] by (auto simp: toTokens_eq)
qed

lemma near_tokens:
  assumes "s2_laws L" "geom_kind L g = GeomPoint" "CapContainsPoint L c (pointFromCoord L (Coords L g))"
    "geo_IndexTokens L g = Inr gtoks"
  shows "set (toTokens L (indexCellsForCap L c) parentPrefix) \<inter> set gtoks \<noteq> {}"
proof -
  let ?cu = "indexCellsForCap L c"
  obtain parents cover where st: "indexCells L g = Inr (parents, cover)"
    "\<And>c. c \<in> set parents \<Longrightarrow> parentPrefix @ ToToken L c \<in> set gtoks"
    using stored_tokens [OF assms(4)] by metis
  have "levels_ok L ?cu" "in_cover L (Coords L g) ?cu" 
    by (rule indexCellsForCap_laws(1) [OF assms(1)], rule indexCellsForCap_laws(2) [OF assms(1,3)])
  then obtain d where d: "d \<in> set ?cu" "d \<in> point_cells L (Coords L g)" by (rule cover_point_cell)
  then have "parentPrefix @ ToToken L d \<in> set gtoks" using st(2) indexCells_point [OF st(1) assms(2)] by blast
  with d(1) show ?thesis by (auto simp: toTokens_eq)
qed

lemma nested_parent:
  assumes "s2_laws L" "a \<in> set cu" "CellParent L X (CellLevel L a) = a"
    "CellParent L X (CellLevel L b) = b" "MinCellLevel \<le> CellLevel L b" "CellLevel L b \<le> CellLevel L a"
  shows "b \<in> set (getParentCells L cu MinCellLevel)"
proof -
  have self: "b = CellParent L a (CellLevel L b)"
    using assms(1,3,4,6) unfolding s2_laws_def by metis
  have lv: "CellLevel L b \<in> set (rev [MinCellLevel..<CellLevel L a + 1])" using assms(5,6) by auto
  let ?f = "\<lambda>c. map (CellParent L c) (rev [MinCellLevel..<CellLevel L c + 1])"
  have "b \<in> set (?f a)" unfolding set_map by (rule image_eqI) (rule self, rule lv)
  then have "b \<in> set (concat (map ?f cu))" unfolding set_concat set_map [of ?f cu]
    by (intro UN_I [of "?f a"] imageI [OF assms(2), of ?f])
  then show ?thesis unfolding getParentCells_def set_remdups .
qed

lemma loops_share_cell:
  assumes "s2_laws L" "region_sound L l" "region_sound L m" "LoopContainsPoint L l (pointFromCoord L x)"
    "LoopContainsPoint L m (pointFromCoord L x)"
  defines "cl \<equiv> coverLoop L l MinCellLevel MaxCellLevel MaxCells"
    and "cm \<equiv> coverLoop L m MinCellLevel MaxCellLevel MaxCells"
  shows "\<exists>c. c \<in> set (getParentCells L cl MinCellLevel) \<and> c \<in> set (getParentCells L cm MinCellLevel)"
proof -
  have lv: "levels_ok L cl" "in_cover L x cl" "levels_ok L cm" "in_cover L x cm"
    unfolding cl_def cm_def
    by (rule coverLoop_laws(1) [OF assms(1)], rule coverLoop_laws(2) [OF assms(1,2,4)],
        rule coverLoop_laws(1) [OF assms(1)], rule coverLoop_laws(2) [OF assms(1,3,5)])
  obtain a where a: "a \<in> set cl" "CellParent L (cell_of L x) (CellLevel L a) = a"
    using lv(2) unfolding in_cover_def by blast
  obtain b where b: "b \<in> set cm" "CellParent L (cell_of L x) (CellLevel L b) = b"
    using lv(4) unfolding in_cover_def by blast
  have min: "MinCellLevel \<le> CellLevel L a" "MinCellLevel \<le> CellLevel L b"
    using lv(1,3) a(1) b(1) unfolding levels_ok_def by blast+
  show ?thesis
  proof (cases "CellLevel L b \<le> CellLevel L a")
    case True
    then have "b \<in> set (getParentCells L cl MinCellLevel)"
      by (intro nested_parent [OF assms(1) a b(2) min(2)])
    then show ?thesis using cover_in_parents [OF assms(1) lv(3)] b(1) by blast
  next
    case False
    then have "a \<in> set (getParentCells L cm MinCellLevel)"
      by (intro nested_parent [OF assms(1) b a(2) min(1)]) simp
    then show ?thesis using cover_in_parents [OF assms(1) lv(1)] a(1) by blast
  qed
qed

lemma polygon_tokens:
  assumes "s2_laws L" "region_sound L l" "region_sound L m"
    "indexCells L gq = Inr (qparents, qcover)" "geom_kind L gq = GeomPolygon" "loopFromPolygon L gq = Inr m"
    "geom_kind L g = GeomPolygon" "loopFromPolygon L g = Inr l"
    "LoopContainsPoint L l (pointFromCoord L x)" "LoopContainsPoint L m (pointFromCoord L x)"
    "geo_IndexTokens L g = Inr gtoks"
  shows "set (map (\<lambda>c. parentPrefix @ ToToken L c) qparents) \<inter> set gtoks \<noteq> {}"
proof -
  have q: "qcover = coverLoop L m MinCellLevel MaxCellLevel MaxCells" "qparents = getParentCells L qcover MinCellLevel"
    using indexCells_polygon [OF assms(4,5)] assms(6) by fastforce+
  obtain parents cover where st: "indexCells L g = Inr (parents, cover)"
    "\<And>c. c \<in> set parents \<Longrightarrow> parentPrefix @ ToToken L c \<in> set gtoks"
    using stored_tokens [OF assms(11)] by metis
  have o: "cover = coverLoop L l MinCellLevel MaxCellLevel MaxCells" "parents = getParentCells L cover MinCellLevel"
    using indexCells_polygon [OF st(1) assms(7)] assms(8) by fastforce+
  obtain c where c: "c \<in> set parents" "c \<in> set qparents"
    using loops_share_cell [OF assms(1,2,3,9,10)] unfolding q o by blast
  then show ?thesis using st(2) [OF c(1)] by auto
qed

lemma parent_tokens_meet:
  assumes "parentCoverTokens L parents cover = Inr toks"
    "set (map (\<lambda>c. parentPrefix @ ToToken L c) parents) \<inter> S \<noteq> {}"
  shows "set toks \<inter> S \<noteq> {}"
proof -
  have "set (map (\<lambda>c. parentPrefix @ ToToken L c) parents) \<subseteq> set toks"
    using assms(1) by (auto simp: parentCoverTokens_eq)
  with assms(2) show ?thesis by blast
qed

text \<open>What a query is made of.\<close>

lemma queryTokens_cases:
  assumes "queryTokens L fromJSON qt data d = Inr (qtoks, q)"
  obtains (near) c where "qtype q = QueryTypeNear" "qd_pt q = None" "qd_loop q = None" "qd_cap q = Some c"
      "qtoks = toTokens L (indexCellsForCap L c) parentPrefix"
  | (point) gq parents cover where "geom_kind L gq = GeomPoint" "indexCells L gq = Inr (parents, cover)"
      "qd_pt q = Some (pointFromCoord L (Coords L gq))" "qd_loop q = None"
      "(qtype q = QueryTypeWithin) \<or> (qtype q = QueryTypeContains \<and> qtoks = toTokens L parents coverPrefix) \<or>
       (qtype q = QueryTypeIntersects \<and> parentCoverTokens L parents cover = Inr qtoks)"
  | (polygon) gq l parents cover where "geom_kind L gq = GeomPolygon" "indexCells L gq = Inr (parents, cover)"
      "loopFromPolygon L gq = Inr l" "qd_pt q = None" "qd_loop q = Some l"
      "(qtype q = QueryTypeWithin \<and> qtoks = toTokens L cover parentPrefix) \<or>
       (qtype q = QueryTypeIntersects \<and> parentCoverTokens L parents cover = Inr qtoks)"
proof -
  obtain g where g: "fromJSON (Replace_byte data (CHR 0x27) (CHR 0x22)) = Inr g"
    using assms by (auto simp: queryTokens_def go_bind_eq_Inr)
  obtain l pt where b1: "geo_input L g = Inr (l, pt)"
    using assms by (auto simp: queryTokens_def go_bind_eq_Inr g)
  obtain parents cover where b: "indexCells L g = Inr (parents, cover)"
    using assms by (auto simp: queryTokens_def go_bind_eq_Inr g b1)
  note e = assms [unfolded queryTokens_def g go_bind_Inr b1 prod.case b]
  show thesis
  proof (cases "geom_kind L g")
    case GeomPoint
    then have lp: "l = None" "pt = Some (pointFromCoord L (Coords L g))"
      using b1 by (simp_all add: geo_input_def pointFromPoint_def)
    show thesis
    proof (cases qt)
      case QueryTypeNear
      then have "nearQueryKeys L (pointFromCoord L (Coords L g)) d = Inr (qtoks, q)" using e lp by simp
      from nearQueryKeys_Inr [OF this] show thesis using near by blast
    qed (use e lp in \<open>auto intro!: point [OF GeomPoint b] simp: go_bind_eq_Inr\<close>)
  next
    case GeomPolygon
    then obtain m where lp: "loopFromPolygon L g = Inr m" "l = Some m" "pt = None"
      using b1 by (auto simp: geo_input_def go_bind_eq_Inr)
    show thesis
      by (cases qt) (use e lp in \<open>auto intro!: polygon [OF GeomPolygon b lp(1)] simp: go_bind_eq_Inr\<close>)
  qed (use b1 in \<open>simp add: geo_input_def\<close>)
qed


section \<open>Completeness of the index\<close>

text \<open>
  What the argument needs of a query and an object: the region tests of their loops are sound, they are
  not both points, where the filter allows a rounding error across a cell boundary, and loops that
  intersect have a point in common.
\<close>

definition match_premises ::
  "('g, 'pt, 'loop, 'cap, 'cell, 'rect) s2_lib \<Rightarrow> ('pt, 'loop, 'cap) query_data \<Rightarrow> 'g \<Rightarrow> bool" where
  "match_premises L q g \<longleftrightarrow>
     (\<forall>l. loopFromPolygon L g = Inr l \<or> qd_loop q = Some l \<longrightarrow> region_sound L l) \<and>
     \<not> (geom_kind L g = GeomPoint \<and> qd_pt q \<noteq> None) \<and>
     (\<forall>l m. loopFromPolygon L g = Inr l \<longrightarrow> qd_loop q = Some m \<longrightarrow> Intersects L l m \<longrightarrow>
        (\<exists>x. LoopContainsPoint L l (pointFromCoord L x) \<and> LoopContainsPoint L m (pointFromCoord L x)))"

lemma match_shares_token:
  assumes "s2_laws L" "match_premises L q g"
    and "queryTokens L fromJSON qt data d = Inr (qtoks, q)"
    and "geo_IndexTokens L g = Inr gtoks" "MatchesFilter L q g = Inr True"
  shows "set qtoks \<inter> set gtoks \<noteq> {}"
  using assms(3)
proof (cases rule: queryTokens_cases)
  case (near c)
  then have w: "isWithin L q g = Inr True" using assms(5) by (simp add: MatchesFilter_def)
  note m = match_within [OF w near(2)]
  show ?thesis unfolding near(5) by (rule near_tokens [OF assms(1) m(1) m(3) [OF near(3,4)] assms(4)])
next
  case (point gq parents cover)
  then have k: "geom_kind L g \<noteq> GeomPoint" using assms(2) by (simp add: match_premises_def)
  then have nw: "qtype q \<noteq> QueryTypeWithin"
    using assms(5) by (auto simp: MatchesFilter_def isWithin_def go_bind_eq_Inr)
  have m: "geom_kind L g = GeomPolygon \<and> (\<exists>l. loopFromPolygon L g = Inr l \<and>
      LoopContainsPoint L l (pointFromCoord L (Coords L gq)))"
    using assms(5) k nw point(3,4,5)
    by (auto simp: MatchesFilter_def qd_contains_def qd_intersects_def go_bind_eq_Inr
        split: if_splits sum.splits geom_kind.splits)
  then obtain l where l: "geom_kind L g = GeomPolygon" "loopFromPolygon L g = Inr l"
    "LoopContainsPoint L l (pointFromCoord L (Coords L gq))" by blast
  have sound: "region_sound L l" using assms(2) l(2) unfolding match_premises_def by blast
  note ct = contains_tokens [OF assms(1) point(2,1) l(1,2) sound l(3) assms(4)]
  from point(5) nw show ?thesis using ct(1) parent_tokens_meet [OF _ ct(2)] by blast
next
  case (polygon gq m parents cover)
  have sound: "region_sound L m" using assms(2) polygon(5) unfolding match_premises_def by blast
  consider (pt) "geom_kind L g = GeomPoint" "LoopContainsPoint L m (pointFromCoord L (Coords L g))"
    | (poly) l where "qtype q = QueryTypeIntersects" "geom_kind L g = GeomPolygon"
        "loopFromPolygon L g = Inr l" "Intersects L l m"
    using assms(5) polygon(4,5,6)
    by (auto simp: MatchesFilter_def isWithin_def qd_intersects_def go_bind_eq_Inr pointFromPoint_def Let_def
        split: if_splits sum.splits geom_kind.splits)
  then show ?thesis
  proof cases
    case pt
    note wt = within_tokens [OF assms(1) polygon(2,1,3) sound pt assms(4)]
    from polygon(6) show ?thesis using wt(1) parent_tokens_meet [OF _ wt(2)] by blast
  next
    case (poly l)
    obtain x where x: "LoopContainsPoint L l (pointFromCoord L x)" "LoopContainsPoint L m (pointFromCoord L x)"
      using assms(2) poly(3,4) polygon(5) unfolding match_premises_def by blast
    have "region_sound L l" using assms(2) poly(3) unfolding match_premises_def by blast
    note pt = polygon_tokens [OF assms(1) this sound polygon(2,1,3) poly(2,3) x assms(4)]
    from polygon(6) poly(1) show ?thesis using parent_tokens_meet [OF _ pt] by simp
  qed
qed


text \<open>A library of cells that lie on one line, one for each level; every region is the whole plane.\<close>

definition line_lib :: "(bool, unit, unit, unit, nat, unit) s2_lib" where
  "line_lib = \<lparr>geom_kind = (\<lambda>g. if g then GeomPoint else GeomPolygon), Stride = (\<lambda>g. 2), Coords = (\<lambda>g. (0, 0)),
     LinearRing0 = (\<lambda>g. [(0, 0), (0, 0), (0, 0), (0, 0)]), PointFromLatLng = (\<lambda>lat lng. ()), LoopFromPoints = (\<lambda>ps. ()),
     LoopCapBound = (\<lambda>l. ()), CapRadiusDegrees = (\<lambda>c. 0), ApproxEqual = (\<lambda>p q. True), LoopContainsPoint = (\<lambda>l p. True),
     CapFromCenterAngle = (\<lambda>p a. ()), CapContainsPoint = (\<lambda>c p. True), 
     CapRectBound = (\<lambda>c. ()), CapContainsCell = (\<lambda>c d. True), CapIntersectsCell = (\<lambda>c d. True),
     CellIDFromLatLng = (\<lambda>lat lng. 30),
     CellParent = (\<lambda>c l. l), CellLevel = (\<lambda>c. c), ToToken = (\<lambda>c. replicate c CHR ''x''),
     CellVertex = (\<lambda>c i. ()),
     CellRectBound = (\<lambda>c. ()), CellContainsPoint = (\<lambda>c p. True), Covering = (\<lambda>lo hi m k R. [lo]),
     LoopNumEdges = (\<lambda>l. 3), LoopVertices = (\<lambda>l. [(), (), ()]),
     LoopRectBound = (\<lambda>l. ()), RectIntersects = (\<lambda>r s. True), RectContains = (\<lambda>r s. True),
     RectContainsCell = (\<lambda>r c. True), RectIntersectsCell = (\<lambda>r c. True),
     EdgeOrVertexCrossing = (\<lambda>a b c d. True)\<rparr>"

lemma line_lib_laws: "s2_laws line_lib"
  by (simp add: s2_laws_def cover_laws_def levels_ok_def in_cover_def line_lib_def MinCellLevel_def MaxCellLevel_def)

lemma line_region: "region_sound line_lib l"
  by (simp add: region_sound_def IntersectsCell_def line_lib_def)

lemma line_loop: "loopFromPolygon line_lib False = Inr ()"
  by (simp add: loopFromPolygon_def loopFromRing_def line_lib_def Let_def)

lemma line_fields:
  "geom_kind line_lib g = (if g then GeomPoint else GeomPolygon)" "Stride line_lib g = 2"
  "coverLoop line_lib l lo hi k = [lo]" "ToToken line_lib c = replicate c CHR ''x''"
  by (simp_all add: line_lib_def coverLoop_def)

lemma line_query:
  "queryTokens line_lib (\<lambda>s. Inr False) QueryTypeWithin ''{}'' 0 =
     Inr ([''p/xxxxx''], \<lparr>qd_pt = None, qd_loop = Some (), qd_cap = None, qtype = QueryTypeWithin\<rparr>)"
  by (simp add: queryTokens_def geo_input_def indexCells_def line_loop line_fields Let_def toTokens_eq)
    (simp add: MinCellLevel_def parentPrefix_def numeral_eq_Suc)

lemma line_stored:
  "geo_IndexTokens line_lib True =
     Inr (map (\<lambda>c. parentPrefix @ replicate c CHR ''x'') [5..<17] @ [coverPrefix @ replicate 16 CHR ''x''])"
  by (simp add: geo_IndexTokens_def indexCells_def indexCellsForPoint_def parentCoverTokens_eq line_lib_def Let_def
      MinCellLevel_def MaxCellLevel_def comp_def)

lemma line_match:
  "MatchesFilter line_lib \<lparr>qd_pt = None, qd_loop = Some (), qd_cap = None, qtype = QueryTypeWithin\<rparr> True = Inr True"
  by (simp add: MatchesFilter_def isWithin_def line_lib_def)

lemma line_premises: "qd_pt q = None \<Longrightarrow> match_premises line_lib q g"
  unfolding match_premises_def by (intro conjI allI impI, rule line_region) (simp_all add: line_lib_def)


end
