(* ===== verification/Worker_Task.thy ===== *)
theory Worker_Task
  imports Mutation_Routing Geo_Index
begin

text \<open>
  Reading posting lists for a query, \<^verbatim>\<open>worker/task.go\<close>, \<^verbatim>\<open>worker/tokens.go\<close> and \<^verbatim>\<open>worker/sort.go\<close>. A task
  names a predicate and either uids or a function whose arguments give tokens of the index; the answer
  has one list of uids and one value for each of them. A sort walks the tokens of an index in order and
  collects the uids of every list asked for. Everything goes through the cache of posting lists. Results:
  a task reads the views of its keys and gives back all its references; with an exact index a function
  finds exactly the entities whose values have the tokens; a sort returns the requested window of the
  uids in the order of tokens and values.
\<close>

section \<open>Reading a list of the cache\<close>

definition cache_Uids :: "addr \<Rightarrow> list_options \<Rightarrow> cache \<Rightarrow> (u64 list \<times> cache) go" where
  "cache_Uids a opt w =
     (case Uids (pstore w) (lheap w a) opt of
        Inl e \<Rightarrow> Inl e
      | Inr (us, l') \<Rightarrow> Inr (us, w\<lparr>lheap := (lheap w)(a := l')\<rparr>))"

definition cache_Length :: "addr \<Rightarrow> u64 \<Rightarrow> cache \<Rightarrow> (int \<times> cache) go" where
  "cache_Length a afterUid w =
     (case List_Length (pstore w) (lheap w a) afterUid of
        Inl e \<Rightarrow> Inl e
      | Inr (n, l') \<Rightarrow> Inr (n, w\<lparr>lheap := (lheap w)(a := l')\<rparr>))"

section \<open>Tasks\<close>

record task_query =
  q_Attr :: bytes
  q_AfterUid :: u64
  q_DoCount :: bool
  q_Uids :: "u64 list"
  q_SrcFunc :: "bytes list"

record task_result =
  r_UidMatrix :: "u64 list list"
  r_Values :: "task_value list"
  r_Counts :: "u32 list"
  r_IntersectDest :: bool

text \<open>
  The code outside the repository: geometries, \<^verbatim>\<open>strings.ToLower\<close>, \<^verbatim>\<open>strconv.ParseFloat\<close> and the
  tokenizer, which can fail to start.
\<close>

record ('g, 'pt, 'loop, 'cap, 'cell, 'rect) task_env =
  te_geo :: "('g, 'pt, 'loop, 'cap, 'cell, 'rect) s2_lib"
  te_fromJSON :: "bytes \<Rightarrow> 'g go"
  te_fromWKB :: "bytes \<Rightarrow> 'g go"
  te_toLower :: "bytes \<Rightarrow> bytes"
  te_parseFloat :: "bytes \<Rightarrow> u64 go"
  te_tokenize :: "bytes \<Rightarrow> bytes list option"

definition getStringTokens :: "(bytes \<Rightarrow> bytes list option) \<Rightarrow> bytes \<Rightarrow> bytes list go" where
  "getStringTokens newTokenizer trm =
     (case newTokenizer trm of None \<Rightarrow> Inl (Err ''Could not create tokenizer'') | Some toks \<Rightarrow> Inr toks)"

definition getTokens :: "(bytes \<Rightarrow> bytes list option) \<Rightarrow> bytes list \<Rightarrow> bytes list go" where
  "getTokens newTokenizer funcArgs =
     go_bind (assertTruef (1 < length funcArgs) ''Invalid function'') (\<lambda>_.
       if length funcArgs \<noteq> 2 then Inl (Err ''Function requires 2 arguments'')
       else getStringTokens newTokenizer (funcArgs ! 1))"

text \<open>The keys that a task reads, the geometry it filters by, and whether its rows are intersected.\<close>

definition task_keys ::
  "('g, 'pt, 'loop, 'cap, 'cell, 'rect) task_env \<Rightarrow> task_query
    \<Rightarrow> (bytes list \<times> ('pt, 'loop, 'cap) query_data option \<times> bool) go" where
  "task_keys E q =
     (if q_SrcFunc q \<noteq> [] then
        if IsGeoFunc (q_SrcFunc q ! 0) then
          go_bind (geo_GetTokens (te_geo E) (te_fromJSON E) (te_toLower E) (te_parseFloat E) (q_SrcFunc q))
            (\<lambda>(tokens, gq). Inr (map (IndexKey (q_Attr q)) tokens, Some gq, False))
        else
          go_bind (getTokens (te_tokenize E) (q_SrcFunc q)) (\<lambda>tokens.
            Inr (map (IndexKey (q_Attr q)) tokens, None, te_toLower E (q_SrcFunc q ! 0) = ''allof''))
      else Inr (map (\<lambda>u. Key u (q_Attr q)) (q_Uids q), None, False))"

definition task_val :: "(bytes \<times> u8) option \<Rightarrow> task_value" where
  "task_val v = (case v of
       None \<Rightarrow> \<lparr>tv_Val = [], tv_ValType = 0\<rparr>
     | Some (vbytes, vtype) \<Rightarrow> \<lparr>tv_Val = vbytes, tv_ValType = ucast vtype\<rparr>)"

definition task_options :: "task_query \<Rightarrow> list_options" where
  "task_options q =
     \<lparr>AfterUID = q_AfterUid q,
      Intersect = (if q_SrcFunc q \<noteq> [] \<and> q_Uids q \<noteq> [] then Some (q_Uids q) else None)\<rparr>"

text \<open>One round of the loop: the value of the list, and its length or its uids.\<close>

definition task_row ::
  "task_query \<Rightarrow> addr \<Rightarrow> cache \<times> task_result \<Rightarrow> (cache \<times> task_result) go" where
  "task_row q a = (\<lambda>(w, out).
     go_bind (read_old a w) (\<lambda>(v, w1).
       let out1 = out\<lparr>r_Values := r_Values out @ [task_val v]\<rparr> in
       if q_DoCount q then
         go_bind (cache_Length a 0 w1) (\<lambda>(n, w2).
           Inr (w2, out1\<lparr>r_Counts := r_Counts out1 @ [word_of_int n], r_UidMatrix := r_UidMatrix out1 @ [[]]\<rparr>))
       else
         go_bind (cache_Uids a (task_options q) w1) (\<lambda>(us, w2).
           Inr (w2, out1\<lparr>r_UidMatrix := r_UidMatrix out1 @ [us]\<rparr>))))"

fun task_loop ::
  "(bytes \<Rightarrow> u32) \<Rightarrow> (bytes \<Rightarrow> u64) \<Rightarrow> task_query \<Rightarrow> bytes list \<Rightarrow> cache \<times> task_result \<Rightarrow> addr list
    \<Rightarrow> ((cache \<times> task_result) \<times> addr list) go" where
  "task_loop fp32 fp64 q [] s held = Inr (s, held)"
| "task_loop fp32 fp64 q (k # ks) s held =
     (case GetOrCreate fp32 fp64 k (fst s) of
        Inl e \<Rightarrow> Inl e
      | Inr (a, w) \<Rightarrow>
          (case task_row q a (w, snd s) of
             Inl e \<Rightarrow> Inl e
           | Inr s' \<Rightarrow> task_loop fp32 fp64 q ks s' (a # held)))"

text \<open>The values of the candidates of a geometric query.\<close>

fun read_values ::
  "(bytes \<Rightarrow> u32) \<Rightarrow> (bytes \<Rightarrow> u64) \<Rightarrow> bytes \<Rightarrow> u64 list \<Rightarrow> cache \<Rightarrow> (task_value list \<times> cache) go" where
  "read_values fp32 fp64 attr [] w = Inr ([], w)"
| "read_values fp32 fp64 attr (uid # uids) w =
     (case GetOrCreate fp32 fp64 (Key uid attr) w of
        Inl e \<Rightarrow> Inl e
      | Inr (a, w1) \<Rightarrow>
          (case read_old a w1 of
             Inl e \<Rightarrow> Inl e
           | Inr (v, w2) \<Rightarrow>
               (case cache_decr a w2 of
                  Inl e \<Rightarrow> Inl e
                | Inr w3 \<Rightarrow>
                    (case read_values fp32 fp64 attr uids w3 of
                       Inl e \<Rightarrow> Inl e
                     | Inr (vs, w4) \<Rightarrow> Inr (task_val v # vs, w4)))))"

fun go_map :: "('a \<Rightarrow> 'b go) \<Rightarrow> 'a list \<Rightarrow> 'b list go" where
  "go_map f [] = Inr []"
| "go_map f (x # xs) = go_bind (f x) (\<lambda>y. go_bind (go_map f xs) (\<lambda>ys. Inr (y # ys)))"

definition geo_filter ::
  "('g, 'pt, 'loop, 'cap, 'cell, 'rect) task_env \<Rightarrow> (bytes \<Rightarrow> u32) \<Rightarrow> (bytes \<Rightarrow> u64) \<Rightarrow> bytes
    \<Rightarrow> ('pt, 'loop, 'cap) query_data \<Rightarrow> cache \<times> task_result \<Rightarrow> (cache \<times> task_result) go" where
  "geo_filter E fp32 fp64 attr gq = (\<lambda>(w, out).
     go_bind (MergeSorted (r_UidMatrix out)) (\<lambda>uids.
       go_bind (read_values fp32 fp64 attr uids w) (\<lambda>(vs, w').
         go_bind (FilterUids (te_geo E) (te_fromWKB E) gq uids vs) (\<lambda>filtered.
           go_bind (go_map (\<lambda>ul. IntersectSorted [ul, filtered]) (r_UidMatrix out)) (\<lambda>matrix.
             Inr (w', out\<lparr>r_UidMatrix := matrix\<rparr>))))))"

definition empty_result :: task_result where
  "empty_result = \<lparr>r_UidMatrix = [], r_Values = [], r_Counts = [], r_IntersectDest = False\<rparr>"

definition processTask ::
  "('g, 'pt, 'loop, 'cap, 'cell, 'rect) task_env \<Rightarrow> (bytes \<Rightarrow> u32) \<Rightarrow> (bytes \<Rightarrow> u64) \<Rightarrow> task_query \<Rightarrow> cache
    \<Rightarrow> (task_result \<times> cache) go" where
  "processTask E fp32 fp64 q w =
     go_bind (task_keys E q) (\<lambda>(keys, geoQuery, intersectDest).
       go_bind (task_loop fp32 fp64 q keys (w, empty_result) []) (\<lambda>(s, held).
         go_bind (case geoQuery of None \<Rightarrow> Inr s | Some gq \<Rightarrow> geo_filter E fp32 fp64 (q_Attr q) gq s) (\<lambda>(w', out).
           go_bind (decr_all held w') (\<lambda>w''. Inr (out\<lparr>r_IntersectDest := intersectDest\<rparr>, w'')))))"

text \<open>
  The call on any server: it processes the task itself or sends it to a server of the group. \<open>conn\<close>
  says whether there is a connection to an address, \<open>remote\<close> is the remote call.
\<close>

definition ProcessTaskOverNetwork ::
  "('g, 'pt, 'loop, 'cap, 'cell, 'rect) task_env \<Rightarrow> 'h worker \<Rightarrow> (nat \<Rightarrow> nat) \<Rightarrow> (bytes \<Rightarrow> go_err option)
    \<Rightarrow> (bytes \<Rightarrow> task_query \<Rightarrow> task_result go) \<Rightarrow> task_query \<Rightarrow> cache \<Rightarrow> (task_result \<times> cache) go" where
  "ProcessTaskOverNetwork E W intn conn remote q w =
     go_bind (w_BelongsTo W (q_Attr q)) (\<lambda>grp.
       if ServesGroup (w_groups W) grp then processTask E (w_fp32 W) (w_fp64 W) q w
       else
         go_bind (AnyServer intn (w_groups W) grp) (\<lambda>addr.
           case conn addr of
             Some e \<Rightarrow> Inl e
           | None \<Rightarrow> go_bind (remote addr q) (\<lambda>r. Inr (r, w))))"

text \<open>The handler of the remote call; its context may end before the task does.\<close>

definition ServeTask ::
  "('g, 'pt, 'loop, 'cap, 'cell, 'rect) task_env \<Rightarrow> 'h worker \<Rightarrow> go_err option \<Rightarrow> go_err option \<Rightarrow> task_query
    \<Rightarrow> cache \<Rightarrow> (task_result go \<times> cache) go" where
  "ServeTask E W ctxErr ctxDone q w =
     (case ctxErr of
        Some e \<Rightarrow> Inr (Inl e, w)
      | None \<Rightarrow>
          go_bind (w_BelongsTo W (q_Attr q)) (\<lambda>grp.
            go_bind (assertTruef (ServesGroup (w_groups W) grp) ''Request sent to wrong server.'') (\<lambda>_.
              case processTask E (w_fp32 W) (w_fp64 W) q w of
                Inl (Err e) \<Rightarrow> Inr (Inl (case ctxDone of Some c \<Rightarrow> c | None \<Rightarrow> Err e), w)
              | Inl e \<Rightarrow> Inl e
              | Inr (r, w') \<Rightarrow> Inr (case ctxDone of Some c \<Rightarrow> Inl c | None \<Rightarrow> Inr r, w'))))"

section \<open>Sorting\<close>

record task_sort =
  ts_Attr :: bytes
  ts_UidMatrix :: "u64 list list"
  ts_Count :: int
  ts_Offset :: int

text \<open>The offset still to be skipped and the uids collected so far, for each list.\<close>

type_synonym intersectedList = "int \<times> u64 list"

definition decode_value :: "'g formats \<Rightarrow> scalar \<Rightarrow> (bytes \<times> u8) option \<Rightarrow> 'g go_value go" where
  "decode_value c scalar v =
     (case v of
        None \<Rightarrow> Inl ErrNoValue
      | Some (valBytes, vType) \<Rightarrow>
          if ValueForType vType = None then Inl (Err ''Invalid type'')
          else go_bind (UnmarshalBinary c vType valBytes) (Convert c scalar))"

definition fetchValue ::
  "'g formats \<Rightarrow> (bytes \<Rightarrow> u32) \<Rightarrow> (bytes \<Rightarrow> u64) \<Rightarrow> u64 \<Rightarrow> bytes \<Rightarrow> scalar \<Rightarrow> cache
    \<Rightarrow> ('g go_value go \<times> cache) go" where
  "fetchValue c fp32 fp64 uid attr scalar w =
     go_bind (GetOrCreate fp32 fp64 (Key uid attr) w) (\<lambda>(a, w1).
       go_bind (read_old a w1) (\<lambda>(v, w2).
         go_bind (cache_decr a w2) (\<lambda>w3.
           case decode_value c scalar v of
             Inl (Err e) \<Rightarrow> Inr (Inl (Err e), w3)
           | Inl e \<Rightarrow> Inl e
           | Inr sval \<Rightarrow> Inr (Inr sval, w3))))"

fun fetch_values ::
  "'g formats \<Rightarrow> (bytes \<Rightarrow> u32) \<Rightarrow> (bytes \<Rightarrow> u64) \<Rightarrow> bytes \<Rightarrow> scalar \<Rightarrow> u64 list \<Rightarrow> cache
    \<Rightarrow> ('g go_value list go \<times> cache) go" where
  "fetch_values c fp32 fp64 attr scalar [] w = Inr (Inr [], w)"
| "fetch_values c fp32 fp64 attr scalar (uid # uids) w =
     (case fetchValue c fp32 fp64 uid attr scalar w of
        Inl e \<Rightarrow> Inl e
      | Inr (Inl e, w1) \<Rightarrow> Inr (Inl e, w1)
      | Inr (Inr sval, w1) \<Rightarrow>
          (case fetch_values c fp32 fp64 attr scalar uids w1 of
             Inl e \<Rightarrow> Inl e
           | Inr (Inl e, w2) \<Rightarrow> Inr (Inl e, w2)
           | Inr (Inr svals, w2) \<Rightarrow> Inr (Inr (sval # svals), w2)))"

text \<open>The uids as the call leaves them; its error is dropped by the caller.\<close>

definition sortByValue ::
  "'g formats \<Rightarrow> (bytes \<Rightarrow> u32) \<Rightarrow> (bytes \<Rightarrow> u64) \<Rightarrow> bytes \<Rightarrow> u64 list \<Rightarrow> scalar \<Rightarrow> cache
    \<Rightarrow> (u64 list \<times> cache) go" where
  "sortByValue c fp32 fp64 attr ul scalar w =
     go_bind (fetch_values c fp32 fp64 attr scalar ul w) (\<lambda>(r, w').
       case r of
         Inl e \<Rightarrow> Inr (ul, w')
       | Inr svals \<Rightarrow>
           (case Scalar_Sort scalar (zip svals ul) of
              Inl (Err e) \<Rightarrow> Inr (ul, w')
            | Inl e \<Rightarrow> Inl e
            | Inr ps \<Rightarrow> Inr (map snd ps, w')))"

fun bucket_loop ::
  "'g formats \<Rightarrow> (bytes \<Rightarrow> u32) \<Rightarrow> (bytes \<Rightarrow> u64) \<Rightarrow> bytes \<Rightarrow> scalar \<Rightarrow> int \<Rightarrow> addr
    \<Rightarrow> (u64 list \<times> intersectedList) list \<Rightarrow> cache \<Rightarrow> (intersectedList list \<times> cache) go" where
  "bucket_loop c fp32 fp64 attr scalar cnt pl [] w = Inr ([], w)"
| "bucket_loop c fp32 fp64 attr scalar cnt pl ((ul, il) # rest) w =
     (let continue = (\<lambda>il' w'. case bucket_loop c fp32 fp64 attr scalar cnt pl rest w' of
            Inl e \<Rightarrow> Inl e | Inr (out, w'') \<Rightarrow> Inr (il' # out, w'')) in
      if 0 < cnt \<and> cnt \<le> int (length (snd il)) then continue il w
      else
        case cache_Uids pl \<lparr>AfterUID = 0, Intersect = Some ul\<rparr> w of
          Inl e \<Rightarrow> Inl e
        | Inr (result, w1) \<Rightarrow>
            let n = int (length result); offset = fst il in
            if n \<le> offset then continue (offset - n, snd il) w1
            else
              case sortByValue c fp32 fp64 attr result scalar w1 of
                Inl e \<Rightarrow> Inl e
              | Inr (sorted_uids, w2) \<Rightarrow>
                  let uids = drop (nat offset) sorted_uids;
                      slack = cnt - int (length (snd il));
                      m = (if 0 < cnt \<and> slack < int (length uids) then nat slack else length uids)
                  in continue (if 0 < offset then 0 else offset, snd il @ take m uids) w2)"

datatype bucket_result = errContinue | errDone | errOther go_err

fun check_sizes :: "int \<Rightarrow> intersectedList list \<Rightarrow> bucket_result go" where
  "check_sizes cnt [] = Inr errDone"
| "check_sizes cnt (il # out) =
     (if int (length (snd il)) < cnt then Inr errContinue
      else if int (length (snd il)) = cnt then check_sizes cnt out
      else Inl (Fatal ''Assert failed''))"

definition intersectBucket ::
  "'g index_env \<Rightarrow> (bytes \<Rightarrow> u32) \<Rightarrow> (bytes \<Rightarrow> u64) \<Rightarrow> task_sort \<Rightarrow> bytes \<Rightarrow> bytes \<Rightarrow> intersectedList list
    \<Rightarrow> cache \<Rightarrow> (bucket_result \<times> intersectedList list \<times> cache) go" where
  "intersectBucket env fp32 fp64 ts attr token out w =
     (case TypeOf (schema_of env) attr of
        None \<Rightarrow> Inl (Panic ''nil pointer dereference'')
      | Some (Object ob) \<Rightarrow> Inr (errOther (Err ''Cannot sort attribute of type object.''), out, w)
      | Some (Scalar scalar) \<Rightarrow>
          go_bind (GetOrCreate fp32 fp64 (IndexKey attr token) w) (\<lambda>(pl, w1).
            go_bind (bucket_loop (fmts env) fp32 fp64 attr scalar (ts_Count ts) pl (zip (ts_UidMatrix ts) out) w1)
              (\<lambda>(out', w2).
                go_bind (check_sizes (ts_Count ts) out') (\<lambda>r.
                  go_bind (cache_decr pl w2) (\<lambda>w3. Inr (r, out', w3))))))"

text \<open>
  The walk through the table of tokens. It visits the tokens of the table in order; the number of steps
  is bounded by the length of the table because every token is greater than the one before.
\<close>

fun sort_buckets ::
  "nat \<Rightarrow> 'g index_env \<Rightarrow> (bytes \<Rightarrow> u32) \<Rightarrow> (bytes \<Rightarrow> u64) \<Rightarrow> task_sort \<Rightarrow> tokens_table \<Rightarrow> bytes
    \<Rightarrow> intersectedList list \<Rightarrow> cache \<Rightarrow> ((intersectedList list go \<times> cache) go) option" where
  "sort_buckets fuel env fp32 fp64 ts t token out w =
     (if token = [] then Some (Inr (Inr out, w))
      else
        case fuel of
          0 \<Rightarrow> None
        | Suc fuel' \<Rightarrow>
            (case intersectBucket env fp32 fp64 ts (ts_Attr ts) token out w of
               Inl e \<Rightarrow> Some (Inl e)
             | Inr (errDone, out', w') \<Rightarrow> Some (Inr (Inr out', w'))
             | Inr (errContinue, out', w') \<Rightarrow>
                 sort_buckets fuel' env fp32 fp64 ts t (TokensTable_GetNext t token) out' w'
             | Inr (errOther e, out', w') \<Rightarrow> Some (Inr (Inl e, w'))))"

definition processSort ::
  "'g index_env \<Rightarrow> (bytes \<Rightarrow> u32) \<Rightarrow> (bytes \<Rightarrow> u64) \<Rightarrow> task_sort \<Rightarrow> cache \<times> tables
    \<Rightarrow> ((u64 list list go \<times> cache) go) option" where
  "processSort env fp32 fp64 ts = (\<lambda>(w, tbls).
     if \<not> 0 < ts_Count ts
     then Some (Inl (Fatal ''We do not yet support negative or infinite count with sorting''))
     else
       case GetTokensTable tbls (ts_Attr ts) of
         None \<Rightarrow> Some (Inl (Panic ''nil pointer dereference''))
       | Some t \<Rightarrow>
           map_option (\<lambda>r. go_bind r (\<lambda>(out, w'). Inr (go_bind out (\<lambda>out. Inr (map snd out)), w')))
             (sort_buckets (length t) env fp32 fp64 ts t (TokensTable_GetFirst t)
                (map (\<lambda>_. (ts_Offset ts, [])) (ts_UidMatrix ts)) w))"

text \<open>The calls over the network, as for tasks.\<close>

definition SortOverNetwork ::
  "'g worker \<Rightarrow> (nat \<Rightarrow> nat) \<Rightarrow> (bytes \<Rightarrow> go_err option) \<Rightarrow> (bytes \<Rightarrow> task_sort \<Rightarrow> u64 list list go) \<Rightarrow> go_err option
    \<Rightarrow> task_sort \<Rightarrow> cache \<times> tables \<Rightarrow> ((u64 list list go \<times> cache) go) option" where
  "SortOverNetwork W intn conn remote ctxDone q s =
     (case w_BelongsTo W (ts_Attr q) of
        Inl e \<Rightarrow> Some (Inl e)
      | Inr grp \<Rightarrow>
          if ServesGroup (w_groups W) grp then processSort (w_index W) (w_fp32 W) (w_fp64 W) q s
          else
            Some (go_bind (AnyServer intn (w_groups W) grp) (\<lambda>addr.
              case conn addr of
                Some e \<Rightarrow> Inr (Inl e, fst s)
              | None \<Rightarrow> Inr (case ctxDone of Some c \<Rightarrow> Inl c | None \<Rightarrow> remote addr q, fst s))))"

definition grpc_Sort ::
  "'g worker \<Rightarrow> go_err option \<Rightarrow> go_err option \<Rightarrow> task_sort \<Rightarrow> cache \<times> tables
    \<Rightarrow> ((u64 list list go \<times> cache) go) option" where
  "grpc_Sort W ctxErr ctxDone ts s =
     (case ctxErr of
        Some e \<Rightarrow> Some (Inr (Inl e, fst s))
      | None \<Rightarrow>
          (case go_bind (w_BelongsTo W (ts_Attr ts)) (\<lambda>grp.
                  assertTruef (ServesGroup (w_groups W) grp) ''Request sent to wrong server.'') of
             Inl e \<Rightarrow> Some (Inl e)
           | Inr _ \<Rightarrow>
               map_option (\<lambda>r. go_bind r (\<lambda>(out, w'). Inr (case ctxDone of Some c \<Rightarrow> Inl c | None \<Rightarrow> out, w')))
                 (processSort (w_index W) (w_fp32 W) (w_fp64 W) ts s)))"

section \<open>What a task reads\<close>

text \<open>The uids of a list under the options of a read, and when the read runs past the intersection list.\<close>

definition list_uids :: "(u64 \<Rightarrow> content option) \<Rightarrow> list_options \<Rightarrow> u64 list" where
  "list_uids v opt = sorted_list_of_set {q. (AfterUID opt < q \<and> q < maxUint64 \<and>
     (case Intersect opt of None \<Rightarrow> True | Some us \<Rightarrow> q \<in> set us)) \<and> v q \<noteq> None}"

definition runs_past :: "(u64 \<Rightarrow> content option) \<Rightarrow> list_options \<Rightarrow> bool" where
  "runs_past v opt \<longleftrightarrow> (case Intersect opt of None \<Rightarrow> False | Some us \<Rightarrow>
     \<exists>q. AfterUID opt < q \<and> q < maxUint64 \<and> v q \<noteq> None \<and> us \<noteq> [] \<and> (\<forall>x \<in> set us. x < q))"

definition options_sorted :: "list_options \<Rightarrow> bool" where
  "options_sorted opt \<longleftrightarrow> (case Intersect opt of None \<Rightarrow> True | Some us \<Rightarrow> sorted us)"

definition view_value :: "(u64 \<Rightarrow> content option) \<Rightarrow> (bytes \<times> u8) option" where
  "view_value v = map_option (\<lambda>(ty, b, lab). (b, ucast ty)) (v maxUint64)"

definition view_count :: "(u64 \<Rightarrow> content option) \<Rightarrow> nat" where
  "view_count v = card {q. 0 < q \<and> v q \<noteq> None}"

lemma list_uids_spec:
  "set (list_uids v opt) = {q. (AfterUID opt < q \<and> q < maxUint64 \<and>
     (case Intersect opt of None \<Rightarrow> True | Some us \<Rightarrow> q \<in> set us)) \<and> v q \<noteq> None}"
  "ssorted (list_uids v opt)"
  unfolding list_uids_def by simp_all

lemma Uids_spec:
  assumes "getPostingList st l = Inr (pl, l')" "layers_ok (Postings pl) (mlayer l)" "options_sorted opt"
    "\<not> runs_past (view (Postings pl) (mlayer l)) opt"
  shows "Uids st l opt = Inr (list_uids (view (Postings pl) (mlayer l)) opt, l')"
proof (cases "Intersect opt")
  case None
  then have opt: "opt = \<lparr>AfterUID = AfterUID opt, Intersect = None\<rparr>" by simp
  show ?thesis using Uids_None_spec [OF assms(1,2), of "AfterUID opt"] None
    unfolding opt [symmetric] by (simp add: list_uids_def)
next
  case (Some us)
  then have opt: "opt = \<lparr>AfterUID = AfterUID opt, Intersect = Some us\<rparr>" by simp
  have s: "sorted us" using assms(3) Some by (simp add: options_sorted_def)
  show ?thesis using Uids_Some_spec [OF assms(1,2) s, of "AfterUID opt"] Some assms(4)
    unfolding opt [symmetric] by (simp add: list_uids_def runs_past_def)
qed

lemma cache_Uids_ok:
  assumes "inv_state fp64 K (w, H)" "a \<in># H" "\<not> deleteMe (lheap w a)" "key (lheap w a) = k"
    "options_sorted opt" "\<not> runs_past (key_view fp64 w k) opt"
  obtains w' where "cache_Uids a opt w = Inr (list_uids (key_view fp64 w k) opt, w')" "inv_state fp64 K (w', H)"
    "key_view fp64 w' = key_view fp64 w" "key (lheap w' a) = k" "\<not> deleteMe (lheap w' a)"
proof -
  note h = held_ok [OF assms(1-3)]
  obtain pl l' where g: "getPostingList (pstore w) (lheap w a) = Inr (pl, l')"
    "layers_ok (Postings pl) (mlayer (lheap w a))"
    "list_view (pstore w) (lheap w a) = view (Postings pl) (mlayer (lheap w a))"
    by (rule list_ok_getE [OF h(2)])
  have v: "key_view fp64 w k = view (Postings pl) (mlayer (lheap w a))" using g(3) h(5) assms(4) by simp
  note l = load_ok [OF assms(1-3) g(1)]
  have "cache_Uids a opt w = Inr (list_uids (key_view fp64 w k) opt, w\<lparr>lheap := (lheap w)(a := l')\<rparr>)"
    using Uids_spec [OF g(1,2) assms(5)] assms(6) unfolding v by (simp add: cache_Uids_def)
  from that [OF this l(1,2)] l(3,4) assms(4) show thesis by simp
qed

lemma cache_Length_ok:
  assumes "inv_state fp64 K (w, H)" "a \<in># H" "\<not> deleteMe (lheap w a)" "key (lheap w a) = k"
  obtains w' where "cache_Length a 0 w = Inr (int (view_count (key_view fp64 w k)), w')" "inv_state fp64 K (w', H)"
    "key_view fp64 w' = key_view fp64 w" "key (lheap w' a) = k" "\<not> deleteMe (lheap w' a)"
proof -
  note h = held_ok [OF assms(1-3)]
  obtain pl l' where g: "getPostingList (pstore w) (lheap w a) = Inr (pl, l')"
    "layers_ok (Postings pl) (mlayer (lheap w a))"
    "list_view (pstore w) (lheap w a) = view (Postings pl) (mlayer (lheap w a))"
    by (rule list_ok_getE [OF h(2)])
  have v: "key_view fp64 w k = view (Postings pl) (mlayer (lheap w a))" using g(3) h(5) assms(4) by simp
  note l = load_ok [OF assms(1-3) g(1)]
  have "length (filter (\<lambda>p. 0 < Uid p) (live (Postings pl) (mlayer (lheap w a)))) = view_count (key_view fp64 w k)"
    using arg_cong [OF live_uids_filter [OF g(2), of "\<lambda>q. 0 < q"], of length] by (simp add: v view_count_def)
  then have "cache_Length a 0 w = Inr (int (view_count (key_view fp64 w k)), w\<lparr>lheap := (lheap w)(a := l')\<rparr>)"
    using List_Length_live [OF g(1,2), of 0] by (simp add: cache_Length_def)
  from that [OF this l(1,2)] l(3,4) assms(4) show thesis by simp
qed

text \<open>The part of the answer that one key gives.\<close>

definition row_result :: "task_query \<Rightarrow> (u64 \<Rightarrow> content option) \<Rightarrow> task_result \<Rightarrow> task_result" where
  "row_result q v out =
     \<lparr>r_UidMatrix = r_UidMatrix out @ [if q_DoCount q then [] else list_uids v (task_options q)],
      r_Values = r_Values out @ [task_val (view_value v)],
      r_Counts = r_Counts out @ (if q_DoCount q then [word_of_nat (view_count v)] else []),
      r_IntersectDest = r_IntersectDest out\<rparr>"

definition task_ok :: "task_query \<Rightarrow> (bytes \<Rightarrow> u64 \<Rightarrow> content option) \<Rightarrow> bytes list \<Rightarrow> bool" where
  "task_ok q v keys \<longleftrightarrow> sorted (q_Uids q) \<and> (q_DoCount q \<or> (\<forall>k \<in> set keys. \<not> runs_past (v k) (task_options q)))"

lemma task_row_ok:
  assumes "inv_state fp64 K (w, H)" "a \<in># H" "\<not> deleteMe (lheap w a)" "key (lheap w a) = k"
    "task_ok q (key_view fp64 w) [k]"
  obtains w' where "task_row q a (w, out) = Inr (w', row_result q (key_view fp64 w k) out)"
    "inv_state fp64 K (w', H)" "key_view fp64 w' = key_view fp64 w"
proof -
  obtain w1 where w1: "read_old a w = Inr (view_value (key_view fp64 w k), w1)" "inv_state fp64 K (w1, H)"
    "key_view fp64 w1 = key_view fp64 w" "key (lheap w1 a) = k" "\<not> deleteMe (lheap w1 a)"
    using read_old_ok [OF assms(1-3)] assms(4) unfolding view_value_def by metis
  show thesis
  proof (cases "q_DoCount q")
    case True
    obtain w2 where w2: "cache_Length a 0 w1 = Inr (int (view_count (key_view fp64 w1 k)), w2)"
      "inv_state fp64 K (w2, H)" "key_view fp64 w2 = key_view fp64 w1"
      by (rule cache_Length_ok [OF w1(2) assms(2) w1(5,4)])
    have "task_row q a (w, out) = Inr (w2, row_result q (key_view fp64 w k) out)"
      using True w2(1) w1(3) by (simp add: task_row_def w1(1) Let_def row_result_def)
    with that w2 w1(3) show thesis by simp
  next
    case False
    have o: "options_sorted (task_options q)" using assms(5) by (simp add: task_ok_def options_sorted_def task_options_def)
    have "\<not> runs_past (key_view fp64 w1 k) (task_options q)" using assms(5) False w1(3) by (simp add: task_ok_def)
    then obtain w2 where w2: "cache_Uids a (task_options q) w1 = Inr (list_uids (key_view fp64 w1 k) (task_options q), w2)"
      "inv_state fp64 K (w2, H)" "key_view fp64 w2 = key_view fp64 w1"
      by (rule cache_Uids_ok [OF w1(2) assms(2) w1(5,4) o])
    have "task_row q a (w, out) = Inr (w2, row_result q (key_view fp64 w k) out)"
      using False w2(1) w1(3) by (simp add: task_row_def w1(1) Let_def row_result_def)
    with that w2 w1(3) show thesis by simp
  qed
qed

lemma task_loop_ok:
  assumes "inv_state fp64 K (w, H + mset held)" "inj_on fp64 K" "set ks \<subseteq> K" "task_ok q (key_view fp64 w) ks"
  shows "\<exists>w' held'. task_loop fp32 fp64 q ks (w, out) held =
      Inr ((w', fold (\<lambda>k. row_result q (key_view fp64 w k)) ks out), held') \<and>
    inv_state fp64 K (w', H + mset held') \<and> (\<forall>k \<in> K. key_view fp64 w' k = key_view fp64 w k)"
  using assms
proof (induction ks arbitrary: w out held)
  case (Cons k ks)
  have k: "k \<in> K" using Cons.prems(3) by simp
  obtain a w1 where w1: "GetOrCreate fp32 fp64 k w = Inr (a, w1)" "key (lheap w1 a) = k"
    "inv_state fp64 K (w1, add_mset a (H + mset held))" "\<forall>k' \<in> K. key_view fp64 w1 k' = key_view fp64 w k'"
    "\<not> deleteMe (lheap w1 a)"
    by (rule acquire_ok [OF Cons.prems(1) k Cons.prems(2), where ?fp32.0 = fp32]) blast
  have ok: "task_ok q (key_view fp64 w1) [k]" "task_ok q (key_view fp64 w1) ks"
    using Cons.prems(3,4) w1(4) by (auto simp: task_ok_def)
  have a: "a \<in># add_mset a (H + mset held)" by simp
  obtain w2 where w2: "task_row q a (w1, out) = Inr (w2, row_result q (key_view fp64 w1 k) out)"
    "inv_state fp64 K (w2, add_mset a (H + mset held))" "key_view fp64 w2 = key_view fp64 w1"
    by (rule task_row_ok [OF w1(3) a w1(5,2) ok(1)])
  have v: "key_view fp64 w2 k' = key_view fp64 w k'" if "k' \<in> set ks" for k'
    using that Cons.prems(3) w1(4) w2(3) by auto
  have inv: "inv_state fp64 K (w2, H + mset (a # held))" "task_ok q (key_view fp64 w2) ks" "set ks \<subseteq> K"
    using w2(2,3) ok(2) Cons.prems(3) by simp_all
  have "fold (\<lambda>k. row_result q (key_view fp64 w2 k)) ks x = fold (\<lambda>k. row_result q (key_view fp64 w k)) ks x" for x
    by (rule fold_cong) (simp_all add: v)
  with Cons.IH [OF inv(1) Cons.prems(2) inv(3,2), of "row_result q (key_view fp64 w1 k) out"] w1 w2 k
  show ?case by auto
qed simp

lemma fold_row_result:
  "fold (\<lambda>k. row_result q (v k)) ks out =
     \<lparr>r_UidMatrix = r_UidMatrix out @ map (\<lambda>k. if q_DoCount q then [] else list_uids (v k) (task_options q)) ks,
      r_Values = r_Values out @ map (\<lambda>k. task_val (view_value (v k))) ks,
      r_Counts = r_Counts out @ (if q_DoCount q then map (\<lambda>k. word_of_nat (view_count (v k))) ks else []),
      r_IntersectDest = r_IntersectDest out\<rparr>"
  by (induction ks arbitrary: out) (simp_all add: row_result_def)

lemma processTask_ok:
  assumes "inv_state fp64 K (w, H)" "inj_on fp64 K" "task_keys E q = Inr (keys, None, dest)" "set keys \<subseteq> K"
    "task_ok q (key_view fp64 w) keys"
  shows "\<exists>w'. processTask E fp32 fp64 q w =
      Inr (\<lparr>r_UidMatrix = map (\<lambda>k. if q_DoCount q then [] else list_uids (key_view fp64 w k) (task_options q)) keys,
            r_Values = map (\<lambda>k. task_val (view_value (key_view fp64 w k))) keys,
            r_Counts = (if q_DoCount q then map (\<lambda>k. word_of_nat (view_count (key_view fp64 w k))) keys else []),
            r_IntersectDest = dest\<rparr>, w') \<and>
    inv_state fp64 K (w', H) \<and> (\<forall>k \<in> K. key_view fp64 w' k = key_view fp64 w k)"
proof -
  have i: "inv_state fp64 K (w, H + mset [])" using assms(1) by simp
  obtain w1 held where l: "task_loop fp32 fp64 q keys (w, empty_result) [] =
      Inr ((w1, fold (\<lambda>k. row_result q (key_view fp64 w k)) keys empty_result), held)"
    "inv_state fp64 K (w1, H + mset held)" "\<forall>k \<in> K. key_view fp64 w1 k = key_view fp64 w k"
    using task_loop_ok [OF i assms(2,4,5), of fp32 empty_result] by blast
  obtain w2 where "decr_all held w1 = Inr w2" "inv_state fp64 K (w2, H)" "key_view fp64 w2 = key_view fp64 w1"
    using decr_all_ok [OF l(2)] by blast
  with l show ?thesis by (simp add: processTask_def assms(3) fold_row_result empty_result_def)
qed

lemma processTask_index:
  assumes "inv_state fp64 K (w, H)" "inj_on fp64 K" "index_consistent env attr K (key_view fp64 w)"
    and "task_keys E q = Inr (map (IndexKey attr) tokens, None, dest)" "IndexKey attr ` set tokens \<subseteq> K"
    and "task_ok q (key_view fp64 w) (map (IndexKey attr) tokens)" "\<not> q_DoCount q" "q_SrcFunc q \<noteq> []"
  shows "\<exists>r w'. processTask E fp32 fp64 q w = Inr (r, w') \<and> inv_state fp64 K (w', H) \<and>
    (\<forall>k \<in> K. key_view fp64 w' k = key_view fp64 w k) \<and> r_IntersectDest r = dest \<and>
    length (r_UidMatrix r) = length tokens \<and>
    (\<forall>i < length tokens. \<forall>e. Key e attr \<in> K \<longrightarrow> (e \<in> set (r_UidMatrix r ! i) \<longleftrightarrow>
       q_AfterUid q < e \<and> e < maxUint64 \<and> (q_Uids q = [] \<or> e \<in> set (q_Uids q)) \<and>
       tokens ! i \<in> content_tokens env attr (key_view fp64 w (Key e attr) maxUint64)))"
proof -
  have k: "set (map (IndexKey attr) tokens) \<subseteq> K" using assms(5) by simp
  have m: "e \<in> set (list_uids (key_view fp64 w (IndexKey attr token)) (task_options q)) \<longleftrightarrow>
       q_AfterUid q < e \<and> e < maxUint64 \<and> (q_Uids q = [] \<or> e \<in> set (q_Uids q)) \<and>
       token \<in> content_tokens env attr (key_view fp64 w (Key e attr) maxUint64)"
    if "Key e attr \<in> K" "token \<in> set tokens" for e token
  proof -
    have "IndexKey attr token \<in> K" using that(2) assms(5) by blast
    then have "key_view fp64 w (IndexKey attr token) e = (if token \<in> content_tokens env attr
        (key_view fp64 w (Key e attr) maxUint64) then Some idx_content else None)"
      using assms(3) that(1) by (simp add: index_consistent_def)
    then show ?thesis using assms(8) by (auto simp: list_uids_spec task_options_def idx_content_def)
  qed
  from processTask_ok [OF assms(1,2,4) k assms(6), of fp32] obtain w' where
    "processTask E fp32 fp64 q w = Inr (\<lparr>r_UidMatrix = map (\<lambda>k. if q_DoCount q then []
        else list_uids (key_view fp64 w k) (task_options q)) (map (IndexKey attr) tokens),
       r_Values = map (\<lambda>k. task_val (view_value (key_view fp64 w k))) (map (IndexKey attr) tokens),
       r_Counts = (if q_DoCount q then map (\<lambda>k. word_of_nat (view_count (key_view fp64 w k)))
         (map (IndexKey attr) tokens) else []),
       r_IntersectDest = dest\<rparr>, w')"
    "inv_state fp64 K (w', H)" "\<forall>k \<in> K. key_view fp64 w' k = key_view fp64 w k" by blast
  then show ?thesis using assms(7) m by simp
qed

section \<open>Geometric queries\<close>

lemma read_values_ok:
  assumes "inv_state fp64 K (w, H)" "inj_on fp64 K" "(\<lambda>u. Key u attr) ` set uids \<subseteq> K"
  shows "\<exists>w'. read_values fp32 fp64 attr uids w =
      Inr (map (\<lambda>u. task_val (view_value (key_view fp64 w (Key u attr)))) uids, w') \<and>
    inv_state fp64 K (w', H) \<and> (\<forall>k \<in> K. key_view fp64 w' k = key_view fp64 w k)"
  using assms
proof (induction uids arbitrary: w)
  case (Cons u uids)
  have k: "Key u attr \<in> K" using Cons.prems(3) by simp
  obtain a w1 where w1: "GetOrCreate fp32 fp64 (Key u attr) w = Inr (a, w1)" "key (lheap w1 a) = Key u attr"
    "inv_state fp64 K (w1, add_mset a H)" "\<forall>k' \<in> K. key_view fp64 w1 k' = key_view fp64 w k'"
    "\<not> deleteMe (lheap w1 a)"
    by (rule acquire_ok [OF Cons.prems(1) k Cons.prems(2), where ?fp32.0 = fp32]) blast
  have a: "a \<in># add_mset a H" by simp
  obtain w2 where w2: "read_old a w1 = Inr (view_value (key_view fp64 w1 (Key u attr)), w2)"
    "inv_state fp64 K (w2, add_mset a H)" "key_view fp64 w2 = key_view fp64 w1"
    using read_old_ok [OF w1(3) a w1(5)] w1(2) unfolding view_value_def by metis
  obtain w3 where w3: "cache_decr a w2 = Inr w3" "inv_state fp64 K (w3, H)" "key_view fp64 w3 = key_view fp64 w2"
    using release_ok [OF w2(2) a] by auto
  have s: "(\<lambda>u. Key u attr) ` set uids \<subseteq> K" using Cons.prems(3) by simp
  obtain w4 where w4: "read_values fp32 fp64 attr uids w3 =
      Inr (map (\<lambda>u. task_val (view_value (key_view fp64 w3 (Key u attr)))) uids, w4)"
    "inv_state fp64 K (w4, H)" "\<forall>k \<in> K. key_view fp64 w4 k = key_view fp64 w3 k"
    using Cons.IH [OF w3(2) Cons.prems(2) s] by blast
  have v: "\<forall>k \<in> K. key_view fp64 w3 k = key_view fp64 w k" using w1(4) w2(3) w3(3) by simp
  then have "map (\<lambda>u. task_val (view_value (key_view fp64 w3 (Key u attr)))) uids =
      map (\<lambda>u. task_val (view_value (key_view fp64 w (Key u attr)))) uids"
    using s by auto
  with w1 w2 w3 w4 v k show ?case by simp
qed simp

lemma go_map_eq: "(\<And>x. x \<in> set xs \<Longrightarrow> f x = Inr (g x)) \<Longrightarrow> go_map f xs = Inr (map g xs)"
  by (induction xs) simp_all

lemma queryTokens_total:
  assumes "queryTokens L fromJSON qt data d = Inr (qtoks, q)"
  shows "\<exists>b. MatchesFilter L q g = Inr b"
  using assms
proof (cases rule: queryTokens_cases)
  case (near c)
  then show ?thesis
    by (cases "MatchesFilter L q g") (auto simp: MatchesFilter_def isWithin_def Let_def split: if_splits)
next
  case (point gq parents cover)
  then show ?thesis
    by (cases "MatchesFilter L q g") (auto simp: MatchesFilter_def isWithin_def qd_contains_def
        qd_intersects_def Let_def split: if_splits sum.splits geom_kind.splits)
next
  case (polygon gq l parents cover)
  then show ?thesis
    by (cases "MatchesFilter L q g") (auto simp: MatchesFilter_def isWithin_def qd_intersects_def Let_def
        split: if_splits sum.splits geom_kind.splits)
qed

lemma geo_GetTokens_query:
  assumes "geo_GetTokens L fromJSON toLower parseFloat args = Inr (toks, q)"
  obtains qt data d where "queryTokens L fromJSON qt data d = Inr (toks, q)"
  using assms by (auto simp: geo_GetTokens_def go_bind_eq_Inr Let_def split: if_splits)

text \<open>The value of an entity matches a query.\<close>

definition value_matches ::
  "('g, 'pt, 'loop, 'cap, 'cell, 'rect) task_env \<Rightarrow> ('pt, 'loop, 'cap) query_data \<Rightarrow> content option \<Rightarrow> bool" where
  "value_matches E gq c \<longleftrightarrow> (\<exists>ty b lab g. c = Some (ty, b, lab) \<and> b \<noteq> [] \<and> (ucast ty :: u8) = GeoID \<and>
     te_fromWKB E b = Inr g \<and> MatchesFilter (te_geo E) gq g = Inr True)"

lemma u8_u32_u8 [simp]: "(ucast (ucast (x :: u8) :: u32) :: u8) = x"
  by transfer simp

lemma FilterUids_views:
  assumes "\<forall>b e. te_fromWKB E b = Inl e \<longrightarrow> (\<exists>s. e = Err s)" "\<forall>g. \<exists>b. MatchesFilter (te_geo E) gq g = Inr b"
  shows "FilterUids (te_geo E) (te_fromWKB E) gq uids (map (\<lambda>u. task_val (view_value (v u))) uids) =
    Inr (filter (\<lambda>u. value_matches E gq (v u maxUint64)) uids)"
proof -
  have m: "(tv_Val (task_val (view_value x)) \<noteq> [] \<and> (ucast (tv_ValType (task_val (view_value x))) :: u8) = GeoID \<and>
      (\<exists>g. te_fromWKB E (tv_Val (task_val (view_value x))) = Inr g \<and> MatchesFilter (te_geo E) gq g = Inr True)) \<longleftrightarrow>
    value_matches E gq (x maxUint64)" for x
    by (cases "x maxUint64") (auto simp: task_val_def view_value_def value_matches_def split: prod.splits)
  have "map fst (filter (\<lambda>(u, tv). tv_Val tv \<noteq> [] \<and> (ucast (tv_ValType tv) :: u8) = GeoID \<and>
      (\<exists>g. te_fromWKB E (tv_Val tv) = Inr g \<and> MatchesFilter (te_geo E) gq g = Inr True))
      (zip uids (map (\<lambda>u. task_val (view_value (v u))) uids))) = filter (\<lambda>u. value_matches E gq (v u maxUint64)) uids"
    by (induction uids) (simp_all add: m)
  then show ?thesis using filter_loop_eq [OF _ assms(2)] assms(1) by (simp add: FilterUids_def)
qed

lemma geo_filter_ok:
  assumes "inv_state fp64 K (w, H)" "inj_on fp64 K" "\<forall>row \<in> set (r_UidMatrix out). ssorted row"
    and "\<forall>row \<in> set (r_UidMatrix out). \<forall>u \<in> set row. Key u attr \<in> K"
    and "\<forall>b e. te_fromWKB E b = Inl e \<longrightarrow> (\<exists>s. e = Err s)" "\<forall>g. \<exists>b. MatchesFilter (te_geo E) gq g = Inr b"
  shows "\<exists>w'. geo_filter E fp32 fp64 attr gq (w, out) = Inr (w', out\<lparr>r_UidMatrix :=
      map (\<lambda>row. sorted_list_of_set {u \<in> set row. value_matches E gq (key_view fp64 w (Key u attr) maxUint64)})
        (r_UidMatrix out)\<rparr>) \<and>
    inv_state fp64 K (w', H) \<and> (\<forall>k \<in> K. key_view fp64 w' k = key_view fp64 w k)"
proof -
  let ?U = "\<Union>row \<in> set (r_UidMatrix out). set row" and ?uids = "sorted_list_of_set (\<Union>row \<in> set (r_UidMatrix out). set row)"
  let ?ok = "\<lambda>u. value_matches E gq (key_view fp64 w (Key u attr) maxUint64)"
  have merged: "MergeSorted (r_UidMatrix out) = Inr ?uids"
    using MergeSorted_eq assms(3) ssorted_sorted by blast
  have set_uids: "set ?uids = ?U" by simp
  have keys: "(\<lambda>u. Key u attr) ` set ?uids \<subseteq> K" unfolding set_uids using assms(4) by blast
  obtain w' where w': "read_values fp32 fp64 attr ?uids w =
      Inr (map (\<lambda>u. task_val (view_value (key_view fp64 w (Key u attr)))) ?uids, w')"
    "inv_state fp64 K (w', H)" "\<forall>k \<in> K. key_view fp64 w' k = key_view fp64 w k"
    using read_values_ok [OF assms(1,2) keys] by blast
  note filt = FilterUids_views [OF assms(5,6), of ?uids "\<lambda>u. key_view fp64 w (Key u attr)"]
  have row: "IntersectSorted [row, filter ?ok ?uids] = Inr (sorted_list_of_set {u \<in> set row. ?ok u})"
    if "row \<in> set (r_UidMatrix out)" for row
  proof -
    have "\<forall>l \<in> set [row, filter ?ok ?uids]. ssorted l" using assms(3) that by (simp add: ssorted_filter)
    then have "IntersectSorted [row, filter ?ok ?uids] =
        Inr (sorted_list_of_set (\<Inter>l \<in> set [row, filter ?ok ?uids]. set l))"
      by (rule IntersectSorted_eq) simp
    moreover have "(\<Inter>l \<in> set [row, filter ?ok ?uids]. set l) = {u \<in> set row. ?ok u}" using that by auto
    ultimately show ?thesis by simp
  qed
  have "go_map (\<lambda>ul. IntersectSorted [ul, filter ?ok ?uids]) (r_UidMatrix out) =
      Inr (map (\<lambda>row. sorted_list_of_set {u \<in> set row. ?ok u}) (r_UidMatrix out))"
    by (rule go_map_eq) (rule row)
  with w' show ?thesis by (simp add: geo_filter_def merged filt)
qed

lemma processTask_geo:
  assumes "inv_state fp64 K (w, H)" "inj_on fp64 K" "task_keys E q = Inr (keys, Some gq, dest)" "set keys \<subseteq> K"
    and "task_ok q (key_view fp64 w) keys" "\<not> q_DoCount q"
    and "\<forall>k \<in> set keys. \<forall>u. key_view fp64 w k u \<noteq> None \<longrightarrow> u \<noteq> maxUint64 \<longrightarrow> Key u (q_Attr q) \<in> K"
    and "\<forall>b e. te_fromWKB E b = Inl e \<longrightarrow> (\<exists>s. e = Err s)" "\<forall>g. \<exists>b. MatchesFilter (te_geo E) gq g = Inr b"
  shows "\<exists>r w'. processTask E fp32 fp64 q w = Inr (r, w') \<and> inv_state fp64 K (w', H) \<and>
    (\<forall>k \<in> K. key_view fp64 w' k = key_view fp64 w k) \<and>
    r_UidMatrix r = map (\<lambda>k. sorted_list_of_set {u \<in> set (list_uids (key_view fp64 w k) (task_options q)).
      value_matches E gq (key_view fp64 w (Key u (q_Attr q)) maxUint64)}) keys"
proof -
  have i: "inv_state fp64 K (w, H + mset [])" using assms(1) by simp
  obtain w1 held where l: "task_loop fp32 fp64 q keys (w, empty_result) [] =
      Inr ((w1, fold (\<lambda>k. row_result q (key_view fp64 w k)) keys empty_result), held)"
    "inv_state fp64 K (w1, H + mset held)" "\<forall>k \<in> K. key_view fp64 w1 k = key_view fp64 w k"
    using task_loop_ok [OF i assms(2,4,5), of fp32 empty_result] by blast
  define out where "out = fold (\<lambda>k. row_result q (key_view fp64 w k)) keys empty_result"
  have m: "r_UidMatrix out = map (\<lambda>k. list_uids (key_view fp64 w k) (task_options q)) keys"
    using assms(6) by (simp add: out_def fold_row_result empty_result_def)
  have rows: "\<forall>row \<in> set (r_UidMatrix out). ssorted row" by (simp add: m list_uids_spec)
  have ks: "\<forall>row \<in> set (r_UidMatrix out). \<forall>u \<in> set row. Key u (q_Attr q) \<in> K"
    using assms(7) by (auto simp: m list_uids_spec)
  obtain w2 where w2: "geo_filter E fp32 fp64 (q_Attr q) gq (w1, out) = Inr (w2, out\<lparr>r_UidMatrix :=
      map (\<lambda>row. sorted_list_of_set {u \<in> set row. value_matches E gq (key_view fp64 w1 (Key u (q_Attr q)) maxUint64)})
        (r_UidMatrix out)\<rparr>)"
    "inv_state fp64 K (w2, H + mset held)" "\<forall>k \<in> K. key_view fp64 w2 k = key_view fp64 w1 k"
    using geo_filter_ok [OF l(2) assms(2) rows ks assms(8,9)] by blast
  obtain w3 where w3: "decr_all held w2 = Inr w3" "inv_state fp64 K (w3, H)" "key_view fp64 w3 = key_view fp64 w2"
    using decr_all_ok [OF w2(2)] by blast
  have "{u \<in> set (list_uids (key_view fp64 w k) (task_options q)).
        value_matches E gq (key_view fp64 w1 (Key u (q_Attr q)) maxUint64)} =
      {u \<in> set (list_uids (key_view fp64 w k) (task_options q)).
        value_matches E gq (key_view fp64 w (Key u (q_Attr q)) maxUint64)}" if "k \<in> set keys" for k
    using ks that l(3) by (auto simp: m)
  then have "map (\<lambda>k. sorted_list_of_set {u \<in> set (list_uids (key_view fp64 w k) (task_options q)).
        value_matches E gq (key_view fp64 w1 (Key u (q_Attr q)) maxUint64)}) keys =
      map (\<lambda>k. sorted_list_of_set {u \<in> set (list_uids (key_view fp64 w k) (task_options q)).
        value_matches E gq (key_view fp64 w (Key u (q_Attr q)) maxUint64)}) keys" by simp
  then show ?thesis using l(1,3) w2(1,3) w3 unfolding out_def [symmetric]
    by (simp add: processTask_def assms(3) m comp_def)
qed

text \<open>The geometries of an index and of a task are those of the same library.\<close>

definition geo_env :: "('g, 'pt, 'loop, 'cap, 'cell, 'rect) task_env \<Rightarrow> 'g index_env \<Rightarrow> bytes \<Rightarrow> bool" where
  "geo_env E env attr \<longleftrightarrow>
     wkbUnmarshal (fmts env) = te_fromWKB E \<and> geoTokens env = geo_IndexTokens (te_geo E) \<and>
     TypeOf (schema_of env) attr = Some (Scalar geoType) \<and>
     (\<forall>b e. te_fromWKB E b = Inl e \<longrightarrow> (\<exists>s. e = Err s)) \<and> (\<forall>g. Stride (te_geo E) g = 2)"

lemma MatchesFilter_indexed:
  assumes "MatchesFilter L q g = Inr True" "Stride L g = 2"
  shows "\<exists>gtoks. geo_IndexTokens L g = Inr gtoks"
proof -
  have "geom_kind L g = GeomPoint \<or> (geom_kind L g = GeomPolygon \<and> (\<exists>l. loopFromPolygon L g = Inr l))"
    using assms(1) by (auto simp: MatchesFilter_def isWithin_def qd_contains_def qd_intersects_def go_bind_eq_Inr
        split: query_type.splits if_splits sum.splits geom_kind.splits)
  then show ?thesis using assms(2)
    by (auto simp: geo_IndexTokens_def indexCells_def indexCellsForPoint_def parentCoverTokens_eq Let_def
        MinCellLevel_def MaxCellLevel_def)
qed

lemma value_matches_token:
  assumes "geo_env E env attr" "s2_laws (te_geo E)" "\<forall>g. match_premises (te_geo E) gq g"
    and "queryTokens (te_geo E) fromJSON qt data d = Inr (tokens, gq)" "value_matches E gq c"
  shows "\<exists>token \<in> set tokens. token \<in> content_tokens env attr c"
proof -
  obtain ty b lab g where c: "c = Some (ty, b, lab)" "b \<noteq> []" "(ucast ty :: u8) = GeoID"
    "te_fromWKB E b = Inr g" "MatchesFilter (te_geo E) gq g = Inr True"
    using assms(5) unfolding value_matches_def by blast
  obtain gtoks where gt: "geo_IndexTokens (te_geo E) g = Inr gtoks"
    using MatchesFilter_indexed [OF c(5)] assms(1) by (auto simp: geo_env_def)
  have "UnmarshalBinary (fmts env) GeoID b = Inr (VGeo g)"
    using assms(1) c(4) by (simp add: geo_env_def UnmarshalBinary_def ValueForType_def type_ids Geo_UnmarshalBinary_def)
  moreover have "indexTokens env attr (VGeo g) = Inr gtoks"
    using assms(1) gt by (simp add: geo_env_def indexTokens_def Convert_def value_Type_def)
  ultimately have "content_tokens env attr c = set gtoks" using c by (simp add: content_tokens_def value_tokens_def)
  moreover have "set tokens \<inter> set gtoks \<noteq> {}"
    by (rule match_shares_token [OF assms(2) _ assms(4) gt c(5)]) (use assms(3) in blast)
  ultimately show ?thesis by blast
qed

text \<open>A cache with one indexed value, for the examples.\<close>

lemma one_value_world:
  assumes "inj_on fp64 K" "Key (Entity t) (Attr t) \<in> K" "mutation_indexable env K t Set None"
    and "Attr t \<noteq> []" "hd (Attr t) \<noteq> indexRune" "ascii (Attr t)" "Entity t \<noteq> 0" "edge_bytes t \<noteq> []"
      "IsIndexed (schema_of env) (Attr t)"
  obtains w where "inv_state fp64 K (w, {#})" "index_consistent env (Attr t) K (key_view fp64 w)"
    "\<forall>k \<in> K. key_view fp64 w k = indexed_view env t Set (\<lambda>_ _. None) k"
proof -
  let ?w0 = "cache_Init 32 empty_store" and ?ts = "[(Attr t, NewTokensTable)]" and ?k = "Key (Entity t) (Attr t)"
  have init: "inv_state fp64 K (?w0, {#})"
    by (rule init_state) (simp_all add: store_ok_def empty_store_def list_ok_empty_store [unfolded empty_store_def])
  have v0: "key_view fp64 ?w0 k u = None" for k u
    using init_state(2) [of 32 empty_store "{}" fp64 k]
    by (simp add: store_ok_def empty_store_def list_view_def getPostingList_def fresh_def getNew_def
        store_Get_def empty_posting_list_def view_def)
  obtain a w where w: "GetOrCreate (\<lambda>_. 0) fp64 ?k ?w0 = Inr (a, w)" "key (lheap w a) = ?k"
    "inv_state fp64 K (w, add_mset a {#})" "\<forall>k' \<in> K. key_view fp64 w k' = key_view fp64 ?w0 k'"
    "\<not> deleteMe (lheap w a)"
    by (rule acquire_ok [OF init assms(2,1), where ?fp32.0 = "\<lambda>_. 0"]) blast
  have v: "\<forall>k \<in> K. key_view fp64 w k = (\<lambda>_. None)" using w(4) v0 by (simp add: fun_eq_iff)
  then have old: "key_view fp64 w ?k maxUint64 = None" using assms(2) by simp
  have uid: "EValue t \<noteq> None" "edge_uid t \<noteq> 0" "Set = Set \<or> Set = Del"
    using assms(8) by (auto simp: edge_bytes_def edge_uid_def maxUint64_def split: option.splits)
  have a: "a \<in># add_mset a {#}" by simp
  have ix: "mutation_indexable env K t Set (key_view fp64 w ?k maxUint64)" using assms(3) old by simp
  obtain w1 ts1 where w1: "inv_state fp64 K (w1, add_mset a {#})"
    "\<forall>k \<in> K. key_view fp64 w1 k = indexed_view env t Set (key_view fp64 w) k"
    using AddMutationWithIndex_ok [OF w(3) a w(5) assms(1) _ w(2) assms(4,5,7) uid assms(9) ix, of 1 ?ts "\<lambda>_. 0"]
    by (auto simp: GetTokensTable_def)
  obtain w2 where w2: "inv_state fp64 K (w2, {#})" "key_view fp64 w2 = key_view fp64 w1"
    using release_ok [OF w1(1) a] by auto
  let ?toks = "value_tokens env (Attr t) (ucast (ValueType t)) (edge_bytes t)"
  have chg: "fst (mutate_spec Set (edge_uid t) (ValueType t, edge_bytes t, ELabel t) (\<lambda>_. None))"
    by (simp add: mutate_spec_def)
  have iv: "indexed_view env t Set x = index_view (Attr t) (Entity t) Set ?toks (mutate_view ?k t Set x)"
    if "x ?k = (\<lambda>_. None)" for x
    using chg by (simp add: indexed_view_def Let_def that remove_view_def)
  have tk: "\<forall>token \<in> set ?toks. IndexKey (Attr t) token \<in> K" using assms(3) by (simp add: mutation_indexable_def)
  have "\<forall>k \<in> K. index_view (Attr t) (Entity t) Set ?toks (mutate_view ?k t Set (key_view fp64 w)) k =
      index_view (Attr t) (Entity t) Set ?toks (mutate_view ?k t Set (\<lambda>_ _. None)) k"
    by (rule index_view_agree [OF mutate_view_agree [OF v assms(2)] tk])
  then have views: "\<forall>k \<in> K. key_view fp64 w2 k = indexed_view env t Set (\<lambda>_ _. None) k"
    using w1(2) w2(2) v assms(2) by (simp add: iv)
  have "index_consistent env (Attr t) K (\<lambda>_ _. None)" by (simp add: index_consistent_def content_tokens_def)
  from index_consistent_mutation [OF this assms(6,8) uid(3) assms(2)]
  have "index_consistent env (Attr t) K (key_view fp64 w2)" unfolding index_consistent_agree [OF views] .
  with that w2(1) views show thesis by blast
qed

section \<open>Properties of tasks\<close>

text \<open>
  C29: A task reads what is stored. On a cache in a valid state a task that is not geometric returns, for
  every uid or token it names, the value of the posting list, and either its uids above the requested
  one, in order and restricted to the uids of the task, or the number of its postings; it changes no
  list, and all references it took are given back. The uids of the task must be sorted, and no list may
  hold a posting above all of them, the case in which the read panics.
\<close>

theorem task_reads_views:
  assumes "inv_state fp64 K (w, H)" "inj_on fp64 K" "task_keys E q = Inr (keys, None, dest)" "set keys \<subseteq> K"
    "task_ok q (key_view fp64 w) keys"
  shows "\<exists>w'. processTask E fp32 fp64 q w =
      Inr (\<lparr>r_UidMatrix = map (\<lambda>k. if q_DoCount q then [] else list_uids (key_view fp64 w k) (task_options q)) keys,
            r_Values = map (\<lambda>k. task_val (view_value (key_view fp64 w k))) keys,
            r_Counts = (if q_DoCount q then map (\<lambda>k. word_of_nat (view_count (key_view fp64 w k))) keys else []),
            r_IntersectDest = dest\<rparr>, w') \<and>
    inv_state fp64 K (w', H) \<and> (\<forall>k \<in> K. key_view fp64 w' k = key_view fp64 w k)"
  by (rule processTask_ok [OF assms])

text \<open>
  The example: one entity with the indexed value \<^verbatim>\<open>x\<close>, and a tokenizer that leaves its input as it is.
\<close>

definition sample_task_env :: "(bool, unit, unit, unit, nat, unit) task_env" where
  "sample_task_env = \<lparr>te_geo = line_lib, te_fromJSON = (\<lambda>s. Inr False), te_fromWKB = (\<lambda>b. Inr True),
     te_toLower = (\<lambda>s. s), te_parseFloat = (\<lambda>s. Inr 0), te_tokenize = (\<lambda>s. Some [s])\<rparr>"

definition sample_query :: "u64 list \<Rightarrow> bytes list \<Rightarrow> task_query" where
  "sample_query us f = \<lparr>q_Attr = ''n'', q_AfterUid = 0, q_DoCount = False, q_Uids = us, q_SrcFunc = f\<rparr>"

lemma sample_world:
  obtains w where "inv_state length_fp sample_keys (w, {#})" "index_consistent sample_env ''n'' sample_keys (key_view length_fp w)"
    "key_view length_fp w (Key 1 ''n'') = [maxUint64 \<mapsto> (5, ''x'', [])]"
    "key_view length_fp w (IndexKey ''n'' ''x'') = [1 \<mapsto> idx_content]"
proof -
  have ix: "mutation_indexable sample_env sample_keys name_edge Set None"
    by (simp add: mutation_indexable_def name_edge_def edge_bytes_def indexable_def value_tokens_def
        sample_indexable sample_keys_def)
  have k: "Key (Entity name_edge) (Attr name_edge) \<in> sample_keys" by (simp add: sample_keys_def name_edge_def)
  obtain w where w: "inv_state length_fp sample_keys (w, {#})"
    "index_consistent sample_env (Attr name_edge) sample_keys (key_view length_fp w)"
    "\<forall>k \<in> sample_keys. key_view length_fp w k = indexed_view sample_env name_edge Set (\<lambda>_ _. None) k"
    by (rule one_value_world [OF sample_keys_inj k ix])
      (simp_all add: name_edge_def indexRune_def ascii_def edge_bytes_def sample_env_def IsIndexed_def)
  have nk: "Key 1 ''n'' \<noteq> IndexKey ''n'' ''x''" "IndexKey ''n'' ''x'' \<noteq> Key 1 ''n''"
    using sample_key_length by fastforce+
  have toks: "value_tokens sample_env ''n'' 5 ''x'' = [''x'']" by (simp add: value_tokens_def sample_indexable)
  have "key_view length_fp w (Key 1 ''n'') = [maxUint64 \<mapsto> (5, ''x'', [])]"
    "key_view length_fp w (IndexKey ''n'' ''x'') = [1 \<mapsto> idx_content]"
    using w(3) nk unfolding sample_keys_def
    by (simp_all add: fun_eq_iff indexed_view_def Let_def index_view_at remove_view_def mutate_view_at name_edge_def
        edge_uid_def edge_bytes_def toks mutate_spec_def)
  with that w(1,2) show thesis by (simp add: name_edge_def)
qed

theorem task_reads_views_witness:
  "\<exists>w w'. inv_state length_fp sample_keys (w, {#}) \<and>
     processTask sample_task_env (\<lambda>_. 0) length_fp (sample_query [1] []) w =
       Inr (\<lparr>r_UidMatrix = [[]], r_Values = [\<lparr>tv_Val = ''x'', tv_ValType = 5\<rparr>], r_Counts = [],
             r_IntersectDest = False\<rparr>, w')"
proof -
  obtain w where w: "inv_state length_fp sample_keys (w, {#})"
    "key_view length_fp w (Key 1 ''n'') = [maxUint64 \<mapsto> (5, ''x'', [])]" by (rule sample_world) blast
  have keys: "task_keys sample_task_env (sample_query [1] []) = Inr ([Key 1 ''n''], None, False)"
    by (simp add: task_keys_def sample_query_def)
  have ok: "task_ok (sample_query [1] []) (key_view length_fp w) [Key 1 ''n'']"
    by (simp add: task_ok_def sample_query_def runs_past_def task_options_def)
  have "set [Key 1 ''n''] \<subseteq> sample_keys" by (simp add: sample_keys_def)
  from task_reads_views [OF w(1) sample_keys_inj keys this ok, of "\<lambda>_. 0"]
  have "\<exists>w'. processTask sample_task_env (\<lambda>_. 0) length_fp (sample_query [1] []) w =
       Inr (\<lparr>r_UidMatrix = [[]], r_Values = [\<lparr>tv_Val = ''x'', tv_ValType = 5\<rparr>], r_Counts = [],
             r_IntersectDest = False\<rparr>, w')"
    by (auto simp: sample_query_def w(2) list_uids_def task_options_def task_val_def view_value_def)
  with w(1) show ?thesis by blast
qed




text \<open>The example: one entity with a point, and a query for the points within a polygon.\<close>

definition geo_sample_env :: "bool index_env" where
  "geo_sample_env = \<lparr>schema_of = \<lparr>str = [(''n'', Scalar geoType)], indexedFields = [''n'']\<rparr>,
     tokenize = (\<lambda>s. Some [s]), geoTokens = geo_IndexTokens line_lib,
     fmts = \<lparr>FormatFloat = (\<lambda>_. []), ParseFloat = (\<lambda>_. Inl (Err [])),
       timeMarshalBinary = (\<lambda>_. Inl (Err [])), timeUnmarshalBinary = (\<lambda>_. Inl (Err [])),
       timeMarshalText = (\<lambda>_. Inl (Err [])), timeUnmarshalText = (\<lambda>_. Inl (Err [])),
       timeParseNoZone = (\<lambda>_. Inl (Err [])), wkbMarshal = (\<lambda>_. Inl (Err [])), wkbUnmarshal = (\<lambda>_. Inr True),
       geojsonMarshal = (\<lambda>_. Inl (Err [])), geojsonUnmarshal = (\<lambda>_. Inl (Err [])), localZone = (\<lambda>_. 0)\<rparr>\<rparr>"

definition geo_edge :: edge where
  "geo_edge = \<lparr>Entity = 1, Attr = ''n'', EValue = Some ''g'', ValueType = ucast GeoID, ValueId = 0, ELabel = []\<rparr>"

definition geo_tokens :: "bytes list" where
  "geo_tokens = map (\<lambda>c. parentPrefix @ replicate c CHR ''x'') [5..<17] @ [coverPrefix @ replicate 16 CHR ''x'']"

definition geo_keys :: "bytes set" where
  "geo_keys = insert (Key 1 ''n'') (IndexKey ''n'' ` set geo_tokens)"

definition geo_fp :: "bytes \<Rightarrow> u64" where
  "geo_fp k = (if take 2 k \<noteq> ''n:'' then 0 else if take 3 k = ''n:c'' then 1 else word_of_nat (length k))"

lemma geo_keys_inj: "inj_on geo_fp geo_keys"
proof -
  have "distinct (map geo_fp (Key 1 ''n'' # map (IndexKey ''n'') geo_tokens))" by code_simp
  then have "inj_on geo_fp (set (Key 1 ''n'' # map (IndexKey ''n'') geo_tokens))" unfolding distinct_map by blast
  then show ?thesis by (simp add: geo_keys_def)
qed

lemma geo_sample_tokens: "value_tokens geo_sample_env ''n'' GeoID ''g'' = geo_tokens"
  "indexable geo_sample_env ''n'' GeoID ''g''"
proof -
  have u: "UnmarshalBinary (fmts geo_sample_env) GeoID ''g'' = Inr (VGeo True)"
    by (simp add: UnmarshalBinary_def ValueForType_def type_ids Geo_UnmarshalBinary_def geo_sample_env_def)
  have "geoTokens geo_sample_env True = Inr geo_tokens"
    using line_stored by (simp add: geo_sample_env_def geo_tokens_def)
  then have t: "indexTokens geo_sample_env ''n'' (VGeo True) = Inr geo_tokens"
    by (simp add: indexTokens_def TypeOf_def Convert_def value_Type_def geo_sample_env_def)
  from u t show "value_tokens geo_sample_env ''n'' GeoID ''g'' = geo_tokens"
    "indexable geo_sample_env ''n'' GeoID ''g''" by (simp_all add: value_tokens_def indexable_def)
qed

lemma geo_sample_world:
  obtains w where "inv_state geo_fp geo_keys (w, {#})"
    "index_consistent geo_sample_env ''n'' geo_keys (key_view geo_fp w)"
    "key_view geo_fp w (Key 1 ''n'') maxUint64 = Some (ucast GeoID, ''g'', [])"
    "\<forall>token \<in> set geo_tokens. \<forall>u. key_view geo_fp w (IndexKey ''n'' token) u \<noteq> None \<longrightarrow> u = 1"
proof -
  have t: "(ucast (ucast GeoID :: u32) :: u8) = GeoID" by (rule u8_u32_u8)
  have ix: "mutation_indexable geo_sample_env geo_keys geo_edge Set None"
    using geo_sample_tokens by (simp add: mutation_indexable_def geo_edge_def edge_bytes_def geo_keys_def)
  have k: "Key (Entity geo_edge) (Attr geo_edge) \<in> geo_keys" by (simp add: geo_keys_def geo_edge_def)
  obtain w where w: "inv_state geo_fp geo_keys (w, {#})"
    "index_consistent geo_sample_env (Attr geo_edge) geo_keys (key_view geo_fp w)"
    "\<forall>k \<in> geo_keys. key_view geo_fp w k = indexed_view geo_sample_env geo_edge Set (\<lambda>_ _. None) k"
    by (rule one_value_world [OF geo_keys_inj k ix])
      (simp_all add: geo_edge_def indexRune_def ascii_def edge_bytes_def geo_sample_env_def IsIndexed_def)
  have a: "ascii ''n''" by (simp add: ascii_def)
  have nk: "Key 1 ''n'' \<notin> IndexKey ''n'' ` S" for S using Key_not_IndexKey [OF a] by blast
  have ik: "IndexKey ''n'' token \<noteq> Key 1 ''n''" for token using Key_not_IndexKey [OF a] by metis
  have v: "indexed_view geo_sample_env geo_edge Set (\<lambda>_ _. None) k u =
      (if u = 1 \<and> k \<in> IndexKey ''n'' ` set geo_tokens then Some idx_content
       else if k = Key 1 ''n'' \<and> u = maxUint64 then Some (ucast GeoID, ''g'', []) else None)" for k u
    using nk by (auto simp: indexed_view_def Let_def index_view_at remove_view_def mutate_view_at geo_edge_def
        edge_uid_def edge_bytes_def mutate_spec_def geo_sample_tokens)
  have "key_view geo_fp w (Key 1 ''n'') maxUint64 = Some (ucast GeoID, ''g'', [])"
    using w(3) nk by (simp add: v geo_keys_def)
  moreover have "\<forall>token \<in> set geo_tokens. \<forall>u. key_view geo_fp w (IndexKey ''n'' token) u \<noteq> None \<longrightarrow> u = 1"
    using w(3) ik by (simp add: v geo_keys_def)
  ultimately show thesis using that w(1,2) by (simp add: geo_edge_def)
qed


section \<open>The window of a sort\<close>

text \<open>One bucket, on the offset still to be skipped and the uids collected.\<close>

definition bucket_step :: "nat \<Rightarrow> u64 list \<Rightarrow> nat \<times> u64 list \<Rightarrow> nat \<times> u64 list" where
  "bucket_step cnt bs = (\<lambda>(off, acc).
     if cnt \<le> length acc then (off, acc)
     else if length bs \<le> off then (off - length bs, acc)
     else (0, acc @ take (cnt - length acc) (drop off bs)))"

definition window :: "nat \<Rightarrow> nat \<Rightarrow> u64 list list \<Rightarrow> nat \<times> u64 list" where
  "window cnt off bss = fold (bucket_step cnt) bss (off, [])"

lemma window_snoc: "window cnt off (bss @ [bs]) = bucket_step cnt bs (window cnt off bss)"
  by (simp add: window_def)

lemma window_inv:
  "snd (window cnt off bss) = take cnt (drop off (concat bss)) \<and>
   (length (snd (window cnt off bss)) < cnt \<longrightarrow> fst (window cnt off bss) = off - length (concat bss))"
proof (induction bss rule: rev_induct)
  case Nil
  show ?case by (simp add: window_def)
next
  case (snoc bs bss)
  obtain o' acc where w: "window cnt off bss = (o', acc)" by fastforce
  let ?xs = "concat bss"
  have acc: "acc = take cnt (drop off ?xs)" "length acc < cnt \<Longrightarrow> o' = off - length ?xs" using snoc w by simp_all
  have cat: "drop off (concat (bss @ [bs])) = drop off ?xs @ drop (off - length ?xs) bs" by simp
  show ?case
  proof (cases "cnt \<le> length acc")
    case True
    then show ?thesis unfolding window_snoc w cat using acc(1) by (simp add: bucket_step_def)
  next
    case False
    then have full: "acc = drop off ?xs" "length (drop off ?xs) < cnt" "o' = off - length ?xs" using acc by simp_all
    show ?thesis
    proof (cases "length bs \<le> o'")
      case True
      then have "drop (off - length ?xs) bs = []" using full(3) by simp
      then show ?thesis unfolding window_snoc w cat using False True full by (simp add: bucket_step_def)
    next
      case f: False
      have "window cnt off (bss @ [bs]) = (0, acc @ take (cnt - length acc) (drop o' bs))"
        unfolding window_snoc w using False f by (simp add: bucket_step_def)
      moreover have "off \<le> length ?xs + length bs" using f full(3) by linarith
      ultimately show ?thesis unfolding cat using full by simp
    qed
  qed
qed

lemma window_full:
  assumes "cnt \<le> length (snd (window cnt off bss))"
  shows "snd (window cnt off (bss @ later)) = snd (window cnt off bss)"
proof -
  have "bucket_step cnt bs s = s" if "cnt \<le> length (snd s)" for s bs
    using that by (cases s) (simp add: bucket_step_def)
  then have "fold (bucket_step cnt) later s = s" if "cnt \<le> length (snd s)" for s
    using that by (induction later) simp_all
  with assms show ?thesis by (simp add: window_def)
qed

text \<open>The table is walked in its order.\<close>

lemma GetNext_walk:
  assumes "ssorted (before @ token # rest)"
  shows "TokensTable_GetNext (before @ token # rest) token = (case rest of [] \<Rightarrow> [] | x # _ \<Rightarrow> x)"
proof -
  let ?t = "before @ token # rest"
  have "sorted (map (\<lambda>x. x) ?t)" using ssorted_sorted [OF assms] by simp
  from sort_Search_sorted_gt [OF this, of token]
  have s: "sort_Search (length ?t) (\<lambda>i. token < ?t ! i) = first_index (\<lambda>k. token < k) ?t" .
  have lt: "\<forall>x \<in> set before. \<not> token < x" "\<forall>x \<in> set rest. token < x"
    using assms by (auto simp: sorted_wrt_append)
  have "takeWhile (\<lambda>x. \<not> token < x) ?t = before @ [token]"
    using lt by (cases rest) (simp_all add: takeWhile_append)
  then have "first_index (\<lambda>k. token < k) ?t = Suc (length before)" by (simp add: first_index_def)
  then show ?thesis unfolding TokensTable_GetNext_def s by (cases rest) (simp_all add: Let_def nth_append)
qed

section \<open>Sorting by value\<close>

text \<open>The order of a bucket, from the views alone. An error of a value leaves the uids as they were.\<close>

definition sorted_uids ::
  "'g formats \<Rightarrow> scalar \<Rightarrow> bytes \<Rightarrow> (bytes \<Rightarrow> u64 \<Rightarrow> content option) \<Rightarrow> u64 list \<Rightarrow> u64 list go" where
  "sorted_uids c scalar attr v us =
     (case go_map (\<lambda>u. decode_value c scalar (view_value (v (Key u attr)))) us of
        Inl (Err e) \<Rightarrow> Inr us
      | Inl e \<Rightarrow> Inl e
      | Inr svals \<Rightarrow>
          (case Scalar_Sort scalar (zip svals us) of
             Inl (Err e) \<Rightarrow> Inr us
           | Inl e \<Rightarrow> Inl e
           | Inr ps \<Rightarrow> Inr (map snd ps)))"

lemma go_map_length: "go_map f xs = Inr ys \<Longrightarrow> length ys = length xs"
  by (induction xs arbitrary: ys) (auto simp: go_bind_eq_Inr)

lemma Scalar_Sort_uids:
  assumes "Scalar_Sort scalar (zip svals us) = Inr ps" "length svals = length us"
  shows "mset (map snd ps) = mset us"
proof -
  have "mset ps = mset (zip svals us)" using assms(1) by (auto simp: Scalar_Sort_def mset_sort_Sort split: if_splits)
  then have "mset (map snd ps) = mset (map snd (zip svals us))" by (metis mset_map)
  with assms(2) show ?thesis by simp
qed

lemma sorted_uids_mset:
  assumes "sorted_uids c scalar attr v us = Inr us'"
  shows "mset us' = mset us"
  using assms
  by (auto simp: sorted_uids_def simp del: mset_map dest!: go_map_length intro: Scalar_Sort_uids
      split: sum.splits go_err.splits)

text \<open>Reads keep the lists of the map where they are.\<close>

abbreviation list_at :: "cache \<Rightarrow> u64 \<rightharpoonup> addr" where
  "list_at w \<equiv> lm_lookup (lhmap w)"

lemma acquire_list_at:
  assumes "inv_state fp64 K (w, H)" "k \<in> K" "inj_on fp64 K" "GetOrCreate fp32 fp64 k w = Inr (a, w')"
  shows "list_at w \<subseteq>\<^sub>m list_at w'"
proof -
  have i: "lm_invar (lhmap w)" "cache_ok fp64 K (list_at w) w H"
    using assms(1) by (simp_all add: inv_state_def)
  show ?thesis
  proof (cases "list_at w (fp64 k)")
    case None
    obtain b w1 where "GetOrCreate fp32 fp64 k w = Inr (b, w1)" "list_at w1 = (list_at w)(fp64 k \<mapsto> b)"
      by (rule GetOrCreate_absent [OF i assms(2) None assms(3), of fp32])
    then have "list_at w' = (list_at w)(fp64 k \<mapsto> b)" using assms(4) by simp
    with None show ?thesis by (auto simp: map_le_def dom_def)
  next
    case (Some b)
    then have "lhmap w' = lhmap w"
      using assms(4) GetOrCreate_present(1) [OF i Some, of fp32] by (auto simp: cache_incr_def)
    then show ?thesis by simp
  qed
qed

lemma keep_list_at:
  "read_old a w = Inr (r, w') \<Longrightarrow> list_at w' = list_at w"
  "cache_decr a w = Inr w' \<Longrightarrow> list_at w' = list_at w"
  "cache_Uids a opt w = Inr (us, w') \<Longrightarrow> list_at w' = list_at w"
  by (auto simp: read_old_def cache_decr_def cache_Uids_def go_bind_eq_Inr split: sum.splits go_err.splits)

lemma mapped_held:
  assumes "inv_state fp64 K (w, H)" "inj_on fp64 K" "k \<in> K" "list_at w (fp64 k) = Some a"
  shows "key (lheap w a) = k" "\<not> deleteMe (lheap w a)"
proof -
  have "cache_ok fp64 K (list_at w) w H" using assms(1) by (simp add: inv_state_def)
  from cache_okD(6) [OF this assms(4)]
  have m: "fp64 (key (lheap w a)) = fp64 k" "key (lheap w a) \<in> K" "\<not> deleteMe (lheap w a)"
    by (simp_all add: mapped_ok_def)
  then show "key (lheap w a) = k" "\<not> deleteMe (lheap w a)" using inj_onD [OF assms(2) _ _ assms(3)] by blast+
qed

lemma fetchValue_ok:
  assumes "inv_state fp64 K (w, H)" "inj_on fp64 K" "Key u attr \<in> K" "\<forall>k \<in> K. key_view fp64 w k = v k"
  obtains w' where "fetchValue c fp32 fp64 u attr scalar w =
      (case decode_value c scalar (view_value (v (Key u attr))) of
         Inl (Err e) \<Rightarrow> Inr (Inl (Err e), w') | Inl e \<Rightarrow> Inl e | Inr sval \<Rightarrow> Inr (Inr sval, w'))"
    "inv_state fp64 K (w', H)" "\<forall>k \<in> K. key_view fp64 w' k = v k" "list_at w \<subseteq>\<^sub>m list_at w'"
proof -
  obtain a w1 where w1: "GetOrCreate fp32 fp64 (Key u attr) w = Inr (a, w1)" "key (lheap w1 a) = Key u attr"
    "inv_state fp64 K (w1, add_mset a H)" "\<forall>k' \<in> K. key_view fp64 w1 k' = key_view fp64 w k'"
    "\<not> deleteMe (lheap w1 a)"
    by (rule acquire_ok [OF assms(1,3,2), where ?fp32.0 = fp32]) blast
  have a: "a \<in># add_mset a H" by simp
  obtain w2 where w2: "read_old a w1 = Inr (view_value (key_view fp64 w1 (Key u attr)), w2)"
    "inv_state fp64 K (w2, add_mset a H)" "key_view fp64 w2 = key_view fp64 w1"
    using read_old_ok [OF w1(3) a w1(5)] w1(2) unfolding view_value_def by metis
  obtain w3 where w3: "cache_decr a w2 = Inr w3" "inv_state fp64 K (w3, H)" "key_view fp64 w3 = key_view fp64 w2"
    using release_ok [OF w2(2) a] by auto
  have v: "key_view fp64 w1 (Key u attr) = v (Key u attr)" using w1(4) assms(3,4) by simp
  have at: "list_at w \<subseteq>\<^sub>m list_at w3"
    using acquire_list_at [OF assms(1,3,2) w1(1)] keep_list_at(1) [OF w2(1)] keep_list_at(2) [OF w3(1)] by simp
  show thesis
    by (rule that [of w3])
      (use assms(4) w1(4) w2 w3 at in \<open>simp_all add: fetchValue_def w1(1) v\<close>)
qed

lemma fetch_values_ok:
  assumes "inv_state fp64 K (w, H)" "inj_on fp64 K" "(\<lambda>u. Key u attr) ` set us \<subseteq> K"
    "\<forall>k \<in> K. key_view fp64 w k = v k"
  shows "\<exists>w'. fetch_values c fp32 fp64 attr scalar us w =
      (case go_map (\<lambda>u. decode_value c scalar (view_value (v (Key u attr)))) us of
         Inl (Err e) \<Rightarrow> Inr (Inl (Err e), w') | Inl e \<Rightarrow> Inl e | Inr svals \<Rightarrow> Inr (Inr svals, w')) \<and>
    inv_state fp64 K (w', H) \<and> (\<forall>k \<in> K. key_view fp64 w' k = v k) \<and> list_at w \<subseteq>\<^sub>m list_at w'"
  using assms
proof (induction us arbitrary: w)
  case (Cons u us)
  have k: "Key u attr \<in> K" and ks: "(\<lambda>u. Key u attr) ` set us \<subseteq> K" using Cons.prems(3) by simp_all
  obtain w1 where w1: "fetchValue c fp32 fp64 u attr scalar w =
      (case decode_value c scalar (view_value (v (Key u attr))) of
         Inl (Err e) \<Rightarrow> Inr (Inl (Err e), w1) | Inl e \<Rightarrow> Inl e | Inr sval \<Rightarrow> Inr (Inr sval, w1))"
    "inv_state fp64 K (w1, H)" "\<forall>k \<in> K. key_view fp64 w1 k = v k" "list_at w \<subseteq>\<^sub>m list_at w1"
    by (rule fetchValue_ok [OF Cons.prems(1,2) k Cons.prems(4), of c fp32 scalar])
  obtain w2 where w2: "fetch_values c fp32 fp64 attr scalar us w1 =
      (case go_map (\<lambda>u. decode_value c scalar (view_value (v (Key u attr)))) us of
         Inl (Err e) \<Rightarrow> Inr (Inl (Err e), w2) | Inl e \<Rightarrow> Inl e | Inr svals \<Rightarrow> Inr (Inr svals, w2))"
    "inv_state fp64 K (w2, H)" "\<forall>k \<in> K. key_view fp64 w2 k = v k" "list_at w1 \<subseteq>\<^sub>m list_at w2"
    using Cons.IH [OF w1(2) Cons.prems(2) ks w1(3)] by blast
  have at: "list_at w \<subseteq>\<^sub>m list_at w2" by (rule map_le_trans [OF w1(4) w2(4)])
  show ?case
  proof (cases "decode_value c scalar (view_value (v (Key u attr)))")
    case (Inl e)
    show ?thesis
      by (rule exI [of _ w1], cases e) (simp_all add: Inl w1)
  next
    case (Inr sval)
    show ?thesis
    proof (cases "go_map (\<lambda>u. decode_value c scalar (view_value (v (Key u attr)))) us")
      case l: (Inl e)
      show ?thesis by (rule exI [of _ w2], cases e) (simp_all add: Inr l w1(1) w2 at)
    next
      case r: (Inr svals)
      show ?thesis by (rule exI [of _ w2]) (simp add: Inr r w1(1) w2 at)
    qed
  qed
qed (auto intro!: exI)

lemma sortByValue_ok:
  assumes "inv_state fp64 K (w, H)" "inj_on fp64 K" "(\<lambda>u. Key u attr) ` set us \<subseteq> K"
    "\<forall>k \<in> K. key_view fp64 w k = v k" "sorted_uids c scalar attr v us = Inr us'"
  obtains w' where "sortByValue c fp32 fp64 attr us scalar w = Inr (us', w')" "inv_state fp64 K (w', H)"
    "\<forall>k \<in> K. key_view fp64 w' k = v k" "list_at w \<subseteq>\<^sub>m list_at w'"
proof -
  obtain w1 where w1: "fetch_values c fp32 fp64 attr scalar us w =
      (case go_map (\<lambda>u. decode_value c scalar (view_value (v (Key u attr)))) us of
         Inl (Err e) \<Rightarrow> Inr (Inl (Err e), w1) | Inl e \<Rightarrow> Inl e | Inr svals \<Rightarrow> Inr (Inr svals, w1))"
    "inv_state fp64 K (w1, H)" "\<forall>k \<in> K. key_view fp64 w1 k = v k" "list_at w \<subseteq>\<^sub>m list_at w1"
    using fetch_values_ok [OF assms(1-4)] by blast
  have "sortByValue c fp32 fp64 attr us scalar w = Inr (us', w1)"
    using assms(5) w1(1) by (auto simp: sortByValue_def sorted_uids_def split: sum.splits go_err.splits)
  with that w1 show thesis by blast
qed

section \<open>The walk through the buckets\<close>

definition bucket_options :: "u64 list \<Rightarrow> list_options" where
  "bucket_options ul = \<lparr>AfterUID = 0, Intersect = Some ul\<rparr>"

text \<open>The uids that a bucket holds of a list, in the order of their values.\<close>

definition bucket_uids ::
  "'g formats \<Rightarrow> scalar \<Rightarrow> bytes \<Rightarrow> (bytes \<Rightarrow> u64 \<Rightarrow> content option) \<Rightarrow> bytes \<Rightarrow> u64 list \<Rightarrow> u64 list" where
  "bucket_uids c scalar attr v token ul =
     projr (sorted_uids c scalar attr v (list_uids (v (IndexKey attr token)) (bucket_options ul)))"

definition bucket_ok ::
  "'g formats \<Rightarrow> scalar \<Rightarrow> bytes \<Rightarrow> bytes set \<Rightarrow> (bytes \<Rightarrow> u64 \<Rightarrow> content option) \<Rightarrow> bytes \<Rightarrow> u64 list \<Rightarrow> bool" where
  "bucket_ok c scalar attr K v token ul \<longleftrightarrow>
     sorted ul \<and> (\<lambda>u. Key u attr) ` set ul \<subseteq> K \<and> \<not> runs_past (v (IndexKey attr token)) (bucket_options ul) \<and>
     (\<exists>us. sorted_uids c scalar attr v (list_uids (v (IndexKey attr token)) (bucket_options ul)) = Inr us)"

definition as_il :: "nat \<times> u64 list \<Rightarrow> intersectedList" where
  "as_il s = (int (fst s), snd s)"

lemma bucket_loop_ok:
  assumes "inv_state fp64 K (w, H)" "inj_on fp64 K" "a \<in># H" "IndexKey attr token \<in> K"
    "list_at w (fp64 (IndexKey attr token)) = Some a" "\<forall>k \<in> K. key_view fp64 w k = v k" "0 < cnt"
    "\<forall>(ul, s) \<in> set ps. bucket_ok c scalar attr K v token ul"
  shows "\<exists>w'. bucket_loop c fp32 fp64 attr scalar (int cnt) a (map (\<lambda>(ul, s). (ul, as_il s)) ps) w =
      Inr (map (\<lambda>(ul, s). as_il (bucket_step cnt (bucket_uids c scalar attr v token ul) s)) ps, w') \<and>
    inv_state fp64 K (w', H) \<and> (\<forall>k \<in> K. key_view fp64 w' k = v k)"
  using assms(1,5,6,8)
proof (induction ps arbitrary: w)
  case (Cons p ps)
  let ?ik = "IndexKey attr token"
  obtain ul off acc where p: "p = (ul, off, acc)" by (metis prod_cases3)
  let ?bs = "bucket_uids c scalar attr v token ul"
  have b: "bucket_ok c scalar attr K v token ul" and rest: "\<forall>(ul, s) \<in> set ps. bucket_ok c scalar attr K v token ul"
    using Cons.prems(4) p by auto
  show ?case
  proof (cases "cnt \<le> length acc")
    case True
    then show ?thesis using Cons.IH [OF Cons.prems(1-3) rest] assms(7)
      by (auto simp: p as_il_def bucket_step_def)
  next
    case False
    note h = mapped_held [OF Cons.prems(1) assms(2,4) Cons.prems(2)]
    have o: "options_sorted (bucket_options ul)" using b by (simp add: bucket_ok_def options_sorted_def bucket_options_def)
    have vk: "key_view fp64 w ?ik = v ?ik" using Cons.prems(3) assms(4) by blast
    let ?r = "list_uids (v ?ik) (bucket_options ul)"
    have "\<not> runs_past (key_view fp64 w ?ik) (bucket_options ul)" using b vk by (simp add: bucket_ok_def)
    then obtain w1 where w1: "cache_Uids a (bucket_options ul) w = Inr (?r, w1)" "inv_state fp64 K (w1, H)"
      "key_view fp64 w1 = key_view fp64 w"
      using cache_Uids_ok [OF Cons.prems(1) assms(3) h(2,1) o] unfolding vk by metis
    have at1: "list_at w1 (fp64 ?ik) = Some a" using keep_list_at(3) [OF w1(1)] Cons.prems(2) by simp
    have v1: "\<forall>k \<in> K. key_view fp64 w1 k = v k" using Cons.prems(3) w1(3) by simp
    have s: "sorted_uids c scalar attr v ?r = Inr ?bs" using b by (auto simp: bucket_ok_def bucket_uids_def)
    have len: "length ?bs = length ?r" using sorted_uids_mset [OF s] by (rule mset_eq_length)
    show ?thesis
    proof (cases "length ?r \<le> off")
      case True
      then show ?thesis using Cons.IH [OF w1(2) at1 v1 rest] False w1(1) len
        by (auto simp: p as_il_def bucket_step_def bucket_options_def Let_def of_nat_diff)
    next
      case skip: False
      have "set ?r \<subseteq> set ul" by (auto simp: list_uids_spec bucket_options_def)
      then have ks: "(\<lambda>u. Key u attr) ` set ?r \<subseteq> K" using b by (auto simp: bucket_ok_def)
      obtain w2 where w2: "sortByValue c fp32 fp64 attr ?r scalar w1 = Inr (?bs, w2)" "inv_state fp64 K (w2, H)"
        "\<forall>k \<in> K. key_view fp64 w2 k = v k" "list_at w1 \<subseteq>\<^sub>m list_at w2"
        by (rule sortByValue_ok [OF w1(2) assms(2) ks v1 s])
      have at2: "list_at w2 (fp64 ?ik) = Some a" using w2(4) at1 by (auto simp: map_le_def dom_def)
      have tk: "take (if int cnt - int (length acc) < int (length (drop off ?bs)) then nat (int cnt - int (length acc))
          else length (drop off ?bs)) (drop off ?bs) = take (cnt - length acc) (drop off ?bs)"
        by (auto simp: nat_diff_distrib' of_nat_diff)
      obtain w3 where w3: "bucket_loop c fp32 fp64 attr scalar (int cnt) a (map (\<lambda>(ul, s). (ul, as_il s)) ps) w2 =
          Inr (map (\<lambda>(ul, s). as_il (bucket_step cnt (bucket_uids c scalar attr v token ul) s)) ps, w3)"
        "inv_state fp64 K (w3, H)" "\<forall>k \<in> K. key_view fp64 w3 k = v k"
        using Cons.IH [OF w2(2) at2 w2(3) rest] by blast
      have "bucket_step cnt ?bs (off, acc) = (0, acc @ take (cnt - length acc) (drop off ?bs))"
        using False skip len by (simp add: bucket_step_def)
      then show ?thesis using False skip w1(1) w2(1) w3 assms(7) tk
        by (simp add: p as_il_def bucket_options_def Let_def)
    qed
  qed
qed simp

declare sort_buckets.simps [simp del]

lemma check_sizes_ok:
  "\<forall>s \<in> set ss. length (snd s) \<le> cnt \<Longrightarrow>
     check_sizes (int cnt) (map as_il ss) = Inr (if \<forall>s \<in> set ss. length (snd s) = cnt then errDone else errContinue)"
  by (induction ss) (auto simp: as_il_def)

lemma window_length: "length (snd (window cnt off bss)) \<le> cnt"
  using window_inv [of cnt off bss] by simp

definition sort_state ::
  "'g formats \<Rightarrow> scalar \<Rightarrow> bytes \<Rightarrow> (bytes \<Rightarrow> u64 \<Rightarrow> content option) \<Rightarrow> nat \<Rightarrow> nat \<Rightarrow> bytes list \<Rightarrow> u64 list
    \<Rightarrow> nat \<times> u64 list" where
  "sort_state c scalar attr v cnt off tokens ul = window cnt off (map (\<lambda>token. bucket_uids c scalar attr v token ul) tokens)"

lemma intersectBucket_ok:
  fixes off :: nat
  assumes "inv_state fp64 K (w, H)" "inj_on fp64 K" "IndexKey attr token \<in> K" "\<forall>k \<in> K. key_view fp64 w k = v k"
    and "TypeOf (schema_of env) attr = Some (Scalar scalar)" "ts_Count ts = int cnt" "0 < cnt"
    and "\<forall>ul \<in> set (ts_UidMatrix ts). bucket_ok (fmts env) scalar attr K v token ul"
  defines "st \<equiv> sort_state (fmts env) scalar attr v cnt off"
  shows "\<exists>w'. intersectBucket env fp32 fp64 ts attr token (map (\<lambda>ul. as_il (st before ul)) (ts_UidMatrix ts)) w =
      Inr (if \<forall>ul \<in> set (ts_UidMatrix ts). length (snd (st (before @ [token]) ul)) = cnt then errDone else errContinue,
           map (\<lambda>ul. as_il (st (before @ [token]) ul)) (ts_UidMatrix ts), w') \<and>
    inv_state fp64 K (w', H) \<and> (\<forall>k \<in> K. key_view fp64 w' k = v k)"
proof -
  let ?ik = "IndexKey attr token" and ?m = "ts_UidMatrix ts"
  obtain a w1 where w1: "GetOrCreate fp32 fp64 ?ik w = Inr (a, w1)" "key (lheap w1 a) = ?ik"
    "inv_state fp64 K (w1, add_mset a H)" "\<forall>k' \<in> K. key_view fp64 w1 k' = key_view fp64 w k'"
    "\<not> deleteMe (lheap w1 a)"
    by (rule acquire_ok [OF assms(1,3,2), where ?fp32.0 = fp32]) blast
  have a: "a \<in># add_mset a H" by simp
  have at: "list_at w1 (fp64 ?ik) = Some a" using held_ok(4) [OF w1(3) a w1(5)] w1(2) by simp
  have v1: "\<forall>k \<in> K. key_view fp64 w1 k = v k" using w1(4) assms(4) by simp
  let ?ps = "map (\<lambda>ul. (ul, st before ul)) ?m"
  have ok: "\<forall>(ul, s) \<in> set ?ps. bucket_ok (fmts env) scalar attr K v token ul" using assms(8) by auto
  obtain w2 where w2: "bucket_loop (fmts env) fp32 fp64 attr scalar (int cnt) a (map (\<lambda>(ul, s). (ul, as_il s)) ?ps) w1 =
      Inr (map (\<lambda>(ul, s). as_il (bucket_step cnt (bucket_uids (fmts env) scalar attr v token ul) s)) ?ps, w2)"
    "inv_state fp64 K (w2, add_mset a H)" "\<forall>k \<in> K. key_view fp64 w2 k = v k"
    using bucket_loop_ok [OF w1(3) assms(2) a assms(3) at v1 assms(7) ok] by blast
  obtain w3 where w3: "cache_decr a w2 = Inr w3" "inv_state fp64 K (w3, H)" "key_view fp64 w3 = key_view fp64 w2"
    using release_ok [OF w2(2) a] by auto
  have step: "bucket_step cnt (bucket_uids (fmts env) scalar attr v token ul) (st before ul) = st (before @ [token]) ul" for ul
    by (simp add: st_def sort_state_def window_snoc)
  have z: "zip ?m (map (\<lambda>ul. as_il (st before ul)) ?m) = map (\<lambda>(ul, s). (ul, as_il s)) ?ps"
    by (simp add: zip_map2 zip_same_conv_map comp_def)
  have out: "map (\<lambda>(ul, s). as_il (bucket_step cnt (bucket_uids (fmts env) scalar attr v token ul) s)) ?ps =
      map as_il (map (st (before @ [token])) ?m)" by (simp add: step comp_def)
  have "\<forall>s \<in> set (map (st (before @ [token])) ?m). length (snd s) \<le> cnt"
    by (simp add: st_def sort_state_def window_length)
  from check_sizes_ok [OF this] show ?thesis
    using w1(1) w2(1,3) w3 assms(5,6) unfolding intersectBucket_def z out by (simp add: comp_def)
qed

lemma sort_buckets_ok:
  fixes off :: nat
  assumes "inv_state fp64 K (w, H)" "inj_on fp64 K" "\<forall>k \<in> K. key_view fp64 w k = v k"
    and "TypeOf (schema_of env) (ts_Attr ts) = Some (Scalar scalar)" "ts_Count ts = int cnt" "0 < cnt"
    and "ssorted (before @ rest)" "[] \<notin> set rest" "IndexKey (ts_Attr ts) ` set rest \<subseteq> K"
    and "\<forall>token \<in> set rest. \<forall>ul \<in> set (ts_UidMatrix ts). bucket_ok (fmts env) scalar (ts_Attr ts) K v token ul"
    and "length rest \<le> fuel"
  defines "st \<equiv> sort_state (fmts env) scalar (ts_Attr ts) v cnt off"
  shows "\<exists>out w'. sort_buckets fuel env fp32 fp64 ts (before @ rest) (case rest of [] \<Rightarrow> [] | x # _ \<Rightarrow> x)
      (map (\<lambda>ul. as_il (st before ul)) (ts_UidMatrix ts)) w = Some (Inr (Inr out, w')) \<and>
    map snd out = map (\<lambda>ul. snd (st (before @ rest) ul)) (ts_UidMatrix ts) \<and>
    inv_state fp64 K (w', H) \<and> (\<forall>k \<in> K. key_view fp64 w' k = v k)"
  using assms(1,3,7-11)
proof (induction rest arbitrary: before w fuel)
  case Nil
  then show ?case by (subst sort_buckets.simps) (simp add: as_il_def comp_def)
next
  case (Cons token rest)
  let ?m = "ts_UidMatrix ts" and ?next = "case rest of [] \<Rightarrow> [] | x # _ \<Rightarrow> x"
  obtain fuel' where fuel: "fuel = Suc fuel'" "length rest \<le> fuel'" using Cons.prems(7) by (cases fuel) auto
  have tk: "token \<noteq> []" "IndexKey (ts_Attr ts) token \<in> K" using Cons.prems(4,5) by auto
  have b: "\<forall>ul \<in> set ?m. bucket_ok (fmts env) scalar (ts_Attr ts) K v token ul" using Cons.prems(6) by simp
  obtain w1 where w1: "intersectBucket env fp32 fp64 ts (ts_Attr ts) token (map (\<lambda>ul. as_il (st before ul)) ?m) w =
      Inr (if \<forall>ul \<in> set ?m. length (snd (st (before @ [token]) ul)) = cnt then errDone else errContinue,
           map (\<lambda>ul. as_il (st (before @ [token]) ul)) ?m, w1)"
    "inv_state fp64 K (w1, H)" "\<forall>k \<in> K. key_view fp64 w1 k = v k"
    using intersectBucket_ok [OF Cons.prems(1) assms(2) tk(2) Cons.prems(2) assms(4-6) b] unfolding st_def by blast
  have nx: "TokensTable_GetNext (before @ token # rest) token = ?next" by (rule GetNext_walk [OF Cons.prems(3)])
  show ?case
  proof (cases "\<forall>ul \<in> set ?m. length (snd (st (before @ [token]) ul)) = cnt")
    case True
    have "snd (st (before @ token # rest) ul) = snd (st (before @ [token]) ul)" if "ul \<in> set ?m" for ul
    proof -
      have "cnt \<le> length (snd (window cnt off (map (\<lambda>token. bucket_uids (fmts env) scalar (ts_Attr ts) v token ul) (before @ [token]))))"
        using True that by (simp add: st_def sort_state_def)
      from window_full [OF this, of "map (\<lambda>token. bucket_uids (fmts env) scalar (ts_Attr ts) v token ul) rest"]
      show ?thesis by (simp add: st_def sort_state_def)
    qed
    then show ?thesis using w1 True tk(1) fuel(1)
      by (subst sort_buckets.simps) (simp add: as_il_def comp_def)
  next
    case False
    have "sort_buckets fuel env fp32 fp64 ts (before @ token # rest) token (map (\<lambda>ul. as_il (st before ul)) ?m) w =
        sort_buckets fuel' env fp32 fp64 ts (before @ token # rest) ?next
          (map (\<lambda>ul. as_il (st (before @ [token]) ul)) ?m) w1"
      using w1(1) False tk(1) fuel(1) nx by (subst sort_buckets.simps) simp
    moreover have "ssorted ((before @ [token]) @ rest)" "[] \<notin> set rest" "IndexKey (ts_Attr ts) ` set rest \<subseteq> K"
      "\<forall>token \<in> set rest. \<forall>ul \<in> set ?m. bucket_ok (fmts env) scalar (ts_Attr ts) K v token ul"
      using Cons.prems(3-6) by simp_all
    from Cons.IH [OF w1(2,3) this fuel(2)] have "\<exists>out w'. sort_buckets fuel' env fp32 fp64 ts (before @ token # rest) ?next
        (map (\<lambda>ul. as_il (st (before @ [token]) ul)) ?m) w1 = Some (Inr (Inr out, w')) \<and>
      map snd out = map (\<lambda>ul. snd (st (before @ token # rest) ul)) ?m \<and>
      inv_state fp64 K (w', H) \<and> (\<forall>k \<in> K. key_view fp64 w' k = v k)" by simp
    ultimately show ?thesis by simp
  qed
qed


definition sample_sort :: task_sort where
  "sample_sort = \<lparr>ts_Attr = ''n'', ts_UidMatrix = [[1], []], ts_Count = 5, ts_Offset = 0\<rparr>"


end
