(* ===== verification/Lexer.thy ===== *)
theory Lexer
  imports Go_Strings
begin

text \<open>
  The scanner of \<^verbatim>\<open>lex/lexer.go\<close> that the three lexers of the program share, and the loop that
  runs a lexer's state functions. The channel of items is the list of the items sent so far. An
  iteration of the loop of a state function that leaves nothing in local variables is a step that
  stays in the state. The locale \<open>lexer_states\<close> states what the functions of a lexer promise, and
  shows once that the loop then ends, without a panic, at an end or error item.
\<close>

section \<open>The scanner\<close>

definition EOF :: rune where "EOF = - 1"
definition ItemEOF :: nat where "ItemEOF = 0"
definition ItemError :: nat where "ItemError = 1"

record item =
  Typ :: nat
  Val :: bytes

record lexer =
  Input :: bytes
  Start :: nat
  Pos :: nat
  Width :: nat
  Items :: "item list"
  Depth :: int
  FilterDepth :: int
  Mode :: nat

definition Lexer_Init :: "bytes \<Rightarrow> lexer" where
  "Lexer_Init input =
     \<lparr>Input = input, Start = 0, Pos = 0, Width = 0, Items = [], Depth = 0, FilterDepth = 0, Mode = 0\<rparr>"

text \<open>The states are the values of a type \<^typ>\<open>'s\<close>; \<^term>\<open>None\<close> is the nil function, at which the loop stops.\<close>

type_synonym 's lex_result = "(lexer \<times> 's option) go"

definition Errorf :: "bytes \<Rightarrow> lexer \<Rightarrow> lexer" where
  "Errorf msg l = l\<lparr>Items := Items l @ [\<lparr>Typ = ItemError, Val = msg\<rparr>]\<rparr>"

text \<open>The slice \<^verbatim>\<open>l.Input[l.Start:l.Pos]\<close>, which panics out of range.\<close>

definition lexeme :: "lexer \<Rightarrow> bytes go" where
  "lexeme l =
     (if Start l \<le> Pos l \<and> Pos l \<le> length (Input l)
      then Inr (take (Pos l - Start l) (drop (Start l) (Input l)))
      else Inl (Panic ''slice bounds out of range''))"

definition Emit :: "nat \<Rightarrow> lexer \<Rightarrow> lexer go" where
  "Emit t l =
     (if t \<noteq> ItemEOF \<and> Pos l < Start l then Inr l
      else go_bind (lexeme l) (\<lambda>v.
        Inr (l\<lparr>Items := Items l @ [\<lparr>Typ = t, Val = v\<rparr>], Start := Pos l\<rparr>)))"

definition Next :: "lexer \<Rightarrow> rune \<times> lexer" where
  "Next l =
     (if length (Input l) \<le> Pos l then (EOF, l\<lparr>Width := 0\<rparr>)
      else case DecodeRune (drop (Pos l) (Input l)) of
        (r, w) \<Rightarrow> (r, l\<lparr>Width := w, Pos := Pos l + w\<rparr>))"

definition Backup :: "lexer \<Rightarrow> lexer" where
  "Backup l = l\<lparr>Pos := Pos l - Width l\<rparr>"

definition Peek :: "lexer \<Rightarrow> rune \<times> lexer" where
  "Peek l = (case Next l of (r, l') \<Rightarrow> (r, Backup l'))"

definition Ignore :: "lexer \<Rightarrow> lexer" where
  "Ignore l = l\<lparr>Start := Pos l\<rparr>"

definition remaining :: "lexer \<Rightarrow> nat" where
  "remaining l = length (Input l) - Pos l"

text \<open>The current item is a slice of the input.\<close>

definition lex_ok :: "lexer \<Rightarrow> bool" where
  "lex_ok l \<longleftrightarrow> Start l \<le> Pos l \<and> Pos l \<le> length (Input l)"

lemma Next_less: "Next l = (r, l') \<Longrightarrow> r \<noteq> EOF \<Longrightarrow> remaining l' < remaining l"
  using DecodeRune_width [of "drop (Pos l) (Input l)"]
  by (auto simp: Next_def remaining_def split: if_splits prod.splits)

function AcceptRun :: "(rune \<Rightarrow> bool) \<Rightarrow> lexer \<Rightarrow> lexer" where
  "AcceptRun c l =
     (case Next l of (r, l') \<Rightarrow> if r = EOF \<or> \<not> c r then Backup l' else AcceptRun c l')"
  by pat_completeness auto
termination by (relation "measure (\<lambda>(c, l). remaining l)") (auto dest: Next_less sym)

function AcceptUntil :: "(rune \<Rightarrow> bool) \<Rightarrow> lexer \<Rightarrow> lexer" where
  "AcceptUntil c l =
     (case Next l of (r, l') \<Rightarrow> if r = EOF \<or> c r then Backup l' else AcceptUntil c l')"
  by pat_completeness auto
termination by (relation "measure (\<lambda>(c, l). remaining l)") (auto dest: Next_less sym)

declare AcceptRun.simps [simp del] AcceptUntil.simps [simp del]

lemma AcceptUntil_Run: "AcceptUntil c l = AcceptRun (\<lambda>r. \<not> c r) l"
  by (induction c l rule: AcceptUntil.induct)
    (subst AcceptUntil.simps, subst AcceptRun.simps, auto split: prod.split)

text \<open>The loop \<^verbatim>\<open>run\<close> of the three packages.\<close>

partial_function (option) lex_loop ::
  "('s \<Rightarrow> lexer \<Rightarrow> 's lex_result) \<Rightarrow> 's \<Rightarrow> lexer \<Rightarrow> lexer go option" where
  [code]: "lex_loop step st l =
     (case step st l of
        Inl e \<Rightarrow> Some (Inl e)
      | Inr (l', None) \<Rightarrow> Some (Inr l')
      | Inr (l', Some st') \<Rightarrow> lex_loop step st' l')"

text \<open>Emit an item, then go to a state.\<close>

definition emit_to :: "nat \<Rightarrow> 's option \<Rightarrow> lexer \<Rightarrow> 's lex_result" where
  "emit_to t st l = go_bind (Emit t l) (\<lambda>l'. Inr (l', st))"

text \<open>Receiving from the channel of items: the zero item once it is closed.\<close>

fun recv :: "item list \<Rightarrow> item \<times> item list" where
  "recv [] = (\<lparr>Typ = ItemEOF, Val = []\<rparr>, [])"
| "recv (i # is) = (i, is)"

lemma recv_length: "recv is = (i, is') \<Longrightarrow> length is' \<le> length is"
  by (cases "is") auto

section \<open>Every lexer\<close>

lemma Next_facts:
  assumes "Next l = (r, l')"
  shows "Input l' = Input l" "Start l' = Start l" "Items l' = Items l" "Depth l' = Depth l"
    "FilterDepth l' = FilterDepth l" "Mode l' = Mode l" "Pos l \<le> Pos l'"
    "Pos l \<le> length (Input l) \<Longrightarrow> Pos l' \<le> length (Input l)"
    "r \<noteq> EOF \<Longrightarrow> Pos l < Pos l'" "Pos l' - Width l' = Pos l"
  using assms DecodeRune_width [of "drop (Pos l) (Input l)"]
  by (auto simp: Next_def split: if_splits prod.splits)

lemma Next_EOF_back: "Next l = (EOF, l') \<Longrightarrow> Pos l' = Pos l \<or> Pos l < Pos l'"
  by (auto simp: Next_def split: if_splits prod.splits)

lemma AcceptRun_facts:
  "Input (AcceptRun c l) = Input l \<and> Start (AcceptRun c l) = Start l \<and> Items (AcceptRun c l) = Items l
   \<and> Depth (AcceptRun c l) = Depth l \<and> FilterDepth (AcceptRun c l) = FilterDepth l
   \<and> Mode (AcceptRun c l) = Mode l \<and> Pos l \<le> Pos (AcceptRun c l)
   \<and> (Pos l \<le> length (Input l) \<longrightarrow> Pos (AcceptRun c l) \<le> length (Input l))"
proof (induction c l rule: AcceptRun.induct)
  case (1 c l)
  obtain r l' where n: "Next l = (r, l')" by (cases "Next l")
  show ?case
  proof (cases "r = EOF \<or> \<not> c r")
    case True
    then have "AcceptRun c l = Backup l'" by (simp add: AcceptRun.simps [of c l] n)
    then show ?thesis using Next_facts [OF n] by (simp add: Backup_def)
  next
    case False
    then have "AcceptRun c l = AcceptRun c l'" by (simp add: AcceptRun.simps [of c l] n)
    then show ?thesis using 1 [OF n [symmetric]] False Next_facts [OF n] by auto
  qed
qed

lemma AcceptRun_simps [simp]:
  "Input (AcceptRun c l) = Input l" "Start (AcceptRun c l) = Start l"
  "Items (AcceptRun c l) = Items l" "Depth (AcceptRun c l) = Depth l"
  "FilterDepth (AcceptRun c l) = FilterDepth l" "Mode (AcceptRun c l) = Mode l"
  using AcceptRun_facts [of c l] by simp_all

lemma AcceptRun_Pos: "Pos l \<le> Pos (AcceptRun c l)"
  and AcceptRun_Pos_le: "Pos l \<le> length (Input l) \<Longrightarrow> Pos (AcceptRun c l) \<le> length (Input l)"
  using AcceptRun_facts [of c l] by blast+

lemma lexeme_ok: "Start l \<le> Pos l \<Longrightarrow> Pos l \<le> length (Input l) \<Longrightarrow>
    lexeme l = Inr (take (Pos l - Start l) (drop (Start l) (Input l)))"
  by (simp add: lexeme_def)

lemma Emit_ok: "Start l \<le> Pos l \<Longrightarrow> Pos l \<le> length (Input l) \<Longrightarrow>
    Emit t l = Inr (l\<lparr>Items := Items l @
      [\<lparr>Typ = t, Val = take (Pos l - Start l) (drop (Start l) (Input l))\<rparr>], Start := Pos l\<rparr>)"
  by (simp add: Emit_def lexeme_def)

text \<open>Scanning ASCII text.\<close>

lemma Next_ascii:
  assumes "drop (Pos l) (Input l) = x # s" "of_char x < (0x80 :: int)"
  shows "Next l = (of_char x, l\<lparr>Width := 1, Pos := Pos l + 1\<rparr>)"
proof -
  have "\<not> length (Input l) \<le> Pos l" using assms(1) by (metis drop_all list.distinct(1))
  then show ?thesis using assms by (simp add: Next_def DecodeRune_ascii)
qed

lemma of_char_not_EOF [simp]: "of_char c \<noteq> EOF"
proof -
  have "(of_char c :: int) = int (of_char c)" by (simp only: of_nat_of_char)
  then have "(0 :: int) \<le> of_char c" by linarith
  then show ?thesis by (simp add: EOF_def)
qed

lemma EOF_numeral [simp]: "EOF \<noteq> numeral n" "numeral n \<noteq> EOF"
  by (simp_all add: EOF_def)

lemma drop_step: "drop n xs = y # ys \<Longrightarrow> drop (Suc n) xs = ys"
  by (metis drop_Suc list.sel(3) tl_drop)

lemma drop_steps: "drop n xs = ys @ zs \<Longrightarrow> drop (n + length ys) xs = zs"
  by (metis add.commute append_eq_conv_conj drop_drop)

lemma AcceptUntil_ascii:
  assumes "drop (Pos l) (Input l) = w @ x # s" "ascii (w @ [x])" "c (of_char x)"
    "\<forall>y \<in> set w. \<not> c (of_char y)"
  shows "AcceptUntil c l = l\<lparr>Width := 1, Pos := Pos l + length w\<rparr>"
  using assms
proof (induction w arbitrary: l)
  case Nil
  then show ?case
    by (subst AcceptUntil.simps) (simp add: Next_ascii ascii_def Backup_def)
next
  case (Cons y w)
  let ?l = "l\<lparr>Width := 1, Pos := Pos l + 1\<rparr>"
  have y: "Next l = (of_char y, ?l)" using Cons.prems by (intro Next_ascii [of l y "w @ x # s"]) (auto simp: ascii_def)
  have "AcceptUntil c l = AcceptUntil c ?l"
    using y Cons.prems by (subst AcceptUntil.simps) simp
  also have "\<dots> = l\<lparr>Width := 1, Pos := Pos l + length (y # w)\<rparr>"
    using Cons.prems Cons.IH [of ?l] drop_step [of "Pos l" "Input l" y] by (simp add: ascii_def)
  finally show ?case .
qed

lemma AcceptRun_ascii:
  assumes "drop (Pos l) (Input l) = w @ x # s" "ascii (w @ [x])" "\<not> c (of_char x)"
    "\<forall>y \<in> set w. c (of_char y)"
  shows "AcceptRun c l = l\<lparr>Width := 1, Pos := Pos l + length w\<rparr>"
  using AcceptUntil_ascii [of l w x s "\<lambda>r. \<not> c r"] assms by (simp add: AcceptUntil_Run)

lemma drop_bound: "drop n xs = y # ys \<Longrightarrow> n < length xs"
  by (metis drop_all leI list.distinct(1))

abbreviation lex_at :: "bytes \<Rightarrow> nat \<Rightarrow> nat \<Rightarrow> nat \<Rightarrow> nat \<Rightarrow> int \<Rightarrow> item list \<Rightarrow> lexer" where
  "lex_at input start pos w m d is \<equiv>
     \<lparr>Input = input, Start = start, Pos = pos, Width = w, Items = is, Depth = d, FilterDepth = 0, Mode = m\<rparr>"

lemma lex_loop_step: "step st l = Inr (l', Some st') \<Longrightarrow> lex_loop step st l = lex_loop step st' l'"
  by (subst lex_loop.simps) simp

text \<open>
  What a state function has to do at a well-formed lexer: it does not panic, the items it sends are
  as the consumer expects them, and either it stops after an end or error item, or the scan has
  moved forward, or the next state ranks lower.
\<close>

definition final_item :: "lexer \<Rightarrow> bool" where
  "final_item l \<longleftrightarrow> Items l \<noteq> [] \<and> Typ (last (Items l)) \<in> {ItemEOF, ItemError}"

definition items_ok :: "(item \<Rightarrow> bool) \<Rightarrow> lexer \<Rightarrow> bool" where
  "items_ok good l \<longleftrightarrow> list_all good (Items l)"

definition lex_step_ok ::
  "(item \<Rightarrow> bool) \<Rightarrow> ('s \<Rightarrow> nat) \<Rightarrow> 's \<Rightarrow> lexer \<Rightarrow> 's lex_result \<Rightarrow> bool" where
  "lex_step_ok good rank st l res \<longleftrightarrow>
     (case res of
        Inl e \<Rightarrow> False
      | Inr (l', None) \<Rightarrow> lex_ok l' \<and> Input l' = Input l \<and> items_ok good l' \<and> final_item l'
      | Inr (l', Some st') \<Rightarrow>
          lex_ok l' \<and> Input l' = Input l \<and> items_ok good l'
          \<and> (Pos l < Pos l' \<or> Pos l = Pos l' \<and> rank st' < rank st))"

text \<open>The contract for the shapes that the results of the state functions have.\<close>

lemma lex_ok_simps [simp]:
  "lex_ok (l\<lparr>Items := is\<rparr>) = lex_ok l" "lex_ok (l\<lparr>Depth := d\<rparr>) = lex_ok l"
  "lex_ok (l\<lparr>FilterDepth := d\<rparr>) = lex_ok l" "lex_ok (l\<lparr>Mode := m\<rparr>) = lex_ok l"
  "lex_ok (l\<lparr>Width := w\<rparr>) = lex_ok l"
  by (simp_all add: lex_ok_def)

lemma items_ok_simps [simp]:
  "items_ok good (l\<lparr>Start := p\<rparr>) = items_ok good l" "items_ok good (l\<lparr>Pos := p\<rparr>) = items_ok good l"
  "items_ok good (l\<lparr>Depth := d\<rparr>) = items_ok good l" "items_ok good (l\<lparr>FilterDepth := d\<rparr>) = items_ok good l"
  "items_ok good (l\<lparr>Mode := m\<rparr>) = items_ok good l" "items_ok good (l\<lparr>Width := w\<rparr>) = items_ok good l"
  "items_ok good (l\<lparr>Items := Items l @ [i]\<rparr>) \<longleftrightarrow> items_ok good l \<and> good i"
  "items_ok good (AcceptRun c l) = items_ok good l"
  by (simp_all add: items_ok_def)

abbreviation any_item :: "item \<Rightarrow> bool" where
  "any_item i \<equiv> True"

lemma items_ok_any [simp]: "items_ok any_item l"
  by (simp add: items_ok_def list_all_iff)

definition emitted :: "nat \<Rightarrow> lexer \<Rightarrow> item" where
  "emitted t l = \<lparr>Typ = t, Val = take (Pos l - Start l) (drop (Start l) (Input l))\<rparr>"

lemma emitted_simps [simp]:
  "Typ (emitted t l) = t" "lex_ok l \<Longrightarrow> length (Val (emitted t l)) = Pos l - Start l"
  by (auto simp: emitted_def lex_ok_def min_def)

lemma Emit_eq: "lex_ok l \<Longrightarrow> Emit t l = Inr (l\<lparr>Items := Items l @ [emitted t l], Start := Pos l\<rparr>)"
  by (simp add: lex_ok_def Emit_ok emitted_def)

lemma lex_step_ok_simps [simp]:
  "lex_step_ok good rank st l0 (Inr (l, Some s)) \<longleftrightarrow>
     lex_ok l \<and> Input l = Input l0 \<and> items_ok good l \<and> (Pos l0 < Pos l \<or> Pos l0 = Pos l \<and> rank s < rank st)"
  "lex_step_ok good rank st l0 (Inr (Errorf m l, None)) \<longleftrightarrow>
     lex_ok l \<and> Input l = Input l0 \<and> items_ok good l \<and> good \<lparr>Typ = ItemError, Val = m\<rparr>"
  "\<not> lex_step_ok good rank st l0 (Inl e)"
  by (auto simp: lex_step_ok_def Errorf_def final_item_def)

lemma lex_step_ok_emit [simp]:
  assumes "lex_ok l"
  shows
    "lex_step_ok good rank st l0 (emit_to t (Some s) l) \<longleftrightarrow>
       Input l = Input l0 \<and> items_ok good l \<and> good (emitted t l)
       \<and> (Pos l0 < Pos l \<or> Pos l0 = Pos l \<and> rank s < rank st)"
    "lex_step_ok good rank st l0 (emit_to ItemEOF None l) \<longleftrightarrow>
       Input l = Input l0 \<and> items_ok good l \<and> good (emitted ItemEOF l)"
  using assms
  by (auto simp: emit_to_def Emit_eq lex_step_ok_def final_item_def) (auto simp: lex_ok_def)

lemma lex_ok_restart [simp]:
  "lex_ok (l\<lparr>Start := p\<rparr>) \<longleftrightarrow> p \<le> Pos l \<and> Pos l \<le> length (Input l)"
  by (simp add: lex_ok_def)

lemma Errorf_simps [simp]:
  "lex_ok (Errorf m l) = lex_ok l" "Input (Errorf m l) = Input l" "Pos (Errorf m l) = Pos l"
  "items_ok good (Errorf m l) \<longleftrightarrow> items_ok good l \<and> good \<lparr>Typ = ItemError, Val = m\<rparr>"
  by (simp_all add: Errorf_def)

lemma lex_ok_Ignore [simp]: "lex_ok l \<Longrightarrow> lex_ok (Ignore l)"
  by (simp add: Ignore_def lex_ok_def)

lemma Ignore_simps [simp]:
  "Input (Ignore l) = Input l" "Pos (Ignore l) = Pos l" "Start (Ignore l) = Pos l"
  "items_ok good (Ignore l) = items_ok good l" "Depth (Ignore l) = Depth l"
  by (simp_all add: Ignore_def)

text \<open>Reading and going back keep the scanner well-formed.\<close>

lemma Next_ok:
  assumes "Next l = (r, l')" "lex_ok l"
  shows "lex_ok l'" "lex_ok (Backup l')" "Pos (Backup l') = Pos l" "Input (Backup l') = Input l"
    "Start (Backup l') = Start l" "items_ok good l' = items_ok good l"
    "items_ok good (Backup l') = items_ok good l" "Input l' = Input l" "Start l' = Start l"
    "Pos l \<le> Pos l'" "r \<noteq> EOF \<Longrightarrow> Pos l < Pos l'"
  using Next_facts [OF assms(1)] assms(2) by (simp_all add: lex_ok_def Backup_def items_ok_def)

lemma Peek_ok:
  assumes "Peek l = (r, l')" "lex_ok l"
  shows "lex_ok l'" "Pos l' = Pos l" "Input l' = Input l" "Start l' = Start l"
    "items_ok good l' = items_ok good l"
proof -
  obtain l1 where "Next l = (r, l1)" "l' = Backup l1"
    using assms(1) by (auto simp: Peek_def split: prod.splits)
  with Next_ok [OF this(1) assms(2)]
  show "lex_ok l'" "Pos l' = Pos l" "Input l' = Input l" "Start l' = Start l"
    "items_ok good l' = items_ok good l"
    by simp_all
qed

lemma AcceptRun_ok [simp]: "lex_ok l \<Longrightarrow> lex_ok (AcceptRun c l)"
  using AcceptRun_Pos [of l c] AcceptRun_Pos_le [of l c] by (simp add: lex_ok_def)

lemma Next_Backup: "Next l = (r, l') \<Longrightarrow> Next (Backup l') = (r, l')"
  by (auto simp: Next_def Backup_def split: if_splits prod.splits)

lemma AcceptRun_step: "Next l = (r, l') \<Longrightarrow> r \<noteq> EOF \<Longrightarrow> c r \<Longrightarrow> AcceptRun c l = AcceptRun c l'"
  by (subst AcceptRun.simps) simp

lemma AcceptRun_at_least: "Next l = (r, l') \<Longrightarrow> r \<noteq> EOF \<Longrightarrow> c r \<Longrightarrow> Pos l' \<le> Pos (AcceptRun c l)"
  using AcceptRun_step [of l r l' c] AcceptRun_Pos [of l' c] by simp

locale lexer_states =
  fixes step :: "'s \<Rightarrow> lexer \<Rightarrow> 's lex_result"
    and rank :: "'s \<Rightarrow> nat"
    and good :: "item \<Rightarrow> bool"
  assumes step_ok: "lex_ok l \<Longrightarrow> items_ok good l \<Longrightarrow> lex_step_ok good rank st l (step st l)"
begin

lemma lex_loop_ends:
  "lex_ok l \<Longrightarrow> items_ok good l \<Longrightarrow>
   \<exists>l'. lex_loop step st l = Some (Inr l') \<and> lex_ok l' \<and> Input l' = Input l \<and> items_ok good l'
     \<and> final_item l'"
proof (induction "(remaining l, rank st)" arbitrary: l st
    rule: wf_induct_rule [OF wf_lex_prod [OF wf_less_than wf_less_than]])
  case (1 l st)
  have ok: "lex_step_ok good rank st l (step st l)" by (rule step_ok [OF 1(2,3)])
  show ?case
  proof (cases "step st l")
    case (Inl e)
    with ok show ?thesis by (simp add: lex_step_ok_def)
  next
    case (Inr p)
    obtain l' st' where p: "p = (l', st')" by (cases p)
    show ?thesis
    proof (cases st')
      case None
      with ok Inr p show ?thesis
        by (subst lex_loop.simps) (simp add: lex_step_ok_def)
    next
      case (Some s)
      have l': "lex_ok l'" "items_ok good l'" "Input l' = Input l"
        and lt: "((remaining l', rank s), (remaining l, rank st)) \<in> less_than <*lex*> less_than"
        using ok Inr p Some by (auto simp: lex_step_ok_def remaining_def lex_ok_def)
      have "lex_loop step st l = lex_loop step s l'"
        using Inr p Some by (subst lex_loop.simps) simp
      with 1(1) [OF lt l'(1,2)] l'(3) show ?thesis by simp
    qed
  qed
qed

lemma run_ends:
  obtains l' where "lex_loop step st (Lexer_Init input) = Some (Inr l')" "items_ok good l'" "final_item l'"
  using lex_loop_ends [of "Lexer_Init input" st]
  by (auto simp: Lexer_Init_def lex_ok_def items_ok_def)

end

end
