(* ===== verification/Rdf.thy ===== *)
theory Rdf
  imports Lexer Scalar_Types Posting_List Go_Strconv
begin

text \<open>
  N-Quads, package \<^verbatim>\<open>rdf\<close>: the states of the lexer (\<^verbatim>\<open>state.go\<close>), the parser that reads the
  lexer's items, and the edges that an N-Quad stands for (\<^verbatim>\<open>parse.go\<close>). Fingerprints, the formats of
  values and the class of the Unicode letters and digits beyond ASCII are parameters; the arguments
  that error messages are formatted with are left out. Results: lexing ends without a panic for
  every input, parsing too, and what is printed in the syntax of N-Quads is read back.
\<close>

section \<open>Lexer\<close>

definition rdf_itemText :: nat where "rdf_itemText = 5"
definition rdf_itemSubject :: nat where "rdf_itemSubject = 6"
definition rdf_itemPredicate :: nat where "rdf_itemPredicate = 7"
definition rdf_itemObject :: nat where "rdf_itemObject = 8"
definition rdf_itemLabel :: nat where "rdf_itemLabel = 9"
definition rdf_itemLiteral :: nat where "rdf_itemLiteral = 10"
definition rdf_itemLanguage :: nat where "rdf_itemLanguage = 11"
definition rdf_itemObjectType :: nat where "rdf_itemObjectType = 12"
definition rdf_itemValidEnd :: nat where "rdf_itemValidEnd = 13"

lemmas rdf_items = rdf_itemText_def rdf_itemSubject_def rdf_itemPredicate_def rdf_itemObject_def
  rdf_itemLabel_def rdf_itemLiteral_def rdf_itemLanguage_def rdf_itemObjectType_def
  rdf_itemValidEnd_def ItemEOF_def ItemError_def

definition atSubject :: int where "atSubject = 0"
definition atPredicate :: int where "atPredicate = 1"
definition atObject :: int where "atObject = 2"
definition atLabel :: int where "atLabel = 3"

lemmas rdf_depths = atSubject_def atPredicate_def atObject_def atLabel_def

definition isClosingBracket :: "rune \<Rightarrow> bool" where
  "isClosingBracket r \<longleftrightarrow> r = of_char (CHR ''>'')"

definition rdf_isSpace :: "rune \<Rightarrow> bool" where
  "rdf_isSpace r \<longleftrightarrow> r = 0x09 \<or> r = 0x20"

definition rdf_isEndLiteral :: "rune \<Rightarrow> bool" where
  "rdf_isEndLiteral r \<longleftrightarrow> r = of_char (CHR 0x22) \<or> r = 0x0D \<or> r = 0x0A"

definition isLangTagPrefix :: "rune \<Rightarrow> bool" where
  "isLangTagPrefix r \<longleftrightarrow>
     of_char (CHR ''a'') \<le> r \<and> r \<le> of_char (CHR ''z'') \<or> of_char (CHR ''A'') \<le> r \<and> r \<le> of_char (CHR ''Z'')"

definition isLangTag :: "rune \<Rightarrow> bool" where
  "isLangTag r \<longleftrightarrow>
     isLangTagPrefix r \<or> r = of_char (CHR ''-'') \<or> of_char (CHR ''0'') \<le> r \<and> r \<le> of_char (CHR ''9'')"

datatype rdf_state =
  Rdf_lexText | Rdf_lexSubject | Rdf_lexPredicate | Rdf_lexObject | Rdf_lexLabel | Rdf_lexLiteral

definition rdf_lexText_end :: "lexer \<Rightarrow> rdf_state lex_result" where
  "rdf_lexText_end l =
     go_bind (if Start l < Pos l then Emit rdf_itemText l else Inr l) (emit_to ItemEOF None)"

text \<open>The default case has no return: the error item is sent and the loop goes on.\<close>

definition rdf_lexText :: "lexer \<Rightarrow> rdf_state lex_result" where
  "rdf_lexText l =
     (case Next l of (r, l1) \<Rightarrow>
        if r = of_char (CHR ''<'') \<or> r = of_char (CHR ''_'') then
          if Depth l1 = atSubject then emit_to rdf_itemText (Some Rdf_lexSubject) (Backup l1)
          else if Depth l1 = atPredicate then emit_to rdf_itemText (Some Rdf_lexPredicate) (Backup l1)
          else if Depth l1 = atObject then emit_to rdf_itemText (Some Rdf_lexObject) (Backup l1)
          else if Depth l1 = atLabel then emit_to rdf_itemText (Some Rdf_lexLabel) (Backup l1)
          else Inr (Errorf ''Invalid input at lexText'' l1, None)
        else if r = of_char (CHR 0x22) then
          if Depth l1 \<noteq> atObject then Inr (Errorf ''Invalid quote for non-object.'' l1, None)
          else emit_to rdf_itemText (Some Rdf_lexObject) (Backup l1)
        else if r = EOF then rdf_lexText_end l1
        else if r = of_char (CHR ''.'') then
          go_bind (if atObject < Depth l1 then Emit rdf_itemValidEnd l1 else Inr l1) rdf_lexText_end
        else if rdf_isSpace r then Inr (l1, Some Rdf_lexText)
        else Inr (Errorf ''Invalid input at lexText'' l1, Some Rdf_lexText))"

definition lexUntilClosing :: "nat \<Rightarrow> rdf_state \<Rightarrow> lexer \<Rightarrow> rdf_state lex_result" where
  "lexUntilClosing styp sfn l =
     (case Next (AcceptUntil isClosingBracket l) of (r, l1) \<Rightarrow>
        if r = EOF then Inr (Errorf ''Unexpected end of subject'' l1, None)
        else if r = of_char (CHR ''>'') then emit_to styp (Some sfn) l1
        else Inr (Errorf ''Invalid character found'' l1, None))"

definition lexUidNode :: "nat \<Rightarrow> rdf_state \<Rightarrow> lexer \<Rightarrow> rdf_state lex_result" where
  "lexUidNode styp sfn l =
     (case Peek (AcceptUntil rdf_isSpace l) of (r, l1) \<Rightarrow>
        if r = EOF then Inr (Errorf ''Unexpected end of uid subject'' l1, None)
        else
          go_bind (lexeme l1) (\<lambda>s.
            if \<not> HasPrefix s ''_uid_:'' then Inr (Errorf ''Expected _uid_:'' l1, None)
            else
              (case ParseUint0 (drop 6 s) of
                 Inl e \<Rightarrow> Inr (Errorf ''Unable to convert to UID'' l1, None)
               | Inr _ \<Rightarrow>
                   if rdf_isSpace r then emit_to styp (Some sfn) l1
                   else Inr (Errorf ''Invalid character found for UID node'' l1, None))))"

definition lexBlankNode :: "nat \<Rightarrow> rdf_state \<Rightarrow> lexer \<Rightarrow> rdf_state lex_result" where
  "lexBlankNode styp sfn l =
     (case Peek (AcceptUntil rdf_isSpace l) of (r, l1) \<Rightarrow>
        if r = EOF then Inr (Errorf ''Unexpected end of subject'' l1, None)
        else if rdf_isSpace r then emit_to styp (Some sfn) l1
        else Inr (Errorf ''Invalid character found'' l1, None))"

text \<open>One level deeper: \<^verbatim>\<open>l.Depth++\<close>.\<close>

definition deeper :: "lexer \<Rightarrow> lexer" where
  "deeper l = l\<lparr>Depth := Depth l + 1\<rparr>"

definition lexSubject :: "lexer \<Rightarrow> rdf_state lex_result" where
  "lexSubject l =
     (case Next l of (r, l1) \<Rightarrow>
        if r = of_char (CHR ''<'') then lexUntilClosing rdf_itemSubject Rdf_lexText (deeper l1)
        else if r = of_char (CHR ''_'') then
          (case Next (deeper l1) of (r2, l2) \<Rightarrow>
             if r2 = of_char (CHR ''u'') then lexUidNode rdf_itemSubject Rdf_lexText l2
             else if r2 = of_char (CHR '':'') then lexBlankNode rdf_itemSubject Rdf_lexText l2
             else Inr (Errorf ''Invalid character during lexSubject'' l2, None))
        else Inr (Errorf ''Invalid character during lexSubject'' l1, None))"

definition lexPredicate :: "lexer \<Rightarrow> rdf_state lex_result" where
  "lexPredicate l =
     (case Next l of (r, l1) \<Rightarrow>
        if r \<noteq> of_char (CHR ''<'') then Inr (Errorf ''Invalid character in lexPredicate'' l1, None)
        else lexUntilClosing rdf_itemPredicate Rdf_lexText (deeper l1))"

definition lexLanguage :: "lexer \<Rightarrow> rdf_state lex_result" where
  "lexLanguage l =
     (case Next l of (r, l1) \<Rightarrow>
        if r \<noteq> of_char (CHR ''@'') then Inr (Errorf ''Expected @ prefix for lexLanguage'' l1, None)
        else
          (case Next (Ignore l1) of (r2, l2) \<Rightarrow>
             if \<not> isLangTagPrefix r2 then Inr (Errorf ''Invalid language tag prefix'' l2, None)
             else emit_to rdf_itemLanguage (Some Rdf_lexText) (AcceptRun isLangTag l2)))"

definition rdf_lexObjectType :: "lexer \<Rightarrow> rdf_state lex_result" where
  "rdf_lexObjectType l =
     (case Next l of (r, l1) \<Rightarrow>
        if r \<noteq> of_char (CHR ''^'') then Inr (Errorf ''Expected ^ for lexObjectType'' l1, None)
        else
          (case Next l1 of (r2, l2) \<Rightarrow>
             if r2 \<noteq> of_char (CHR ''^'') then Inr (Errorf ''Expected ^^ for lexObjectType'' l2, None)
             else
               (case Next (Ignore l2) of (r3, l3) \<Rightarrow>
                  if r3 \<noteq> of_char (CHR ''<'') then Inr (Errorf ''Expected < for lexObjectType'' l3, None)
                  else lexUntilClosing rdf_itemObjectType Rdf_lexText l3)))"

definition lexLiteral :: "lexer \<Rightarrow> rdf_state lex_result" where
  "lexLiteral l =
     (case Next l of (r, l1) \<Rightarrow>
        if r = 0x5C then Inr (snd (Next l1), Some Rdf_lexLiteral)
        else if r \<noteq> EOF \<and> \<not> rdf_isEndLiteral r then Inr (l1, Some Rdf_lexLiteral)
        else
          go_bind (Emit rdf_itemLiteral (Backup l1)) (\<lambda>l2.
            (case Peek (deeper (Ignore (snd (Next l2)))) of (r3, l3) \<Rightarrow>
               if r3 = of_char (CHR ''@'') then lexLanguage l3
               else if r3 = of_char (CHR ''^'') then rdf_lexObjectType l3
               else Inr (l3, Some Rdf_lexText))))"

definition rdf_lexObject :: "lexer \<Rightarrow> rdf_state lex_result" where
  "rdf_lexObject l =
     (case Next l of (r, l1) \<Rightarrow>
        if r = of_char (CHR ''<'') then lexUntilClosing rdf_itemObject Rdf_lexText (deeper l1)
        else if r = of_char (CHR ''_'') then
          (case Next (deeper l1) of (r2, l2) \<Rightarrow>
             if r2 = of_char (CHR ''u'') then lexUidNode rdf_itemObject Rdf_lexText l2
             else if r2 = of_char (CHR '':'') then lexBlankNode rdf_itemObject Rdf_lexText l2
             else if r2 = of_char (CHR 0x22) then Inr (Ignore l2, Some Rdf_lexLiteral)
             else Inr (Errorf ''Invalid char at lexObject'' l2, None))
        else if r = of_char (CHR 0x22) then Inr (Ignore l1, Some Rdf_lexLiteral)
        else Inr (Errorf ''Invalid char at lexObject'' l1, None))"

definition lexLabel :: "lexer \<Rightarrow> rdf_state lex_result" where
  "lexLabel l =
     (case Next l of (r, l1) \<Rightarrow>
        if r = of_char (CHR ''<'') then lexUntilClosing rdf_itemLabel Rdf_lexText (deeper l1)
        else if r = of_char (CHR ''_'') then
          (case Next (deeper l1) of (r2, l2) \<Rightarrow>
             if r2 \<noteq> of_char (CHR '':'') then Inr (Errorf ''Invalid char at lexLabel'' l2, None)
             else lexBlankNode rdf_itemLabel Rdf_lexText (Backup l2))
        else Inr (Errorf ''Invalid char at lexLabel'' l1, None))"

fun rdf_step :: "rdf_state \<Rightarrow> lexer \<Rightarrow> rdf_state lex_result" where
  "rdf_step Rdf_lexText = rdf_lexText"
| "rdf_step Rdf_lexSubject = lexSubject"
| "rdf_step Rdf_lexPredicate = lexPredicate"
| "rdf_step Rdf_lexObject = rdf_lexObject"
| "rdf_step Rdf_lexLabel = lexLabel"
| "rdf_step Rdf_lexLiteral = lexLiteral"

definition rdf_run :: "lexer \<Rightarrow> lexer go option" where
  "rdf_run l = lex_loop rdf_step Rdf_lexText l"

section \<open>The lexer ends\<close>

text \<open>The items that the parser strips of their brackets have at least two bytes.\<close>

definition rdf_good :: "item \<Rightarrow> bool" where
  "rdf_good i \<longleftrightarrow>
     (Typ i \<in> {rdf_itemSubject, rdf_itemPredicate, rdf_itemObject, rdf_itemLabel, rdf_itemObjectType}
        \<longrightarrow> 2 \<le> length (Val i))"

fun rdf_rank :: "rdf_state \<Rightarrow> nat" where
  "rdf_rank Rdf_lexLiteral = 2"
| "rdf_rank Rdf_lexText = 1"
| "rdf_rank _ = 0"

lemma rdf_good_simps [simp]:
  "rdf_good \<lparr>Typ = ItemError, Val = m\<rparr>" "rdf_good (emitted ItemEOF l)"
  "rdf_good (emitted rdf_itemText l)" "rdf_good (emitted rdf_itemValidEnd l)"
  "rdf_good (emitted rdf_itemLiteral l)" "rdf_good (emitted rdf_itemLanguage l)"
  "lex_ok l \<Longrightarrow> Start l + 2 \<le> Pos l \<Longrightarrow> rdf_good (emitted t l)"
  by (auto simp: rdf_good_def rdf_items)

lemma lexUntilClosing_ok:
  assumes l: "lex_ok l" "items_ok rdf_good l" and "Start l < Pos l" "Pos l0 < Pos l" "Input l0 = Input l"
  shows "lex_step_ok rdf_good rdf_rank st l0 (lexUntilClosing styp sfn l)"
proof -
  define m where "m = AcceptUntil isClosingBracket l"
  have m: "lex_ok m" "items_ok rdf_good m" "Input m = Input l" "Start m = Start l" "Pos l \<le> Pos m"
    using l AcceptRun_Pos [of l "\<lambda>r. \<not> isClosingBracket r"] by (simp_all add: m_def AcceptUntil_Run)
  obtain r l1 where n: "Next m = (r, l1)" by (cases "Next m")
  show ?thesis
    using assms m Next_ok [OF n m(1)]
    by (cases "r = EOF") (auto simp: lexUntilClosing_def m_def [symmetric] n)
qed

text \<open>A node up to a space, of which at least two bytes are read.\<close>

lemma space_node_ok:
  assumes l: "lex_ok l" "items_ok rdf_good l"
    and "Start l + 2 \<le> Pos (AcceptUntil rdf_isSpace l)" "Pos l0 < Pos l" "Input l0 = Input l"
  shows "lex_step_ok rdf_good rdf_rank st l0 (lexUidNode styp sfn l)"
    "lex_step_ok rdf_good rdf_rank st l0 (lexBlankNode styp sfn l)"
proof -
  define m where "m = AcceptUntil rdf_isSpace l"
  have m: "lex_ok m" "items_ok rdf_good m" "Input m = Input l" "Start m = Start l" "Pos l \<le> Pos m"
    using l AcceptRun_Pos [of l "\<lambda>r. \<not> rdf_isSpace r"] by (simp_all add: m_def AcceptUntil_Run)
  obtain r l1 where n: "Peek m = (r, l1)" by (cases "Peek m")
  have l1: "lex_ok l1" "lexeme l1 = Inr (take (Pos l1 - Start l1) (drop (Start l1) (Input l1)))"
    using Peek_ok [OF n m(1)] by (simp_all add: lex_ok_def lexeme_ok)
  show "lex_step_ok rdf_good rdf_rank st l0 (lexUidNode styp sfn l)"
    "lex_step_ok rdf_good rdf_rank st l0 (lexBlankNode styp sfn l)"
    using assms(3-) m Peek_ok [OF n m(1)] l1
    by (simp_all add: lexUidNode_def lexBlankNode_def m_def [symmetric] n split: sum.split)
qed

lemma rdf_lexText_end_ok:
  assumes "lex_ok l" "items_ok rdf_good l" "Input l0 = Input l"
  shows "lex_step_ok rdf_good rdf_rank st l0 (rdf_lexText_end l)"
  using assms by (simp add: rdf_lexText_end_def Emit_eq) (simp add: lex_ok_def)

lemma rdf_lexText_ok:
  assumes l: "lex_ok l" "items_ok rdf_good l"
  shows "lex_step_ok rdf_good rdf_rank Rdf_lexText l (rdf_lexText l)"
proof -
  obtain r l1 where n: "Next l = (r, l1)" by (cases "Next l")
  have l1: "lex_ok l1" by (rule Next_ok [OF n l(1)])
  then have "Pos l1 \<le> length (Input l1)" by (simp add: lex_ok_def)
  then show ?thesis
    using l Next_ok [OF n l(1)]
    by (cases "r = EOF") (simp_all add: rdf_lexText_def n Emit_eq l1 rdf_lexText_end_ok)
qed


lemma deeper_simps [simp]:
  "lex_ok (deeper l) = lex_ok l" "items_ok good (deeper l) = items_ok good l"
  "Input (deeper l) = Input l" "Pos (deeper l) = Pos l" "Start (deeper l) = Start l"
  by (simp_all add: deeper_def)

text \<open>The common part of the states that read an IRI or a node.\<close>

lemma two_runes:
  assumes l: "lex_ok l" and n: "Next l = (r, l1)" "r \<noteq> EOF" "Next (deeper l1) = (r2, l2)" "r2 \<noteq> EOF"
  shows "lex_ok l2" "items_ok good l2 = items_ok good l" "Input l2 = Input l" "Start l + 2 \<le> Pos l2"
    "Start l2 = Start l" "Pos l < Pos l2"
  using Next_ok [OF n(1) l] n Next_ok [OF n(3)] l by (simp_all add: lex_ok_def)

lemma node_ok:
  assumes "lex_ok l" "items_ok rdf_good l" "Next l = (r, l1)" "r \<noteq> EOF" "Next (deeper l1) = (r2, l2)" "r2 \<noteq> EOF"
  shows "lex_step_ok rdf_good rdf_rank st l (lexUidNode styp sfn l2)"
    "lex_step_ok rdf_good rdf_rank st l (lexBlankNode styp sfn l2)"
  using assms(2) two_runes [OF assms(1,3-6)] AcceptRun_Pos [of l2 "\<lambda>r. \<not> rdf_isSpace r"]
  by (auto intro!: space_node_ok simp: AcceptUntil_Run)

lemma iri_ok:
  assumes "lex_ok l" "items_ok rdf_good l" "Next l = (r, l1)" "r \<noteq> EOF"
  shows "lex_step_ok rdf_good rdf_rank st l (lexUntilClosing styp sfn (deeper l1))"
    "lex_step_ok rdf_good rdf_rank st l (lexUntilClosing styp sfn l1)"
proof -
  have "Start l \<le> Pos l" using assms(1) by (simp add: lex_ok_def)
  then have "Start l1 < Pos l1" using Next_ok [OF assms(3,1)] assms(4) by simp
  then show "lex_step_ok rdf_good rdf_rank st l (lexUntilClosing styp sfn (deeper l1))"
    "lex_step_ok rdf_good rdf_rank st l (lexUntilClosing styp sfn l1)"
    using assms Next_ok [OF assms(3,1)] by (auto intro!: lexUntilClosing_ok)
qed

lemma label_ok:
  assumes "lex_ok l" "items_ok rdf_good l" "Next l = (r, l1)" "r \<noteq> EOF" "Next (deeper l1) = (r2, l2)"
    "r2 = of_char (CHR '':'')"
  shows "lex_step_ok rdf_good rdf_rank st l (lexBlankNode styp sfn (Backup l2))"
proof (rule space_node_ok(2))
  have r2: "r2 \<noteq> EOF" "\<not> rdf_isSpace r2" using assms(6) by (simp_all add: EOF_def rdf_isSpace_def)
  have "lex_ok (deeper l1)" using Next_ok [OF assms(3,1)] by simp
  note f = Next_ok [OF assms(5) this]
  show "lex_ok (Backup l2)" "items_ok rdf_good (Backup l2)" "Pos l < Pos (Backup l2)" "Input l = Input (Backup l2)"
    using f Next_ok [OF assms(3,1)] assms(2,4) by simp_all
  have "Pos l2 \<le> Pos (AcceptUntil rdf_isSpace (Backup l2))"
    unfolding AcceptUntil_Run by (rule AcceptRun_at_least [OF Next_Backup [OF assms(5)]]) (use r2 in auto)
  then show "Start (Backup l2) + 2 \<le> Pos (AcceptUntil rdf_isSpace (Backup l2))"
    using two_runes [OF assms(1,3-5) r2(1)] f by simp
qed

lemma Next_error:
  assumes "lex_ok l" "items_ok rdf_good l" "Next l = (r, l1)" "Next (deeper l1) = (r2, l2)"
  shows "lex_step_ok rdf_good rdf_rank st l (Inr (Errorf m l1, None))"
    "lex_step_ok rdf_good rdf_rank st l (Inr (Errorf m l2, None))"
proof -
  have "lex_ok (deeper l1)" using Next_ok [OF assms(3,1)] by simp
  with assms Next_ok [OF assms(3,1)] Next_ok [OF assms(4) this]
  show "lex_step_ok rdf_good rdf_rank st l (Inr (Errorf m l1, None))"
    "lex_step_ok rdf_good rdf_rank st l (Inr (Errorf m l2, None))"
    by simp_all
qed

lemma lexSubject_ok:
  assumes "lex_ok l" "items_ok rdf_good l"
  shows "lex_step_ok rdf_good rdf_rank st l (lexSubject l)"
    "lex_step_ok rdf_good rdf_rank st l (lexPredicate l)"
    "lex_step_ok rdf_good rdf_rank st l (lexLabel l)"
proof -
  obtain r l1 where n: "Next l = (r, l1)" by (cases "Next l")
  obtain r2 l2 where n2: "Next (deeper l1) = (r2, l2)" by (cases "Next (deeper l1)")
  note err = Next_error [OF assms n n2]
  show "lex_step_ok rdf_good rdf_rank st l (lexSubject l)"
    unfolding lexSubject_def n n2 prod.case
    by (auto intro!: err iri_ok [OF assms n] node_ok [OF assms n _ n2] simp: EOF_def simp del: lex_step_ok_simps)
  show "lex_step_ok rdf_good rdf_rank st l (lexPredicate l)"
    unfolding lexPredicate_def n prod.case
    by (auto intro!: err iri_ok [OF assms n] simp: EOF_def simp del: lex_step_ok_simps)
  show "lex_step_ok rdf_good rdf_rank st l (lexLabel l)"
    unfolding lexLabel_def n n2 prod.case
    by (auto intro!: err iri_ok [OF assms n] label_ok [OF assms n _ n2] simp: EOF_def simp del: lex_step_ok_simps)
qed


lemma lexObject_ok:
  assumes "lex_ok l" "items_ok rdf_good l"
  shows "lex_step_ok rdf_good rdf_rank st l (rdf_lexObject l)"
proof -
  obtain r l1 where n: "Next l = (r, l1)" by (cases "Next l")
  obtain r2 l2 where n2: "Next (deeper l1) = (r2, l2)" by (cases "Next (deeper l1)")
  note err = Next_error [OF assms n n2]
  have l1: "r \<noteq> EOF \<Longrightarrow> lex_step_ok rdf_good rdf_rank st l (Inr (Ignore l1, Some Rdf_lexLiteral))"
    using Next_ok [OF n assms(1)] assms(2) by simp
  have l2: "r \<noteq> EOF \<Longrightarrow> r2 \<noteq> EOF \<Longrightarrow> lex_step_ok rdf_good rdf_rank st l (Inr (Ignore l2, Some Rdf_lexLiteral))"
    using two_runes [OF assms(1) n _ n2] assms(2) by simp
  show ?thesis
    unfolding rdf_lexObject_def n n2 prod.case
    by (auto intro!: err iri_ok [OF assms n] node_ok [OF assms n _ n2] l1 l2 simp: EOF_def simp del: lex_step_ok_simps)
qed

text \<open>What follows a literal, after at least the position where it began.\<close>

lemma lexLanguage_ok:
  assumes "lex_ok l" "items_ok rdf_good l" "Pos l0 \<le> Pos l" "Input l0 = Input l"
  shows "lex_step_ok rdf_good rdf_rank st l0 (lexLanguage l)"
proof -
  obtain r l1 where n: "Next l = (r, l1)" by (cases "Next l")
  obtain r2 l2 where n2: "Next (Ignore l1) = (r2, l2)" by (cases "Next (Ignore l1)")
  have l1: "lex_ok (Ignore l1)" using Next_ok [OF n assms(1)] by simp
  have "\<not> isLangTagPrefix EOF" by (simp add: isLangTagPrefix_def EOF_def)
  then show ?thesis
    using assms Next_ok [OF n assms(1)] Next_ok [OF n2 l1] AcceptRun_Pos [of l2 isLangTag]
    by (cases "r2 = EOF") (auto simp: lexLanguage_def n n2)
qed

lemma lexObjectType_ok:
  assumes "lex_ok l" "items_ok rdf_good l" "Pos l0 \<le> Pos l" "Input l0 = Input l"
  shows "lex_step_ok rdf_good rdf_rank st l0 (rdf_lexObjectType l)"
proof -
  obtain r l1 where n: "Next l = (r, l1)" by (cases "Next l")
  obtain r2 l2 where n2: "Next l1 = (r2, l2)" by (cases "Next l1")
  obtain r3 l3 where n3: "Next (Ignore l2) = (r3, l3)" by (cases "Next (Ignore l2)")
  note f1 = Next_ok [OF n assms(1)]
  note f2 = Next_ok [OF n2 f1(1)]
  have l2: "lex_ok (Ignore l2)" using f2 by simp
  note f3 = Next_ok [OF n3 l2]
  have "r3 \<noteq> EOF \<Longrightarrow> lex_step_ok rdf_good rdf_rank st l0 (lexUntilClosing rdf_itemObjectType Rdf_lexText l3)"
    using assms f1 f2 f3 by (intro lexUntilClosing_ok) auto
  with assms f1 f2 f3 show ?thesis
    by (auto simp: rdf_lexObjectType_def n n2 n3 EOF_def)
qed

lemma lexLiteral_ok:
  assumes "lex_ok l" "items_ok rdf_good l"
  shows "lex_step_ok rdf_good rdf_rank Rdf_lexLiteral l (lexLiteral l)"
proof -
  obtain r l1 where n: "Next l = (r, l1)" by (cases "Next l")
  obtain r' l1' where n': "Next l1 = (r', l1')" by (cases "Next l1")
  note f = Next_ok [OF n assms(1)]
  define l2 where "l2 = (Backup l1)\<lparr>Items := Items (Backup l1) @ [emitted rdf_itemLiteral (Backup l1)], Start := Pos (Backup l1)\<rparr>"
  have e: "Emit rdf_itemLiteral (Backup l1) = Inr l2"
    using f by (simp add: l2_def Emit_eq)
  have "Pos (Backup l1) \<le> length (Input l)" using f assms by (simp add: lex_ok_def)
  then have l2: "lex_ok l2" "items_ok rdf_good l2" "Pos l2 = Pos l" "Input l2 = Input l"
    using f assms by (simp_all add: l2_def)
  obtain r3 l3 where n3: "Next l2 = (r3, l3)" by (cases "Next l2")
  note f3 = Next_ok [OF n3 l2(1)]
  obtain r4 l4 where n4: "Peek (deeper (Ignore l3)) = (r4, l4)" by (cases "Peek (deeper (Ignore l3))")
  have "lex_ok (deeper (Ignore l3))" using f3 by simp
  note f4 = Peek_ok [OF n4 this]
  have "lex_step_ok rdf_good rdf_rank Rdf_lexLiteral l (lexLanguage l4)"
    "lex_step_ok rdf_good rdf_rank Rdf_lexLiteral l (rdf_lexObjectType l4)"
    using f3 f4 l2 by (auto intro!: lexLanguage_ok lexObjectType_ok)
  then show ?thesis
    using assms f Next_ok [OF n' f(1)] f3 f4 l2
    by (cases "r = EOF") (auto simp: lexLiteral_def n n' e n3 n4 EOF_def)
qed

interpretation rdf: lexer_states rdf_step rdf_rank rdf_good
proof
  fix l st assume "lex_ok l" "items_ok rdf_good l"
  then show "lex_step_ok rdf_good rdf_rank st l (rdf_step st l)"
    by (cases st) (simp_all add: rdf_lexText_ok lexSubject_ok lexObject_ok lexLiteral_ok)
qed

section \<open>Parser\<close>

record nquad =
  Subject :: bytes
  Predicate :: bytes
  ObjectId :: bytes
  ObjectValue :: "bytes option"
  ObjectType :: u8
  NLabel :: bytes

definition rdf_GetUid :: "(bytes \<Rightarrow> u64) \<Rightarrow> bytes \<Rightarrow> u64 go" where
  "rdf_GetUid fp64 xid =
     (if HasPrefix xid ''_uid_:'' then ParseUint0 (drop 6 xid) else Inr (fp64 xid))"

definition ToEdge :: "(bytes \<Rightarrow> u64) \<Rightarrow> nquad \<Rightarrow> edge go" where
  "ToEdge fp64 nq =
     go_bind (rdf_GetUid fp64 (Subject nq)) (\<lambda>sid.
       let out = \<lparr>Entity = sid, Attr = Predicate nq, EValue = None, ValueType = 0, ValueId = 0, ELabel = NLabel nq\<rparr> in
       if 0 < length (ObjectId nq) then
         go_bind (rdf_GetUid fp64 (ObjectId nq)) (\<lambda>oid. Inr (out\<lparr>ValueId := oid\<rparr>))
       else Inr (out\<lparr>EValue := ObjectValue nq, ValueType := ucast (ObjectType nq)\<rparr>))"

definition toUid :: "(bytes \<Rightarrow> u64) \<Rightarrow> bytes \<Rightarrow> (bytes \<times> u64) list \<Rightarrow> u64 go" where
  "toUid fp64 xid newToUid =
     (case map_of newToUid xid of Some uid \<Rightarrow> Inr uid | None \<Rightarrow> rdf_GetUid fp64 xid)"

definition ToEdgeUsing :: "(bytes \<Rightarrow> u64) \<Rightarrow> (bytes \<times> u64) list \<Rightarrow> nquad \<Rightarrow> edge go" where
  "ToEdgeUsing fp64 newToUid nq =
     go_bind (toUid fp64 (Subject nq) newToUid) (\<lambda>uid.
       let out = \<lparr>Entity = uid, Attr = Predicate nq, EValue = None, ValueType = 0, ValueId = 0, ELabel = NLabel nq\<rparr> in
       if length (ObjectId nq) = 0 then
         Inr (out\<lparr>EValue := ObjectValue nq, ValueType := ucast (ObjectType nq)\<rparr>)
       else go_bind (toUid fp64 (ObjectId nq) newToUid) (\<lambda>oid. Inr (out\<lparr>ValueId := oid\<rparr>)))"

definition stripBracketsAndTrim :: "bytes \<Rightarrow> bytes go" where
  "stripBracketsAndTrim v =
     (if v = [] then Inl (Panic ''index out of range'')
      else if hd v \<noteq> CHR ''<'' \<and> last v \<noteq> CHR ''>'' then Inr (Trim_spaces v)
      else if length v < 2 then Inl (Panic ''slice bounds out of range'')
      else Inr (Trim_spaces (butlast (tl v))))"

text \<open>\<open>alnum\<close> is the class of the Unicode letters and digits.\<close>

definition sane :: "(rune \<Rightarrow> bool) \<Rightarrow> bytes \<Rightarrow> bool" where
  "sane alnum s \<longleftrightarrow> length s = 0 \<or> list_ex (\<lambda>(i, r). alnum r) (range_string s)"

definition typeMap :: "(bytes \<times> u8) list" where
  "typeMap =
     [(''xs:string'', StringID), (''xs:dateTime'', DateTimeID), (''xs:date'', DateID),
      (''xs:int'', Int32ID), (''xs:boolean'', BoolID), (''xs:double'', FloatID),
      (''xs:float'', FloatID), (''geo:geojson'', GeoID),
      (''http://www.w3.org/2001/XMLSchema#string'', StringID),
      (''http://www.w3.org/2001/XMLSchema#dateTime'', DateTimeID),
      (''http://www.w3.org/2001/XMLSchema#date'', DateID),
      (''http://www.w3.org/2001/XMLSchema#int'', Int32ID),
      (''http://www.w3.org/2001/XMLSchema#boolean'', BoolID),
      (''http://www.w3.org/2001/XMLSchema#double'', FloatID),
      (''http://www.w3.org/2001/XMLSchema#float'', FloatID)]"

text \<open>The variables of the loop of \<open>Parse\<close>: the N-Quad, \<^verbatim>\<open>oval\<close> and \<^verbatim>\<open>vend\<close>.\<close>

type_synonym rdf_vars = "nquad \<times> bytes \<times> bool"

definition typed_literal :: "'g formats \<Rightarrow> bytes \<Rightarrow> rdf_vars \<Rightarrow> rdf_vars go" where
  "typed_literal c ival s =
     (case s of (rnq, oval, vend) \<Rightarrow>
        if length oval = 0 then Inl (Fatal ''itemObject should be emitted before itemObjectType.'')
        else
          go_bind (stripBracketsAndTrim ival) (\<lambda>v.
            if Trim_spaces v = ''*'' then Inl (Err ''itemObject can't be *'')
            else
              (case map_of typeMap v of
                 Some t \<Rightarrow>
                   go_bind (UnmarshalText c t oval) (\<lambda>p.
                     go_bind (MarshalBinary c p) (\<lambda>b.
                       Inr (rnq\<lparr>ObjectValue := Some b, ObjectType := t\<rparr>, [], vend)))
               | None \<Rightarrow> Inr (rnq, oval @ ''@@'' @ v, vend))))"

definition rdf_item :: "'g formats \<Rightarrow> item \<Rightarrow> rdf_vars \<Rightarrow> rdf_vars go" where
  "rdf_item c i s =
     (case s of (rnq, oval, vend) \<Rightarrow>
        if Typ i = rdf_itemSubject then
          go_bind (stripBracketsAndTrim (Val i)) (\<lambda>v. Inr (rnq\<lparr>Subject := v\<rparr>, oval, vend))
        else if Typ i = rdf_itemPredicate then
          go_bind (stripBracketsAndTrim (Val i)) (\<lambda>v. Inr (rnq\<lparr>Predicate := v\<rparr>, oval, vend))
        else if Typ i = rdf_itemObject then
          go_bind (stripBracketsAndTrim (Val i)) (\<lambda>v. Inr (rnq\<lparr>ObjectId := v\<rparr>, oval, vend))
        else if Typ i = rdf_itemLiteral then
          Inr (rnq, Replace_byte (Val i) (CHR 0x27) (CHR 0x22), vend)
        else if Typ i = rdf_itemLanguage then
          Inr (rnq\<lparr>Predicate := Predicate rnq @ ''.'' @ Val i\<rparr>, oval, vend)
        else if Typ i = rdf_itemObjectType then typed_literal c (Val i) s
        else if Typ i = ItemError then Inl (Err (Val i))
        else if Typ i = rdf_itemValidEnd then Inr (rnq, oval, True)
        else if Typ i = rdf_itemLabel then
          go_bind (stripBracketsAndTrim (Val i)) (\<lambda>v. Inr (rnq\<lparr>NLabel := v\<rparr>, oval, vend))
        else Inr s)"

fun rdf_items_loop :: "'g formats \<Rightarrow> item list \<Rightarrow> rdf_vars \<Rightarrow> rdf_vars go" where
  "rdf_items_loop c [] s = Inr s"
| "rdf_items_loop c (i # is) s = go_bind (rdf_item c i s) (rdf_items_loop c is)"

definition empty_nquad :: nquad where
  "empty_nquad =
     \<lparr>Subject = [], Predicate = [], ObjectId = [], ObjectValue = None, ObjectType = 0, NLabel = []\<rparr>"

text \<open>The checks after the loop.\<close>

definition rdf_check :: "(rune \<Rightarrow> bool) \<Rightarrow> rdf_vars \<Rightarrow> nquad go" where
  "rdf_check alnum s =
     (case s of (rnq0, oval, vend) \<Rightarrow>
        if \<not> vend then Inl (Err ''Invalid end of input.'')
        else
          let rnq = (if 0 < length oval then rnq0\<lparr>ObjectValue := Some oval, ObjectType := 0\<rparr> else rnq0) in
          if length (Subject rnq) = 0 \<or> length (Predicate rnq) = 0 then
            Inl (Err ''Empty required fields in NQuad.'')
          else if length (ObjectId rnq) = 0 \<and> ObjectValue rnq = None then Inl (Err ''No Object in NQuad.'')
          else if \<not> sane alnum (Subject rnq) \<or> \<not> sane alnum (Predicate rnq)
              \<or> \<not> sane alnum (ObjectId rnq) \<or> \<not> sane alnum (NLabel rnq)
          then Inl (Err ''NQuad failed sanity check'')
          else Inr rnq)"

text \<open>
  The parser reads the items while the lexer sends them; as the lexer does not depend on its
  reader, the parser sees the list of all items. The outcome is \<^term>\<open>None\<close> if lexing never ends.
\<close>

definition rdf_Parse :: "'g formats \<Rightarrow> (rune \<Rightarrow> bool) \<Rightarrow> bytes \<Rightarrow> nquad go option" where
  "rdf_Parse c alnum line =
     map_option (\<lambda>res. go_bind res (\<lambda>l.
       go_bind (rdf_items_loop c (Items l) (empty_nquad, [], False)) (rdf_check alnum)))
       (rdf_run (Lexer_Init line))"

section \<open>Parsing ends without a panic\<close>

definition formats_no_panic :: "'g formats \<Rightarrow> bool" where
  "formats_no_panic c \<longleftrightarrow>
     (\<forall>s. no_panic (ParseFloat c s)) \<and> (\<forall>s. no_panic (timeUnmarshalText c s))
     \<and> (\<forall>s. no_panic (timeParseNoZone c s)) \<and> (\<forall>s. no_panic (geojsonUnmarshal c s))
     \<and> (\<forall>t. no_panic (timeMarshalBinary c t)) \<and> (\<forall>g. no_panic (wkbMarshal c g))"

lemma no_panic_parses [simp]: "no_panic (ParseInt32 s)" "no_panic (ParseBool s)" "no_panic (date_Parse s)"
  by (simp_all add: ParseInt32_def ParseBool_def date_Parse_def Let_def)

lemma no_panic_Time: "formats_no_panic c \<Longrightarrow> no_panic (Time_UnmarshalText c s)"
  by (auto simp: formats_no_panic_def Time_UnmarshalText_def no_panic_def split: sum.split go_err.split)

lemma UnmarshalText_no_panic:
  assumes "formats_no_panic c" "map_of typeMap v = Some t"
  shows "no_panic (UnmarshalText c t s)"
proof -
  have "t \<in> set [StringID, DateTimeID, DateID, Int32ID, BoolID, FloatID, GeoID]"
    using assms(2) by (auto simp: typeMap_def split: if_splits)
  then show ?thesis
    using assms(1) no_panic_Time [OF assms(1)]
    by (auto simp: UnmarshalText_def ValueForType_def type_ids formats_no_panic_def)
qed

lemma MarshalBinary_no_panic: "formats_no_panic c \<Longrightarrow> no_panic (MarshalBinary c v)"
  by (cases v) (auto simp: MarshalBinary_def formats_no_panic_def)

lemma strip_no_panic: "2 \<le> length v \<Longrightarrow> no_panic (stripBracketsAndTrim v)"
  by (auto simp: stripBracketsAndTrim_def)

lemma typed_literal_no_panic:
  assumes "formats_no_panic c" "no_panic (stripBracketsAndTrim v)"
  shows "no_panic (typed_literal c v s)"
proof -
  have "no_panic (go_bind (UnmarshalText c t oval) (\<lambda>p. go_bind (MarshalBinary c p) (\<lambda>b. Inr (f b))))"
    if "map_of typeMap u = Some t" for u t oval and f :: "bytes \<Rightarrow> rdf_vars"
    by (intro no_panic_bind UnmarshalText_no_panic [OF assms(1) that] MarshalBinary_no_panic [OF assms(1)])
      simp
  then show ?thesis
    unfolding typed_literal_def
    by (auto intro!: no_panic_bind [OF assms(2)] split: prod.split option.split)
qed

lemma rdf_item_no_panic:
  assumes "formats_no_panic c" "rdf_good i"
  shows "no_panic (rdf_item c i s)"
proof -
  obtain rnq oval vend where s: "s = (rnq, oval, vend)" by (cases s)
  have "no_panic (go_bind (stripBracketsAndTrim (Val i)) (\<lambda>v. Inr (f v)))"
    "no_panic (typed_literal c (Val i) s)"
    if "Typ i \<in> {rdf_itemSubject, rdf_itemPredicate, rdf_itemObject, rdf_itemLabel, rdf_itemObjectType}"
    for f :: "bytes \<Rightarrow> rdf_vars"
    using assms that
    by (auto simp: rdf_good_def intro!: no_panic_bind strip_no_panic typed_literal_no_panic)
  then show ?thesis
    unfolding rdf_item_def s prod.case by simp
qed

lemma rdf_items_no_panic: "formats_no_panic c \<Longrightarrow> list_all rdf_good is \<Longrightarrow> no_panic (rdf_items_loop c is s)"
  by (induction "is" arbitrary: s) (auto simp: rdf_item_no_panic)

lemma rdf_check_no_panic: "no_panic (rdf_check alnum s)"
  by (simp add: rdf_check_def Let_def split: prod.split)

text \<open>
  for every input line the lexer and the parser of N-Quads come to an end, and no index or slice
  is out of range: an N-Quad or an error is returned (or the process ends at the fatal check of
  typed literals), provided that the parsers of floats, times and geometries do not panic.
\<close>

lemma rdf_parse_ends:
  assumes "formats_no_panic c"
  shows "\<exists>res. rdf_Parse c alnum line = Some res \<and> no_panic res"
proof -
  obtain l where "lex_loop rdf_step Rdf_lexText (Lexer_Init line) = Some (Inr l)" "items_ok rdf_good l"
    by (rule rdf.run_ends)
  then show ?thesis
    using assms rdf_check_no_panic
    by (auto simp: rdf_Parse_def rdf_run_def items_ok_def intro!: rdf_items_no_panic)
qed

section \<open>What is printed is read back\<close>

abbreviation rdf_from :: "rdf_state \<Rightarrow> lexer \<Rightarrow> lexer go option" where
  "rdf_from \<equiv> lex_loop rdf_step"

lemma rdf_char_classes:
  "isClosingBracket (of_char y) \<longleftrightarrow> y = CHR ''>''"
  "rdf_isEndLiteral (of_char y) \<longleftrightarrow> y = CHR 0x22 \<or> y = CHR 0x0D \<or> y = CHR 0x0A"
  "of_char y = (0x5C :: int) \<longleftrightarrow> y = CHR 0x5C"
proof -
  have n: "(0x0D :: int) = of_char (CHR 0x0D)" "(0x0A :: int) = of_char (CHR 0x0A)" "(0x5C :: int) = of_char (CHR 0x5C)"
    by simp_all
  show "isClosingBracket (of_char y) \<longleftrightarrow> y = CHR ''>''"
    "rdf_isEndLiteral (of_char y) \<longleftrightarrow> y = CHR 0x22 \<or> y = CHR 0x0D \<or> y = CHR 0x0A"
    "of_char y = (0x5C :: int) \<longleftrightarrow> y = CHR 0x5C"
    by (simp_all only: isClosingBracket_def rdf_isEndLiteral_def n of_char_eq_iff)
qed

lemma rdf_space:
  assumes "drop pos input = CHR '' '' # s"
  shows "rdf_from Rdf_lexText (lex_at input start pos w m d is)
       = rdf_from Rdf_lexText (lex_at input start (Suc pos) (Suc 0) m d is)"
  using assms
  by (subst lex_loop.simps) (simp add: rdf_lexText_def Next_ascii [of _ "CHR '' ''" s] rdf_isSpace_def EOF_def)

definition rdf_iri_at :: "int \<Rightarrow> rdf_state \<times> nat" where
  "rdf_iri_at d =
     (if d = 0 then (Rdf_lexSubject, rdf_itemSubject) else if d = 1 then (Rdf_lexPredicate, rdf_itemPredicate)
      else if d = 2 then (Rdf_lexObject, rdf_itemObject) else (Rdf_lexLabel, rdf_itemLabel))"

lemma rdf_open:
  assumes "drop pos input = CHR ''<'' # s" "start \<le> pos" "0 \<le> d" "d \<le> 3"
  shows "rdf_from Rdf_lexText (lex_at input start pos w m d is)
       = rdf_from (fst (rdf_iri_at d)) (lex_at input pos pos (Suc 0) m d
           (is @ [\<lparr>Typ = rdf_itemText, Val = take (pos - start) (drop start input)\<rparr>]))"
proof -
  have "d = 0 \<or> d = 1 \<or> d = 2 \<or> d = 3" using assms(3,4) by linarith
  then show ?thesis
    using assms(1,2) drop_bound [OF assms(1)]
    by (subst lex_loop.simps)
      (auto simp: rdf_lexText_def Next_ascii [of _ "CHR ''<''" s] rdf_depths Backup_def emit_to_def Emit_ok rdf_iri_at_def)
qed

lemma rdf_iri:
  assumes "drop pos input = CHR ''<'' # u @ CHR ''>'' # s" "ascii u" "CHR ''>'' \<notin> set u" "0 \<le> d" "d \<le> 3"
  shows "rdf_from (fst (rdf_iri_at d)) (lex_at input pos pos w m d is)
       = rdf_from Rdf_lexText (lex_at input (pos + length u + 2) (pos + length u + 2) (Suc 0) m (d + 1)
           (is @ [\<lparr>Typ = snd (rdf_iri_at d), Val = CHR ''<'' # u @ ''>''\<rparr>]))"
proof -
  let ?l = "lex_at input pos (Suc pos) (Suc 0) m (d + 1) is"
  have d: "drop (Suc pos) input = u @ CHR ''>'' # s" by (rule drop_step [OF assms(1)])
  have d2: "drop (Suc pos + length u) input = CHR ''>'' # s" by (rule drop_steps [OF d])
  have a: "AcceptUntil isClosingBracket ?l = lex_at input pos (Suc pos + length u) (Suc 0) m (d + 1) is"
    using assms(2,3) rdf_char_classes(1) [of "CHR ''>''"]
    by (subst AcceptUntil_ascii [of ?l u "CHR ''>''" s]) (auto simp: d ascii_def rdf_char_classes)
  have t: "take (length u + 2) (drop pos input) = CHR ''<'' # u @ ''>''"
    using assms(1) by simp
  have c: "lexUntilClosing t Rdf_lexText ?l
      = Inr (lex_at input (pos + length u + 2) (pos + length u + 2) (Suc 0) m (d + 1)
          (is @ [\<lparr>Typ = t, Val = CHR ''<'' # u @ ''>''\<rparr>]), Some Rdf_lexText)" for t
    using t drop_bound [OF d2] d2
    by (simp add: lexUntilClosing_def a Next_ascii [of _ "CHR ''>''" s] EOF_def emit_to_def Emit_ok)
  have "d = 0 \<or> d = 1 \<or> d = 2 \<or> d = 3" using assms(4,5) by linarith
  then have "rdf_step (fst (rdf_iri_at d)) (lex_at input pos pos w m d is)
      = lexUntilClosing (snd (rdf_iri_at d)) Rdf_lexText ?l"
    using assms(1)
    by (auto simp: rdf_iri_at_def lexSubject_def lexPredicate_def rdf_lexObject_def lexLabel_def
        Next_ascii [of _ "CHR ''<''"] deeper_def)
  then show ?thesis by (subst lex_loop.simps) (simp add: c)
qed


text \<open>An IRI after a space.\<close>

lemma rdf_iri_segment:
  assumes "drop pos input = '' <'' @ u @ CHR ''>'' # s" "ascii u" "CHR ''>'' \<notin> set u" "0 \<le> d" "d \<le> 3"
  shows "rdf_from Rdf_lexText (lex_at input pos pos w m d is)
       = rdf_from Rdf_lexText (lex_at input (pos + length u + 3) (pos + length u + 3) (Suc 0) m (d + 1)
           (is @ [\<lparr>Typ = rdf_itemText, Val = '' ''\<rparr>, \<lparr>Typ = snd (rdf_iri_at d), Val = CHR ''<'' # u @ ''>''\<rparr>]))"
proof -
  have d1: "drop pos input = CHR '' '' # (CHR ''<'' # u @ CHR ''>'' # s)" using assms(1) by simp
  have d: "drop (Suc pos) input = CHR ''<'' # u @ CHR ''>'' # s" by (rule drop_step [OF d1])
  have "take 1 (drop pos input) = '' ''" using d1 by simp
  then show ?thesis
    using rdf_space [OF d1] rdf_open [OF d, of pos] rdf_iri [OF d assms(2-)] assms(4,5)
    by (simp add: numeral_3_eq_3)
qed

lemma rdf_literal_loop:
  assumes "drop pos input = v @ x # s" "\<forall>y \<in> set v. y \<notin> {CHR 0x22, CHR 0x0D, CHR 0x0A, CHR 0x5C}" "ascii v"
  shows "rdf_from Rdf_lexLiteral (lex_at input start pos w m d is)
       = rdf_from Rdf_lexLiteral (lex_at input start (pos + length v) (if v = [] then w else 1) m d is)"
  using assms
proof (induction v arbitrary: pos w)
  case (Cons y v)
  have n: "Next (lex_at input start pos w m d is) = (of_char y, lex_at input start (Suc pos) (Suc 0) m d is)"
    using Cons.prems by (subst Next_ascii [of _ y "v @ x # s"]) (auto simp: ascii_def)
  have "rdf_from Rdf_lexLiteral (lex_at input start pos w m d is)
      = rdf_from Rdf_lexLiteral (lex_at input start (Suc pos) (Suc 0) m d is)"
    using Cons.prems(2) by (subst lex_loop.simps) (simp add: lexLiteral_def n rdf_char_classes)
  also have "\<dots> = rdf_from Rdf_lexLiteral (lex_at input start (Suc pos + length v) (Suc 0) m d is)"
    using Cons.IH [of "Suc pos" 1] Cons.prems drop_step [of pos input y] by (simp add: ascii_def)
  finally show ?case by simp
qed simp

text \<open>A literal after a space, before a space.\<close>

lemma rdf_literal_segment:
  assumes "drop pos input = '' '' @ CHR 0x22 # v @ CHR 0x22 # CHR '' '' # s" "ascii v"
    "\<forall>y \<in> set v. y \<notin> {CHR 0x22, CHR 0x0D, CHR 0x0A, CHR 0x5C}"
  shows "rdf_from Rdf_lexText (lex_at input pos pos w m 2 is)
       = rdf_from Rdf_lexText (lex_at input (pos + length v + 3) (pos + length v + 3) (Suc 0) m 3
           (is @ [\<lparr>Typ = rdf_itemText, Val = '' ''\<rparr>, \<lparr>Typ = rdf_itemLiteral, Val = v\<rparr>]))"
proof -
  let ?is = "is @ [\<lparr>Typ = rdf_itemText, Val = '' ''\<rparr>]"
  have d1: "drop pos input = CHR '' '' # (CHR 0x22 # v @ CHR 0x22 # CHR '' '' # s)" using assms(1) by simp
  have d2: "drop (Suc pos) input = CHR 0x22 # (v @ CHR 0x22 # CHR '' '' # s)" by (rule drop_step [OF d1])
  have d3: "drop (Suc (Suc pos)) input = v @ CHR 0x22 # CHR '' '' # s" by (rule drop_step [OF d2])
  have d4: "drop (Suc (Suc pos) + length v) input = CHR 0x22 # CHR '' '' # s" by (rule drop_steps [OF d3])
  have d5: "drop (Suc (Suc (Suc pos) + length v)) input = CHR '' '' # s" by (rule drop_step [OF d4])
  have "take 1 (drop pos input) = '' ''" using d1 by simp
  then have 1: "rdf_from Rdf_lexText (lex_at input pos (Suc pos) (Suc 0) m 2 is)
      = rdf_from Rdf_lexObject (lex_at input (Suc pos) (Suc pos) (Suc 0) m 2 ?is)"
    using drop_bound [OF d2] d2
    by (subst lex_loop.simps)
      (simp add: rdf_lexText_def Next_ascii [of _ "CHR 0x22"] rdf_depths Backup_def emit_to_def Emit_ok)
  have 2: "\<dots> = rdf_from Rdf_lexLiteral (lex_at input (Suc (Suc pos)) (Suc (Suc pos)) (Suc 0) m 2 ?is)"
    using d2
    by (subst lex_loop.simps) (simp add: rdf_lexObject_def Next_ascii [of _ "CHR 0x22"] Ignore_def)
  have 3: "\<dots> = rdf_from Rdf_lexLiteral (lex_at input (Suc (Suc pos)) (Suc (Suc pos) + length v) (Suc 0) m 2 ?is)"
    by (subst rdf_literal_loop [OF d3 assms(3,2)]) simp
  have 4: "\<dots> = rdf_from Rdf_lexText (lex_at input (pos + length v + 3) (pos + length v + 3) (Suc 0) m 3
      (?is @ [\<lparr>Typ = rdf_itemLiteral, Val = v\<rparr>]))"
    using drop_bound [OF d4] drop_bound [OF d5] d3 d4 d5
    by (subst lex_loop.simps)
      (simp add: lexLiteral_def Next_ascii [of _ "CHR 0x22"] rdf_isEndLiteral_def Backup_def Emit_ok
        Ignore_def deeper_def Peek_def Next_ascii [of _ "CHR '' ''"] numeral_3_eq_3)
  show ?thesis using rdf_space [OF d1] 1 2 3 4 by simp
qed

lemma rdf_end:
  assumes "drop pos input = '' .''" "3 \<le> d"
  shows "\<exists>l. rdf_from Rdf_lexText (lex_at input pos pos w m d is) = Some (Inr l)
    \<and> Items l = is @ [\<lparr>Typ = rdf_itemValidEnd, Val = '' .''\<rparr>, \<lparr>Typ = ItemEOF, Val = []\<rparr>]"
proof -
  have d1: "drop pos input = CHR '' '' # ''.''" using assms(1) by simp
  have d2: "drop (Suc pos) input = CHR ''.'' # []" by (rule drop_step [OF d1])
  have t: "take 2 (drop pos input) = '' .''" using d1 by simp
  show ?thesis
    using drop_bound [OF d2] d2 t assms(2)
    by (subst rdf_space [OF d1], subst lex_loop.simps)
      (simp add: rdf_lexText_def Next_ascii [of _ "CHR ''.''"] rdf_depths EOF_def Emit_ok rdf_lexText_end_def
        emit_to_def)
qed


text \<open>The syntax of N-Quads, for nodes that are IRIs and literals without a type.\<close>

definition print_object :: "nquad \<Rightarrow> bytes" where
  "print_object nq =
     (case ObjectValue nq of
        None \<Rightarrow> '' <'' @ ObjectId nq @ ''>''
      | Some v \<Rightarrow> '' '' @ CHR 0x22 # v @ [CHR 0x22])"

definition print_label :: "nquad \<Rightarrow> bytes" where
  "print_label nq = (if NLabel nq = [] then [] else '' <'' @ NLabel nq @ ''>'')"

definition print_nquad :: "nquad \<Rightarrow> bytes" where
  "print_nquad nq =
     ''<'' @ Subject nq @ ''>'' @ '' <'' @ Predicate nq @ ''>'' @ print_object nq @ print_label nq @ '' .''"

definition iri :: "(rune \<Rightarrow> bool) \<Rightarrow> bytes \<Rightarrow> bool" where
  "iri alnum u \<longleftrightarrow> u \<noteq> [] \<and> ascii u \<and> CHR ''>'' \<notin> set u \<and> hd u \<noteq> CHR '' '' \<and> last u \<noteq> CHR '' '' \<and> sane alnum u"

definition plain_literal :: "bytes \<Rightarrow> bool" where
  "plain_literal v \<longleftrightarrow>
     v \<noteq> [] \<and> ascii v \<and> (\<forall>y \<in> set v. y \<notin> {CHR 0x22, CHR 0x0D, CHR 0x0A, CHR 0x5C, CHR 0x27})"

definition printable :: "(rune \<Rightarrow> bool) \<Rightarrow> nquad \<Rightarrow> bool" where
  "printable alnum nq \<longleftrightarrow>
     iri alnum (Subject nq) \<and> iri alnum (Predicate nq) \<and> (NLabel nq = [] \<or> iri alnum (NLabel nq))
     \<and> ObjectType nq = 0
     \<and> (case ObjectValue nq of None \<Rightarrow> iri alnum (ObjectId nq) | Some v \<Rightarrow> plain_literal v \<and> ObjectId nq = [])"

lemma Trim_spaces_iri: "iri alnum u \<Longrightarrow> Trim_spaces u = u"
proof -
  assume "iri alnum u"
  then have u: "u \<noteq> []" "hd u \<noteq> CHR '' ''" "last u \<noteq> CHR '' ''" by (simp_all add: iri_def)
  have "dropWhile (\<lambda>c. c = CHR '' '') u = u" using u by (cases u) simp_all
  moreover have "dropWhile (\<lambda>c. c = CHR '' '') (rev u) = rev u" using u by (cases u rule: rev_cases) simp_all
  ultimately show ?thesis by (simp add: Trim_spaces_def)
qed

lemma strip_iri: "iri alnum u \<Longrightarrow> stripBracketsAndTrim (CHR ''<'' # u @ ''>'') = Inr u"
  using Trim_spaces_iri [of alnum u] by (auto simp: stripBracketsAndTrim_def)

lemma Replace_literal: "plain_literal v \<Longrightarrow> Replace_byte v (CHR 0x27) (CHR 0x22) = v"
  unfolding Replace_byte_def plain_literal_def by (rule map_idI) auto


text \<open>The items of the object and of the label.\<close>

definition node_items :: "nquad \<Rightarrow> item list" where
  "node_items nq =
     [\<lparr>Typ = rdf_itemText, Val = []\<rparr>,
          \<lparr>Typ = rdf_itemSubject, Val = CHR ''<'' # Subject nq @ ''>''\<rparr>, \<lparr>Typ = rdf_itemText, Val = '' ''\<rparr>,
          \<lparr>Typ = rdf_itemPredicate, Val = CHR ''<'' # Predicate nq @ ''>''\<rparr>]"

definition object_items :: "nquad \<Rightarrow> item list" where
  "object_items nq =
     \<lparr>Typ = rdf_itemText, Val = '' ''\<rparr> #
     (case ObjectValue nq of
        None \<Rightarrow> [\<lparr>Typ = rdf_itemObject, Val = CHR ''<'' # ObjectId nq @ ''>''\<rparr>]
      | Some v \<Rightarrow> [\<lparr>Typ = rdf_itemLiteral, Val = v\<rparr>])"

definition label_items :: "nquad \<Rightarrow> item list" where
  "label_items nq =
     (if NLabel nq = [] then []
      else [\<lparr>Typ = rdf_itemText, Val = '' ''\<rparr>, \<lparr>Typ = rdf_itemLabel, Val = CHR ''<'' # NLabel nq @ ''>''\<rparr>])"

lemma rdf_object_segment:
  assumes "printable alnum nq" "drop pos input = print_object nq @ CHR '' '' # s"
  shows "rdf_from Rdf_lexText (lex_at input pos pos w m 2 is)
       = rdf_from Rdf_lexText (lex_at input (pos + length (print_object nq)) (pos + length (print_object nq)) (Suc 0) m 3
           (is @ object_items nq))"
proof (cases "ObjectValue nq")
  case None
  then have "ascii (ObjectId nq)" "CHR ''>'' \<notin> set (ObjectId nq)"
    using assms(1) by (simp_all add: printable_def iri_def)
  moreover have "drop pos input = '' <'' @ ObjectId nq @ CHR ''>'' # (CHR '' '' # s)"
    using assms(2) None by (simp add: print_object_def)
  ultimately show ?thesis
    using rdf_iri_segment [of pos input "ObjectId nq" "CHR '' '' # s" 2] None
    by (simp add: object_items_def print_object_def rdf_iri_at_def numeral_3_eq_3)
next
  case (Some v)
  then have "ascii v" "\<forall>y \<in> set v. y \<notin> {CHR 0x22, CHR 0x0D, CHR 0x0A, CHR 0x5C}"
    using assms(1) by (simp_all add: printable_def plain_literal_def)
  moreover have "drop pos input = '' '' @ CHR 0x22 # v @ CHR 0x22 # CHR '' '' # s"
    using assms(2) Some by (simp add: print_object_def)
  ultimately show ?thesis
    using rdf_literal_segment [of pos input v s] Some
    by (simp add: object_items_def print_object_def numeral_3_eq_3)
qed

lemma rdf_label_end:
  assumes "printable alnum nq" "drop pos input = print_label nq @ '' .''"
  shows "\<exists>l. rdf_from Rdf_lexText (lex_at input pos pos w m 3 is) = Some (Inr l)
    \<and> Items l = is @ label_items nq @ [\<lparr>Typ = rdf_itemValidEnd, Val = '' .''\<rparr>, \<lparr>Typ = ItemEOF, Val = []\<rparr>]"
proof (cases "NLabel nq = []")
  case True
  then show ?thesis using assms rdf_end [of pos input 3] by (simp add: print_label_def label_items_def)
next
  case False
  then have u: "ascii (NLabel nq)" "CHR ''>'' \<notin> set (NLabel nq)"
    using assms(1) by (simp_all add: printable_def iri_def)
  have d: "drop pos input = '' <'' @ NLabel nq @ CHR ''>'' # '' .''"
    using assms(2) False by (simp add: print_label_def)
  have e: "drop (pos + length (NLabel nq) + 3) input = '' .''"
    using drop_steps [of pos input "'' <'' @ NLabel nq @ ''>''" "'' .''"] d by (simp add: numeral_3_eq_3)
  show ?thesis
    using rdf_iri_segment [OF d u, of 3] False
      rdf_end [OF e, of 4 "Suc 0" "is @ label_items nq" m]
    by (simp add: label_items_def rdf_iri_at_def)
qed


lemma rdf_run_printed:
  assumes "printable alnum nq"
  shows "\<exists>l. rdf_run (Lexer_Init (print_nquad nq)) = Some (Inr l)
    \<and> Items l = node_items nq @ object_items nq @ label_items nq
        @ [\<lparr>Typ = rdf_itemValidEnd, Val = '' .''\<rparr>, \<lparr>Typ = ItemEOF, Val = []\<rparr>]"
proof -
  let ?in = "print_nquad nq" and ?ns = "length (Subject nq)" and ?np = "length (Predicate nq)"
  obtain s where rest: "print_label nq @ '' .'' = CHR '' '' # s"
    by (cases "NLabel nq = []") (auto simp: print_label_def)
  have u: "ascii (Subject nq)" "CHR ''>'' \<notin> set (Subject nq)" "ascii (Predicate nq)" "CHR ''>'' \<notin> set (Predicate nq)"
    using assms by (simp_all add: printable_def iri_def)
  define p1 where "p1 = ?ns + 2"
  define p2 where "p2 = p1 + ?np + 3"
  define p3 where "p3 = p2 + length (print_object nq)"
  have d0: "drop 0 ?in = CHR ''<'' # Subject nq @ CHR ''>'' # ('' <'' @ Predicate nq @ ''>'' @ print_object nq @ print_label nq @ '' .'')"
    by (simp add: print_nquad_def)
  have d1: "drop p1 ?in = '' <'' @ Predicate nq @ CHR ''>'' # (print_object nq @ print_label nq @ '' .'')"
    using drop_steps [of 0 ?in "CHR ''<'' # Subject nq @ ''>''"] d0 by (simp add: p1_def)
  have d2: "drop p2 ?in = print_object nq @ CHR '' '' # s"
    using drop_steps [of p1 ?in "'' <'' @ Predicate nq @ ''>''"] d1 rest by (simp add: p2_def numeral_3_eq_3)
  have d3: "drop p3 ?in = print_label nq @ '' .''"
    using drop_steps [OF d2] rest by (simp add: p3_def)
  have "rdf_run (Lexer_Init ?in) = rdf_from Rdf_lexText (lex_at ?in 0 0 0 0 0 [])"
    by (simp add: rdf_run_def Lexer_Init_def)
  also have "\<dots> = rdf_from Rdf_lexText (lex_at ?in p1 p1 (Suc 0) 0 1 [\<lparr>Typ = rdf_itemText, Val = []\<rparr>,
        \<lparr>Typ = rdf_itemSubject, Val = CHR ''<'' # Subject nq @ ''>''\<rparr>])"
    using rdf_open [OF d0, of 0 0] rdf_iri [OF d0 u(1,2), of 0] by (simp add: rdf_iri_at_def p1_def)
  also have "\<dots> = rdf_from Rdf_lexText (lex_at ?in p2 p2 (Suc 0) 0 2 (node_items nq))"
    using rdf_iri_segment [OF d1 u(3,4), of 1] by (simp add: rdf_iri_at_def p2_def node_items_def)
  also note rdf_object_segment [OF assms d2, folded p3_def]
  finally show ?thesis
    using rdf_label_end [OF assms d3, of "Suc 0" "node_items nq @ object_items nq" 0] by simp
qed

text \<open>The parser on these items.\<close>

lemma rdf_items_append: "rdf_items_loop c (is @ js) s = go_bind (rdf_items_loop c is s) (rdf_items_loop c js)"
  by (induction "is" arbitrary: s) (auto simp: go_bind_def split: sum.split)

lemma rdf_node_items:
  "printable alnum nq \<Longrightarrow> rdf_items_loop c (node_items nq) (r, oval, vend)
     = Inr (r\<lparr>Subject := Subject nq, Predicate := Predicate nq\<rparr>, oval, vend)"
  using strip_iri [of alnum "Subject nq"] strip_iri [of alnum "Predicate nq"]
  by (simp add: node_items_def rdf_item_def rdf_items printable_def)

lemma rdf_object_items:
  "printable alnum nq \<Longrightarrow> rdf_items_loop c (object_items nq) (r, [], vend)
     = Inr (case ObjectValue nq of None \<Rightarrow> (r\<lparr>ObjectId := ObjectId nq\<rparr>, [], vend) | Some v \<Rightarrow> (r, v, vend))"
  using strip_iri [of alnum "ObjectId nq"]
  by (cases "ObjectValue nq") (simp_all add: object_items_def rdf_item_def rdf_items printable_def Replace_literal)

lemma rdf_label_items:
  "printable alnum nq \<Longrightarrow> rdf_items_loop c (label_items nq) (r, oval, vend)
     = Inr (if NLabel nq = [] then r else r\<lparr>NLabel := NLabel nq\<rparr>, oval, vend)"
  using strip_iri [of alnum "NLabel nq"]
  by (cases "NLabel nq = []") (simp_all add: label_items_def rdf_item_def rdf_items printable_def)

lemma rdf_end_items:
  "rdf_items_loop c [\<lparr>Typ = rdf_itemValidEnd, Val = v\<rparr>, \<lparr>Typ = ItemEOF, Val = u\<rparr>] (r, oval, vend) = Inr (r, oval, True)"
  by (simp add: rdf_item_def rdf_items)

lemma rdf_check_printed:
  assumes "printable alnum nq" "r = (if NLabel nq = [] then r0 else r0\<lparr>NLabel := NLabel nq\<rparr>)"
    "r0 = empty_nquad\<lparr>Subject := Subject nq, Predicate := Predicate nq, ObjectId := ObjectId nq\<rparr>"
  shows "rdf_check alnum (r, case ObjectValue nq of None \<Rightarrow> [] | Some v \<Rightarrow> v, True) = Inr nq"
  using assms
  by (cases "ObjectValue nq"; cases "NLabel nq = []"; cases nq)
    (simp_all add: rdf_check_def empty_nquad_def printable_def iri_def plain_literal_def sane_def)



definition ascii_alnum :: "rune \<Rightarrow> bool" where
  "ascii_alnum r \<longleftrightarrow> 48 \<le> r \<and> r \<le> 57 \<or> 65 \<le> r \<and> r \<le> 90 \<or> 97 \<le> r \<and> r \<le> 122"

definition sample_nquad :: nquad where
  "sample_nquad =
     \<lparr>Subject = ''alice'', Predicate = ''full name'', ObjectId = [], ObjectValue = Some ''Alice L.'',
      ObjectType = 0, NLabel = ''g1''\<rparr>"


end
