(* ===== verification/Schema_Parser.thy ===== *)
theory Schema_Parser
  imports Lexer Schema_Info Go_Strconv "HOL-Library.AList"
begin

text \<open>
  The schema file, package \<^verbatim>\<open>schema\<close>: the states of the lexer (\<^verbatim>\<open>state.go\<close>) and the parser that fills
  the tables of the schema (\<^verbatim>\<open>parse.go\<close>). The loops that absorb a name are \<open>AcceptRun\<close> of its class of
  runes, which does not contain the end of the input. The tables after an error are not modelled:
  the caller ends the process. Results: lexing ends without a panic for every input, and the
  declarations of a printed block of scalars are read back.
\<close>

section \<open>Lexer\<close>

definition sch_itemText :: nat where "sch_itemText = 5"
definition sch_itemScalar :: nat where "sch_itemScalar = 6"
definition sch_itemType :: nat where "sch_itemType = 7"
definition sch_itemLeftCurl :: nat where "sch_itemLeftCurl = 8"
definition sch_itemRightCurl :: nat where "sch_itemRightCurl = 9"
definition sch_itemLeftRound :: nat where "sch_itemLeftRound = 11"
definition sch_itemRightRound :: nat where "sch_itemRightRound = 12"
definition sch_itemScalarName :: nat where "sch_itemScalarName = 13"
definition sch_itemScalarType :: nat where "sch_itemScalarType = 14"
definition sch_itemObject :: nat where "sch_itemObject = 15"
definition sch_itemObjectName :: nat where "sch_itemObjectName = 16"
definition sch_itemObjectType :: nat where "sch_itemObjectType = 17"
definition sch_itemCollon :: nat where "sch_itemCollon = 18"
definition sch_itemAt :: nat where "sch_itemAt = 19"
definition sch_itemIndex :: nat where "sch_itemIndex = 20"
definition sch_itemDummy :: nat where "sch_itemDummy = 21"

lemmas sch_items = sch_itemText_def sch_itemScalar_def sch_itemType_def sch_itemLeftCurl_def
  sch_itemRightCurl_def sch_itemLeftRound_def sch_itemRightRound_def sch_itemScalarName_def
  sch_itemScalarType_def sch_itemObject_def sch_itemObjectName_def sch_itemObjectType_def
  sch_itemCollon_def sch_itemAt_def sch_itemIndex_def sch_itemDummy_def ItemEOF_def ItemError_def

definition sch_isNameBegin :: "rune \<Rightarrow> bool" where
  "sch_isNameBegin r \<longleftrightarrow>
     of_char (CHR ''a'') \<le> r \<and> r \<le> of_char (CHR ''z'') \<or> of_char (CHR ''A'') \<le> r \<and> r \<le> of_char (CHR ''Z'')"

definition sch_isNameSuffix :: "rune \<Rightarrow> bool" where
  "sch_isNameSuffix r \<longleftrightarrow>
     sch_isNameBegin r \<or> of_char (CHR ''0'') \<le> r \<and> r \<le> of_char (CHR ''9'')
     \<or> r = of_char (CHR ''_'') \<or> r = of_char (CHR ''.'') \<or> r = of_char (CHR ''-'')"

definition sch_isSpace :: "rune \<Rightarrow> bool" where
  "sch_isSpace r \<longleftrightarrow> r = 0x09 \<or> r = 0x20"

definition sch_isEndOfLine :: "rune \<Rightarrow> bool" where
  "sch_isEndOfLine r \<longleftrightarrow> r = 0x0A \<or> r = 0x0D"

text \<open>
  \<open>lexScalarPair\<close>, \<open>lexScalarPair1\<close> and \<open>lexObjectPair\<close> run through the same phases, the loops
  \<^verbatim>\<open>L\<close> (colon) and \<^verbatim>\<open>L1\<close> (index) of the source.
\<close>

datatype sch_pair = ScalarPair | ScalarPair1 | ObjectPair

datatype sch_state =
  Sch_lexText | Sch_lexStart | Sch_lexScalar | Sch_lexScalarBlock | Sch_lexObject | Sch_lexObjectBlock
| Sch_lexPair sch_pair | Sch_colon sch_pair | Sch_index sch_pair

text \<open>The error of the default cases, which shows the current item.\<close>

definition sch_unexpected :: "lexer \<Rightarrow> sch_state lex_result" where
  "sch_unexpected l =
     go_bind (lexeme l) (\<lambda>s. Inr (Errorf (''Invalid schema. Unexpected '' @ s) l, None))"

definition sch_lexText :: "lexer \<Rightarrow> sch_state lex_result" where
  "sch_lexText l =
     (case Next l of (r, l1) \<Rightarrow>
        if r = EOF then
          go_bind (if Start l1 < Pos l1 then Emit sch_itemText l1 else Inr l1) (emit_to ItemEOF None)
        else if sch_isNameBegin r then Inr (Backup l1, Some Sch_lexStart)
        else if sch_isSpace r \<or> sch_isEndOfLine r then Inr (Ignore l1, Some Sch_lexText)
        else sch_unexpected l1)"

definition sch_lexStart :: "lexer \<Rightarrow> sch_state lex_result" where
  "sch_lexStart l =
     (let l1 = AcceptRun sch_isNameSuffix l in
      go_bind (lexeme l1) (\<lambda>word.
        if word = ''scalar'' then emit_to sch_itemScalar (Some Sch_lexScalar) l1
        else if word = ''type'' then emit_to sch_itemType (Some Sch_lexObject) l1
        else Inr (Errorf ''Invalid schema'' l1, None)))"

definition sch_lexScalar :: "lexer \<Rightarrow> sch_state lex_result" where
  "sch_lexScalar l =
     (case Next l of (r, l1) \<Rightarrow>
        if sch_isNameBegin r then Inr (Backup l1, Some (Sch_lexPair ScalarPair))
        else if r = of_char (CHR ''('') then
          go_bind (Emit sch_itemLeftRound l1) (\<lambda>l2. Inr (snd (Next l2), Some Sch_lexScalarBlock))
        else if sch_isSpace r \<or> sch_isEndOfLine r then Inr (Ignore l1, Some Sch_lexScalar)
        else sch_unexpected l1)"

definition sch_lexScalarBlock :: "lexer \<Rightarrow> sch_state lex_result" where
  "sch_lexScalarBlock l =
     (case Next l of (r, l1) \<Rightarrow>
        if r = of_char (CHR '')'') then emit_to sch_itemRightRound (Some Sch_lexText) l1
        else if sch_isNameBegin r then Inr (Backup l1, Some (Sch_lexPair ScalarPair1))
        else if sch_isSpace r \<or> sch_isEndOfLine r then Inr (Ignore l1, Some Sch_lexScalarBlock)
        else sch_unexpected l1)"

definition sch_lexObject :: "lexer \<Rightarrow> sch_state lex_result" where
  "sch_lexObject l =
     (case Next l of (r, l1) \<Rightarrow>
        if r = of_char (CHR ''}'') then Inr (l1, Some Sch_lexText)
        else if sch_isSpace r \<or> sch_isEndOfLine r then Inr (Ignore l1, Some Sch_lexObject)
        else if sch_isNameBegin r then
          emit_to sch_itemObject (Some Sch_lexObjectBlock) (AcceptRun sch_isNameSuffix l1)
        else sch_unexpected l1)"

definition sch_lexObjectBlock :: "lexer \<Rightarrow> sch_state lex_result" where
  "sch_lexObjectBlock l =
     (case Next l of (r, l1) \<Rightarrow>
        if r = of_char (CHR ''{'') then emit_to sch_itemLeftCurl (Some Sch_lexObjectBlock) l1
        else if sch_isSpace r \<or> sch_isEndOfLine r then Inr (Ignore l1, Some Sch_lexObjectBlock)
        else if r = of_char (CHR ''}'') then emit_to sch_itemRightCurl (Some Sch_lexText) l1
        else if sch_isNameBegin r then Inr (l1, Some (Sch_lexPair ObjectPair))
        else sch_unexpected l1)"

fun pair_name :: "sch_pair \<Rightarrow> nat" where
  "pair_name ObjectPair = sch_itemObjectName"
| "pair_name _ = sch_itemScalarName"

fun pair_type :: "sch_pair \<Rightarrow> nat" where
  "pair_type ObjectPair = sch_itemObjectType"
| "pair_type _ = sch_itemScalarType"

fun pair_typed :: "sch_pair \<Rightarrow> sch_state" where
  "pair_typed ObjectPair = Sch_lexObjectBlock"
| "pair_typed k = Sch_index k"

fun pair_return :: "sch_pair \<Rightarrow> sch_state" where
  "pair_return ScalarPair1 = Sch_lexScalarBlock"
| "pair_return _ = Sch_lexText"

definition sch_lexPair :: "sch_pair \<Rightarrow> lexer \<Rightarrow> sch_state lex_result" where
  "sch_lexPair k l = emit_to (pair_name k) (Some (Sch_colon k)) (AcceptRun sch_isNameSuffix l)"

definition sch_pair_colon :: "sch_pair \<Rightarrow> lexer \<Rightarrow> sch_state lex_result" where
  "sch_pair_colon k l =
     (case Next l of (r, l1) \<Rightarrow>
        if sch_isSpace r \<or> sch_isEndOfLine r then Inr (Ignore l1, Some (Sch_colon k))
        else if r = of_char (CHR '':'') then emit_to sch_itemCollon (Some (Sch_colon k)) l1
        else if sch_isNameBegin r then
          emit_to (pair_type k) (Some (pair_typed k)) (AcceptRun sch_isNameSuffix (Backup l1))
        else sch_unexpected l1)"

definition sch_pair_index :: "sch_pair \<Rightarrow> lexer \<Rightarrow> sch_state lex_result" where
  "sch_pair_index k l =
     (case Next l of (r, l1) \<Rightarrow>
        if sch_isSpace r then Inr (Ignore l1, Some (Sch_index k))
        else if sch_isEndOfLine r then emit_to sch_itemDummy (Some (pair_return k)) l1
        else if r = of_char (CHR ''@'') then
          go_bind (Emit sch_itemAt l1) (\<lambda>l2.
            let l3 = AcceptRun sch_isNameSuffix l2 in
            go_bind (lexeme l3) (\<lambda>word.
              if word = ''index'' then emit_to sch_itemIndex (Some (pair_return k)) l3
              else Inr (Errorf ''Invalid mention of index'' l3, None)))
        else sch_unexpected l1)"

text \<open>The phases of each of the three functions.\<close>

definition lexScalarPair :: "lexer \<Rightarrow> sch_state lex_result" where
  "lexScalarPair = sch_lexPair ScalarPair"

definition lexScalarPair_colon :: "lexer \<Rightarrow> sch_state lex_result" where
  "lexScalarPair_colon = sch_pair_colon ScalarPair"

definition lexScalarPair_index :: "lexer \<Rightarrow> sch_state lex_result" where
  "lexScalarPair_index = sch_pair_index ScalarPair"

definition lexScalarPair1 :: "lexer \<Rightarrow> sch_state lex_result" where
  "lexScalarPair1 = sch_lexPair ScalarPair1"

definition lexScalarPair1_colon :: "lexer \<Rightarrow> sch_state lex_result" where
  "lexScalarPair1_colon = sch_pair_colon ScalarPair1"

definition lexScalarPair1_index :: "lexer \<Rightarrow> sch_state lex_result" where
  "lexScalarPair1_index = sch_pair_index ScalarPair1"

definition lexObjectPair :: "lexer \<Rightarrow> sch_state lex_result" where
  "lexObjectPair = sch_lexPair ObjectPair"

definition lexObjectPair_colon :: "lexer \<Rightarrow> sch_state lex_result" where
  "lexObjectPair_colon = sch_pair_colon ObjectPair"

fun sch_step :: "sch_state \<Rightarrow> lexer \<Rightarrow> sch_state lex_result" where
  "sch_step Sch_lexText = sch_lexText"
| "sch_step Sch_lexStart = sch_lexStart"
| "sch_step Sch_lexScalar = sch_lexScalar"
| "sch_step Sch_lexScalarBlock = sch_lexScalarBlock"
| "sch_step Sch_lexObject = sch_lexObject"
| "sch_step Sch_lexObjectBlock = sch_lexObjectBlock"
| "sch_step (Sch_lexPair k) =
     (case k of ScalarPair \<Rightarrow> lexScalarPair | ScalarPair1 \<Rightarrow> lexScalarPair1 | ObjectPair \<Rightarrow> lexObjectPair)"
| "sch_step (Sch_colon k) =
     (case k of
        ScalarPair \<Rightarrow> lexScalarPair_colon
      | ScalarPair1 \<Rightarrow> lexScalarPair1_colon
      | ObjectPair \<Rightarrow> lexObjectPair_colon)"
| "sch_step (Sch_index k) =
     (case k of
        ScalarPair \<Rightarrow> lexScalarPair_index
      | ScalarPair1 \<Rightarrow> lexScalarPair1_index
      | ObjectPair \<Rightarrow> sch_pair_index ObjectPair)"

lemma sch_step_pairs:
  "sch_step (Sch_lexPair k) = sch_lexPair k" "sch_step (Sch_colon k) = sch_pair_colon k"
  "sch_step (Sch_index k) = sch_pair_index k"
  by (cases k; simp add: lexScalarPair_def lexScalarPair1_def lexObjectPair_def lexScalarPair_colon_def
      lexScalarPair1_colon_def lexObjectPair_colon_def lexScalarPair_index_def lexScalarPair1_index_def)+

declare sch_step.simps(7-9) [simp del] sch_step_pairs [simp]

definition sch_run :: "lexer \<Rightarrow> lexer go option" where
  "sch_run l = lex_loop sch_step Sch_lexText l"

section \<open>The lexer ends\<close>

fun sch_rank :: "sch_state \<Rightarrow> nat" where
  "sch_rank Sch_lexText = 5"
| "sch_rank Sch_lexStart = 4"
| "sch_rank Sch_lexScalar = 3"
| "sch_rank Sch_lexScalarBlock = 3"
| "sch_rank Sch_lexObject = 3"
| "sch_rank Sch_lexObjectBlock = 3"
| "sch_rank (Sch_lexPair k) = 2"
| "sch_rank (Sch_colon k) = 1"
| "sch_rank (Sch_index k) = 0"

lemma sch_classes_EOF [simp]:
  "\<not> sch_isNameBegin EOF" "\<not> sch_isNameSuffix EOF" "\<not> sch_isSpace EOF" "\<not> sch_isEndOfLine EOF"
  by (simp_all add: sch_isNameBegin_def sch_isNameSuffix_def sch_isSpace_def sch_isEndOfLine_def EOF_def)

lemma sch_name_suffix: "sch_isNameBegin r \<Longrightarrow> sch_isNameSuffix r"
  by (simp add: sch_isNameSuffix_def)

lemma sch_unexpected_ok [simp]:
  "lex_ok l \<Longrightarrow> Input l = Input l0 \<Longrightarrow> lex_step_ok any_item sch_rank st l0 (sch_unexpected l)"
  by (auto simp: sch_unexpected_def lexeme_def lex_ok_def intro: lex_step_ok_simps(2) [THEN iffD2])

lemma sch_step_ok:
  assumes "lex_ok l"
  shows "lex_step_ok any_item sch_rank st l (sch_step st l)"
proof -
  obtain r l1 where n: "Next l = (r, l1)" by (cases "Next l")
  note f = Next_ok [OF n assms]
  have e: "Pos l1 \<le> length (Input l1)" using f by (simp add: lex_ok_def)
  note c = AcceptRun_Pos [of l sch_isNameSuffix] AcceptRun_Pos [of l1 sch_isNameSuffix]
  show ?thesis
  proof (cases st)
    case Sch_lexText
    then show ?thesis using f e by (cases "r = EOF") (auto simp: sch_lexText_def n Emit_eq)
  next
    case Sch_lexStart
    have "lexeme (AcceptRun sch_isNameSuffix l) = Inr (take (Pos (AcceptRun sch_isNameSuffix l) - Start l) (drop (Start l) (Input l)))"
      using AcceptRun_ok [OF assms, of sch_isNameSuffix] by (simp add: lexeme_def lex_ok_def)
    then show ?thesis using Sch_lexStart assms c by (auto simp: sch_lexStart_def Let_def)
  next
    case Sch_lexScalar
    obtain r2 l2 where n2: "Next (l1\<lparr>Items := Items l1 @ [emitted sch_itemLeftRound l1], Start := Pos l1\<rparr>) = (r2, l2)"
      by (cases "Next (l1\<lparr>Items := Items l1 @ [emitted sch_itemLeftRound l1], Start := Pos l1\<rparr>)")
    have "lex_ok (l1\<lparr>Items := Items l1 @ [emitted sch_itemLeftRound l1], Start := Pos l1\<rparr>)" using e by simp
    note f2 = Next_ok [OF n2 this]
    show ?thesis using Sch_lexScalar f f2
      by (cases "r = EOF") (auto simp: sch_lexScalar_def n n2 Emit_eq)
  next
    case Sch_lexScalarBlock
    then show ?thesis using f by (cases "r = EOF") (auto simp: sch_lexScalarBlock_def n)
  next
    case Sch_lexObject
    then show ?thesis using f c by (cases "r = EOF") (auto simp: sch_lexObject_def n)
  next
    case Sch_lexObjectBlock
    then show ?thesis using f by (cases "r = EOF") (auto simp: sch_lexObjectBlock_def n)
  next
    case (Sch_lexPair k)
    then show ?thesis using assms c by (auto simp: sch_lexPair_def)
  next
    case (Sch_colon k)
    have "sch_isNameBegin r \<Longrightarrow> Pos l < Pos (AcceptRun sch_isNameSuffix (Backup l1))"
      using AcceptRun_at_least [OF Next_Backup [OF n], of sch_isNameSuffix] f sch_name_suffix [of r]
      by (cases "r = EOF") auto
    then show ?thesis using Sch_colon f by (cases "r = EOF") (auto simp: sch_pair_colon_def n)
  next
    case (Sch_index k)
    let ?l2 = "l1\<lparr>Items := Items l1 @ [emitted sch_itemAt l1], Start := Pos l1\<rparr>"
    let ?l3 = "AcceptRun sch_isNameSuffix ?l2"
    have l2: "lex_ok ?l2" using e by simp
    have l3: "lex_ok ?l3" "Pos l1 \<le> Pos ?l3" using AcceptRun_ok [OF l2] AcceptRun_Pos [of ?l2 sch_isNameSuffix] by simp_all
    have "lexeme ?l3 = Inr (take (Pos ?l3 - Start ?l3) (drop (Start ?l3) (Input ?l3)))"
      using l3 by (simp add: lexeme_def lex_ok_def)
    then show ?thesis using Sch_index f l3 by (cases "r = EOF") (auto simp: sch_pair_index_def n Emit_eq Let_def)
  qed
qed

interpretation sch: lexer_states sch_step sch_rank any_item
  by unfold_locales (rule sch_step_ok)

section \<open>Parser\<close>

definition set_type :: "bytes \<Rightarrow> go_type \<Rightarrow> schema \<Rightarrow> schema" where
  "set_type name t sc = sc\<lparr>str := AList.update name t (str sc)\<rparr>"

definition set_indexed :: "bytes \<Rightarrow> schema \<Rightarrow> schema" where
  "set_indexed name sc =
     (if name \<in> set (indexedFields sc) then sc else sc\<lparr>indexedFields := indexedFields sc @ [name]\<rparr>)"

text \<open>The declaration of a scalar, after its name.\<close>

definition scalar_entry :: "bytes \<Rightarrow> item list \<Rightarrow> schema \<Rightarrow> (item list \<times> schema) go" where
  "scalar_entry name is sc =
     (case recv is of (colon, is1) \<Rightarrow>
        if Typ colon \<noteq> sch_itemCollon then Inl (Err ''Missing collon'')
        else
          (case recv is1 of (typ, is2) \<Rightarrow>
             if Typ typ \<noteq> sch_itemScalarType then Inl (Err ''Missing Type'')
             else
               (case getScalar (Val typ) of
                  None \<Rightarrow> Inl (Err ''Invalid type'')
                | Some t \<Rightarrow>
                    (case recv is2 of (mark, is3) \<Rightarrow>
                       if Typ mark = sch_itemAt then
                         (case recv is3 of (index, is4) \<Rightarrow>
                            if Typ index = sch_itemIndex then Inr (is4, set_indexed name (set_type name t sc))
                            else Inl (Err ''Invalid index specification''))
                       else Inr (is3, set_type name t sc)))))"

lemma scalar_entry_length: "scalar_entry name is sc = Inr (is', sc') \<Longrightarrow> length is' \<le> length is"
  by (auto simp: scalar_entry_def split: prod.splits if_splits option.splits dest!: recv_length)

function processScalarBlock :: "item list \<Rightarrow> schema \<Rightarrow> (item list \<times> schema) go" where
  "processScalarBlock [] sc = Inr ([], sc)"
| "processScalarBlock (i # is) sc =
     (if Typ i = sch_itemRightRound then Inr (is, sc)
      else if Typ i = sch_itemScalarName then
        (case scalar_entry (Val i) is sc of
           Inl e \<Rightarrow> Inl e
         | Inr (is', sc') \<Rightarrow> processScalarBlock is' sc')
      else if Typ i = ItemError then Inl (Err (Val i))
      else processScalarBlock is sc)"
  by pat_completeness auto
termination
  by (relation "measure (\<lambda>(is, sc). length is)") (auto dest: scalar_entry_length)

fun processScalar :: "item list \<Rightarrow> schema \<Rightarrow> (item list \<times> schema) go" where
  "processScalar [] sc = Inr ([], sc)"
| "processScalar (i # is) sc =
     (if Typ i = sch_itemLeftRound then processScalarBlock is sc
      else if Typ i = sch_itemScalarName then scalar_entry (Val i) is sc
      else if Typ i = ItemError then Inl (Err (Val i))
      else processScalar is sc)"

text \<open>
  A field of an object. If its type is a scalar, the field is also declared; the type assertion on an
  earlier declaration panics when that is an object.
\<close>

definition declare_field :: "bytes \<Rightarrow> bytes \<Rightarrow> schema \<Rightarrow> schema go" where
  "declare_field name typ sc =
     (case getScalar typ of
        None \<Rightarrow> Inr sc
      | Some t \<Rightarrow>
          (case map_of (str sc) name of
             None \<Rightarrow> Inr (set_type name t sc)
           | Some (Object ob) \<Rightarrow> Inl (Panic ''interface conversion'')
           | Some (Scalar t1) \<Rightarrow>
               if Some (SName t1) \<noteq> (case t of Scalar s \<Rightarrow> Some (SName s) | Object _ \<Rightarrow> None)
               then Inl (Err ''Same field cant have multiple types'')
               else Inr sc))"

definition object_field ::
  "bytes \<Rightarrow> item list \<Rightarrow> (bytes \<times> bytes) list \<Rightarrow> schema \<Rightarrow> (item list \<times> (bytes \<times> bytes) list \<times> schema) go" where
  "object_field name is fs sc =
     (case recv is of (colon, is1) \<Rightarrow>
        if Typ colon \<noteq> sch_itemCollon then Inl (Err ''Missing collon'')
        else
          (case recv is1 of (typ, is2) \<Rightarrow>
             if Typ typ \<noteq> sch_itemObjectType then Inl (Err ''Missing Type'')
             else
               (case declare_field name (Val typ) sc of
                  Inl e \<Rightarrow> Inl e
                | Inr sc' \<Rightarrow>
                    if map_of fs name \<noteq> None then Inl (Err ''Repeated field in object'')
                    else Inr (is2, AList.update name (Val typ) fs, sc'))))"

lemma object_field_length: "object_field name is fs sc = Inr (is', fs', sc') \<Longrightarrow> length is' \<le> length is"
  by (auto simp: object_field_def split: prod.splits if_splits sum.splits dest!: recv_length)

function object_fields ::
  "item list \<Rightarrow> (bytes \<times> bytes) list \<Rightarrow> schema \<Rightarrow> (item list \<times> (bytes \<times> bytes) list \<times> schema) go" where
  "object_fields [] fs sc = Inr ([], fs, sc)"
| "object_fields (i # is) fs sc =
     (if Typ i = sch_itemRightCurl then Inr (is, fs, sc)
      else if Typ i = sch_itemObjectName then
        (case object_field (Val i) is fs sc of
           Inl e \<Rightarrow> Inl e
         | Inr (is', fs', sc') \<Rightarrow> object_fields is' fs' sc')
      else if Typ i = ItemError then Inl (Err (Val i))
      else object_fields is fs sc)"
  by pat_completeness auto
termination
  by (relation "measure (\<lambda>(is, fs, sc). length is)") (auto dest: object_field_length)

definition processObject :: "item list \<Rightarrow> schema \<Rightarrow> (item list \<times> schema) go" where
  "processObject is sc =
     (case recv is of (obj, is1) \<Rightarrow>
        if Typ obj \<noteq> sch_itemObject then Inl (Err ''Missing object name'')
        else
          (case recv is1 of (curl, is2) \<Rightarrow>
             if Typ curl \<noteq> sch_itemLeftCurl then Inl (Err ''Missing left curly brace'')
             else
               go_bind (object_fields is2 [] sc) (\<lambda>(is3, fs, sc3).
                 if length fs = 0 then Inl (Err ''Object type with no fields'')
                 else Inr (is3, set_type (Val obj) (Object \<lparr>OName = Val obj, Fields = fs\<rparr>) sc3))))"


lemma processScalarBlock_length: "processScalarBlock is sc = Inr (is', sc') \<Longrightarrow> length is' \<le> length is"
proof (induction "is" sc rule: processScalarBlock.induct)
  case (2 i "is" sc)
  then show ?case
    by (force split: if_splits sum.splits dest: scalar_entry_length)
qed simp

lemma processScalar_length: "processScalar is sc = Inr (is', sc') \<Longrightarrow> length is' \<le> length is"
  by (induction "is" sc rule: processScalar.induct)
    (force split: if_splits dest: processScalarBlock_length scalar_entry_length)+

lemma object_fields_length: "object_fields is fs sc = Inr (is', fs', sc') \<Longrightarrow> length is' \<le> length is"
proof (induction "is" fs sc rule: object_fields.induct)
  case (2 i "is" fs sc)
  then show ?case
    by (force split: if_splits sum.splits dest: object_field_length)
qed simp

lemma processObject_length: "processObject is sc = Inr (is', sc') \<Longrightarrow> length is' \<le> length is"
  by (auto simp: processObject_def go_bind_eq_Inr split: prod.splits if_splits
      dest!: recv_length object_fields_length)

function sch_items_loop :: "item list \<Rightarrow> schema \<Rightarrow> schema go" where
  "sch_items_loop [] sc = Inr sc"
| "sch_items_loop (i # is) sc =
     (if Typ i = sch_itemScalar then
        (case processScalar is sc of Inl e \<Rightarrow> Inl e | Inr (is', sc') \<Rightarrow> sch_items_loop is' sc')
      else if Typ i = sch_itemType then
        (case processObject is sc of Inl e \<Rightarrow> Inl e | Inr (is', sc') \<Rightarrow> sch_items_loop is' sc')
      else if Typ i = ItemError then Inl (Err (Val i))
      else sch_items_loop is sc)"
  by pat_completeness auto
termination
  by (relation "measure (\<lambda>(is, sc). length is)") (auto dest: processScalar_length processObject_length)

text \<open>
  The loop after the last item gives each field whose type is an object that type. It changes the
  map that it ranges over: \<open>ks\<close> are the keys in the order in which they are visited, and \<open>ord\<close>
  orders the fields of an object.
\<close>

fun resolve_object :: "(bytes \<times> bytes) list \<Rightarrow> schema \<Rightarrow> schema go" where
  "resolve_object [] sc = Inr sc"
| "resolve_object ((p, q) # fs) sc =
     (case TypeOf sc q of
        None \<Rightarrow> Inl (Err ''Type not defined'')
      | Some t \<Rightarrow> resolve_object fs (if IsScalar t then sc else set_type p t sc))"

fun resolve_keys ::
  "((bytes \<times> bytes) list \<Rightarrow> (bytes \<times> bytes) list) \<Rightarrow> bytes list \<Rightarrow> schema \<Rightarrow> schema go" where
  "resolve_keys ord [] sc = Inr sc"
| "resolve_keys ord (k # ks) sc =
     (case map_of (str sc) k of
        Some (Object ob) \<Rightarrow> go_bind (resolve_object (ord (Fields ob)) sc) (resolve_keys ord ks)
      | _ \<Rightarrow> resolve_keys ord ks sc)"

definition ParseBytes ::
  "(schema \<Rightarrow> bytes list) \<Rightarrow> ((bytes \<times> bytes) list \<Rightarrow> (bytes \<times> bytes) list) \<Rightarrow> bytes \<Rightarrow> schema
    \<Rightarrow> schema go option" where
  "ParseBytes visit ord input sc =
     map_option (\<lambda>res. go_bind res (\<lambda>l.
       go_bind (sch_items_loop (Items l) sc) (\<lambda>sc'. resolve_keys ord (visit sc') sc')))
       (sch_run (Lexer_Init input))"

definition Parse_file ::
  "(bytes \<Rightarrow> bytes go) \<Rightarrow> (schema \<Rightarrow> bytes list) \<Rightarrow> ((bytes \<times> bytes) list \<Rightarrow> (bytes \<times> bytes) list) \<Rightarrow> bytes
    \<Rightarrow> schema \<Rightarrow> schema go option" where
  "Parse_file ReadFile visit ord file sc =
     (case ReadFile file of
        Inl e \<Rightarrow> Some (Inl (Err ''Error reading file''))
      | Inr b \<Rightarrow> ParseBytes visit ord b sc)"

section \<open>Scalars that are printed are read back\<close>

abbreviation sch_from :: "sch_state \<Rightarrow> lexer \<Rightarrow> lexer go option" where
  "sch_from \<equiv> lex_loop sch_step"

lemmas sch_classes = sch_isNameSuffix_def sch_isNameBegin_def sch_isSpace_def sch_isEndOfLine_def

definition name_ok :: "bytes \<Rightarrow> bool" where
  "name_ok n \<longleftrightarrow>
     n \<noteq> [] \<and> ascii n \<and> sch_isNameBegin (of_char (hd n)) \<and> (\<forall>y \<in> set n. sch_isNameSuffix (of_char y))"

lemma sch_absorb:
  assumes "drop pos input = n @ x # s" "ascii n" "\<forall>y \<in> set n. sch_isNameSuffix (of_char y)"
    "of_char x < (0x80 :: int)" "\<not> sch_isNameSuffix (of_char x)"
  shows "AcceptRun sch_isNameSuffix (lex_at input start pos w m d is)
    = lex_at input start (pos + length n) (Suc 0) m d is"
  using assms by (subst AcceptRun_ascii [of _ n x s]) (auto simp: ascii_def)

text \<open>White space is skipped.\<close>

lemma sch_skip:
  assumes "drop pos input = x # s" "x = CHR '' '' \<or> x = CHR 0x0A"
  shows "sch_from Sch_lexScalarBlock (lex_at input start pos w m d is)
      = sch_from Sch_lexScalarBlock (lex_at input (Suc pos) (Suc pos) (Suc 0) m d is)"
  using assms
  by (intro lex_loop_step) (auto simp: sch_lexScalarBlock_def Next_ascii [of _ x s] sch_classes Ignore_def)


lemma name_ok_Cons:
  "name_ok n \<Longrightarrow> \<exists>y ys. n = y # ys \<and> of_char y < (0x80 :: int) \<and> sch_isNameBegin (of_char y)"
  by (cases n) (auto simp: name_ok_def ascii_def)

lemma name_ok_absorb:
  assumes "name_ok n" "drop pos input = n @ x # s" "of_char x < (0x80 :: int)" "\<not> sch_isNameSuffix (of_char x)"
  shows "AcceptRun sch_isNameSuffix (lex_at input start pos w m d is)
      = lex_at input start (pos + length n) (Suc 0) m d is"
    "emit_to t st (lex_at input pos (pos + length n) (Suc 0) m d is)
      = Inr (lex_at input (pos + length n) (pos + length n) (Suc 0) m d (is @ [\<lparr>Typ = t, Val = n\<rparr>]), st)"
proof -
  have "pos + length n < length input" using drop_bound [OF drop_steps [OF assms(2)]] .
  then show "emit_to t st (lex_at input pos (pos + length n) (Suc 0) m d is)
      = Inr (lex_at input (pos + length n) (pos + length n) (Suc 0) m d (is @ [\<lparr>Typ = t, Val = n\<rparr>]), st)"
    using assms(2) by (simp add: emit_to_def Emit_ok)
  show "AcceptRun sch_isNameSuffix (lex_at input start pos w m d is)
      = lex_at input start (pos + length n) (Suc 0) m d is"
    using assms by (intro sch_absorb) (auto simp: name_ok_def)
qed

text \<open>The name, the colon and the type of a declaration.\<close>

lemma sch_name:
  assumes "name_ok n" "drop pos input = n @ CHR '':'' # s"
  shows "sch_from Sch_lexScalarBlock (lex_at input pos pos w m d is)
      = sch_from (Sch_colon ScalarPair1) (lex_at input (pos + length n) (pos + length n) (Suc 0) m d
          (is @ [\<lparr>Typ = sch_itemScalarName, Val = n\<rparr>]))"
proof -
  obtain y ys where y: "n = y # ys" "of_char y < (0x80 :: int)" "sch_isNameBegin (of_char y)"
    using name_ok_Cons [OF assms(1)] by blast
  have "of_char y \<noteq> (of_char (CHR '')'') :: int)" using y(3) by (auto simp: sch_classes)
  then have "sch_from Sch_lexScalarBlock (lex_at input pos pos w m d is)
      = sch_from (Sch_lexPair ScalarPair1) (lex_at input pos pos (Suc 0) m d is)"
    using assms(2) y
    by (intro lex_loop_step) (auto simp: sch_lexScalarBlock_def Next_ascii [of _ y] Backup_def)
  also have "\<dots> = sch_from (Sch_colon ScalarPair1) (lex_at input (pos + length n) (pos + length n) (Suc 0) m d
          (is @ [\<lparr>Typ = sch_itemScalarName, Val = n\<rparr>]))"
    by (intro lex_loop_step) (simp add: sch_lexPair_def sch_classes name_ok_absorb [OF assms])
  finally show ?thesis .
qed

lemma sch_type:
  assumes "name_ok t" "drop pos input = '': '' @ t @ x # s" "of_char x < (0x80 :: int)" "\<not> sch_isNameSuffix (of_char x)"
  shows "sch_from (Sch_colon ScalarPair1) (lex_at input pos pos w m d is)
      = sch_from (Sch_index ScalarPair1) (lex_at input (pos + 2 + length t) (pos + 2 + length t) (Suc 0) m d
          (is @ [\<lparr>Typ = sch_itemCollon, Val = '':''\<rparr>, \<lparr>Typ = sch_itemScalarType, Val = t\<rparr>]))"
proof -
  let ?is = "is @ [\<lparr>Typ = sch_itemCollon, Val = '':''\<rparr>]"
  have d0: "drop pos input = CHR '':'' # CHR '' '' # t @ x # s" using assms(2) by simp
  have d1: "drop (Suc pos) input = CHR '' '' # t @ x # s" by (rule drop_step [OF d0])
  have d2: "drop (Suc (Suc pos)) input = t @ x # s" by (rule drop_step [OF d1])
  obtain y ys where y: "t = y # ys" "of_char y < (0x80 :: int)" "sch_isNameBegin (of_char y)"
    using name_ok_Cons [OF assms(1)] by blast
  have d2': "drop (Suc (Suc pos)) input = y # ys @ x # s" using d2 y(1) by simp
  have y': "\<not> sch_isSpace (of_char y)" "\<not> sch_isEndOfLine (of_char y)" "of_char y \<noteq> (of_char (CHR '':'') :: int)"
    using y(3) by (auto simp: sch_classes)
  have "sch_from (Sch_colon ScalarPair1) (lex_at input pos pos w m d is)
      = sch_from (Sch_colon ScalarPair1) (lex_at input (Suc pos) (Suc pos) (Suc 0) m d ?is)"
    using d0 drop_bound [OF d0]
    by (intro lex_loop_step) (simp add: sch_pair_colon_def Next_ascii [of _ "CHR '':''"] sch_classes emit_to_def Emit_ok)
  also have "\<dots> = sch_from (Sch_colon ScalarPair1) (lex_at input (Suc (Suc pos)) (Suc (Suc pos)) (Suc 0) m d ?is)"
    using d1
    by (intro lex_loop_step) (simp add: sch_pair_colon_def Next_ascii [of _ "CHR '' ''"] sch_classes Ignore_def)
  also have "\<dots> = sch_from (Sch_index ScalarPair1) (lex_at input (pos + 2 + length t) (pos + 2 + length t) (Suc 0) m d
          (?is @ [\<lparr>Typ = sch_itemScalarType, Val = t\<rparr>]))"
    using d2' y(2,3) y'
    by (intro lex_loop_step)
      (simp add: sch_pair_colon_def Next_ascii [of _ y] Backup_def name_ok_absorb [OF assms(1) d2 assms(3,4), simplified])
  finally show ?thesis by simp
qed

text \<open>The end of a declaration: the end of the line, or the mention of an index before it.\<close>

lemma sch_no_index:
  assumes "drop pos input = CHR 0x0A # s"
  shows "sch_from (Sch_index ScalarPair1) (lex_at input pos pos w m d is)
      = sch_from Sch_lexScalarBlock (lex_at input (Suc pos) (Suc pos) (Suc 0) m d
          (is @ [\<lparr>Typ = sch_itemDummy, Val = [CHR 0x0A]\<rparr>]))"
  using assms drop_bound [OF assms]
  by (intro lex_loop_step) (simp add: sch_pair_index_def Next_ascii [of _ "CHR 0x0A"] sch_classes emit_to_def Emit_ok)

lemma sch_with_index:
  assumes "drop pos input = '' @index'' @ CHR 0x0A # s"
  shows "sch_from (Sch_index ScalarPair1) (lex_at input pos pos w m d is)
      = sch_from Sch_lexScalarBlock (lex_at input (pos + 7) (pos + 7) (Suc 0) m d
          (is @ [\<lparr>Typ = sch_itemAt, Val = ''@''\<rparr>, \<lparr>Typ = sch_itemIndex, Val = ''index''\<rparr>]))"
proof -
  have d0: "drop pos input = CHR '' '' # ''@index'' @ CHR 0x0A # s" using assms by simp
  have d1: "drop (Suc pos) input = CHR ''@'' # ''index'' @ CHR 0x0A # s" using drop_step [OF d0] by simp
  have d2: "drop (Suc (Suc pos)) input = ''index'' @ CHR 0x0A # s" by (rule drop_step [OF d1])
  have n: "name_ok ''index''" by (simp add: name_ok_def ascii_def sch_classes)
  have b: "Suc (Suc pos) + 5 < length input" using drop_bound [OF drop_steps [OF d2]] by simp
  have "sch_from (Sch_index ScalarPair1) (lex_at input pos pos w m d is)
      = sch_from (Sch_index ScalarPair1) (lex_at input (Suc pos) (Suc pos) (Suc 0) m d is)"
    using d0
    by (intro lex_loop_step) (simp add: sch_pair_index_def Next_ascii [of _ "CHR '' ''"] sch_classes Ignore_def)
  also have "\<dots> = sch_from Sch_lexScalarBlock (lex_at input (pos + 7) (pos + 7) (Suc 0) m d
          ((is @ [\<lparr>Typ = sch_itemAt, Val = ''@''\<rparr>]) @ [\<lparr>Typ = sch_itemIndex, Val = ''index''\<rparr>]))"
    using d1 d2 b
    by (intro lex_loop_step)
      (simp add: sch_pair_index_def Next_ascii [of _ "CHR ''@''"] sch_classes Emit_ok Let_def lexeme_ok
        name_ok_absorb [OF n d2, simplified sch_classes, simplified])
  finally show ?thesis by simp
qed

definition print_entry :: "bytes \<times> scalar \<times> bool \<Rightarrow> bytes" where
  "print_entry e =
     (case e of (n, t, ix) \<Rightarrow>
        ''  '' @ n @ '': '' @ SName t @ (if ix then '' @index'' else []) @ [CHR 0x0A])"

definition print_scalars :: "(bytes \<times> scalar \<times> bool) list \<Rightarrow> bytes" where
  "print_scalars es = ''scalar ('' @ [CHR 0x0A] @ concat (map print_entry es) @ '')''"

definition entry_items :: "bytes \<times> scalar \<times> bool \<Rightarrow> item list" where
  "entry_items e =
     (case e of (n, t, ix) \<Rightarrow>
        [\<lparr>Typ = sch_itemScalarName, Val = n\<rparr>, \<lparr>Typ = sch_itemCollon, Val = '':''\<rparr>,
         \<lparr>Typ = sch_itemScalarType, Val = SName t\<rparr>]
        @ (if ix then [\<lparr>Typ = sch_itemAt, Val = ''@''\<rparr>, \<lparr>Typ = sch_itemIndex, Val = ''index''\<rparr>]
           else [\<lparr>Typ = sch_itemDummy, Val = [CHR 0x0A]\<rparr>]))"

definition entry_ok :: "bytes \<times> scalar \<times> bool \<Rightarrow> bool" where
  "entry_ok e \<longleftrightarrow> (case e of (n, t, ix) \<Rightarrow> name_ok n \<and> t \<in> snd ` set typeNameMap)"

lemma type_names:
  assumes "t \<in> snd ` set typeNameMap"
  shows "name_ok (SName t)" "getScalar (SName t) = Some (Scalar t)"
proof -
  have "list_all (\<lambda>t. name_ok (SName t) \<and> getScalar (SName t) = Some (Scalar t)) (map snd typeNameMap)"
    by code_simp
  with assms show "name_ok (SName t)" "getScalar (SName t) = Some (Scalar t)"
    by (auto simp: list_all_iff)
qed

lemma sch_entry:
  assumes "entry_ok e" "drop pos input = print_entry e @ s"
  shows "\<exists>p. drop p input = s \<and> pos \<le> p \<and>
    sch_from Sch_lexScalarBlock (lex_at input start pos w m d is)
      = sch_from Sch_lexScalarBlock (lex_at input p p (Suc 0) m d (is @ entry_items e))"
proof -
  obtain n t ix where e: "e = (n, t, ix)" by (cases e)
  have n: "name_ok n" and t: "name_ok (SName t)"
    using assms(1) type_names [of t] by (auto simp: e entry_ok_def)
  let ?r = "(if ix then '' @index'' else []) @ CHR 0x0A # s"
  have d0: "drop pos input = CHR '' '' # CHR '' '' # n @ '': '' @ SName t @ ?r"
    using assms(2) by (simp add: e print_entry_def)
  have d1: "drop (Suc pos) input = CHR '' '' # n @ '': '' @ SName t @ ?r" by (rule drop_step [OF d0])
  have d2: "drop (Suc (Suc pos)) input = n @ CHR '':'' # CHR '' '' # SName t @ ?r" using drop_step [OF d1] by simp
  define q where "q = Suc (Suc pos) + length n"
  have d3: "drop q input = '': '' @ SName t @ ?r" using drop_steps [OF d2] by (simp add: q_def)
  define p where "p = q + 2 + length (SName t)"
  have d4: "drop p input = ?r"
    using drop_steps [of q input "'': '' @ SName t" ?r] d3 by (simp add: p_def)
  have 1: "sch_from Sch_lexScalarBlock (lex_at input start pos w m d is)
      = sch_from (Sch_colon ScalarPair1) (lex_at input q q (Suc 0) m d (is @ [\<lparr>Typ = sch_itemScalarName, Val = n\<rparr>]))"
    using sch_skip [OF d0] sch_skip [OF d1] sch_name [OF n d2] by (simp add: q_def)
  have 2: "\<dots> = sch_from (Sch_index ScalarPair1) (lex_at input p p (Suc 0) m d
      ((is @ [\<lparr>Typ = sch_itemScalarName, Val = n\<rparr>]) @ [\<lparr>Typ = sch_itemCollon, Val = '':''\<rparr>, \<lparr>Typ = sch_itemScalarType, Val = SName t\<rparr>]))"
    using sch_type [OF t, of q input "hd ?r" "tl ?r"] d3 by (auto simp: p_def sch_classes)
  show ?thesis
  proof (cases ix)
    case True
    then have d5: "drop p input = '' @index'' @ CHR 0x0A # s" using d4 by simp
    have d6: "drop (p + 7) input = CHR 0x0A # s" using drop_steps [OF d5] by (simp add: eval_nat_numeral)
    show ?thesis
      using 1 2 sch_with_index [OF d5] sch_skip [OF d6] drop_step [OF d6] True
      by (intro exI [of _ "Suc (p + 7)"]) (simp add: e entry_items_def p_def q_def)
  next
    case False
    then have d5: "drop p input = CHR 0x0A # s" using d4 by simp
    show ?thesis
      using 1 2 sch_no_index [OF d5] drop_step [OF d5] False
      by (intro exI [of _ "Suc p"]) (simp add: e entry_items_def p_def q_def)
  qed
qed

lemma sch_block:
  assumes "list_all entry_ok es" "drop pos input = concat (map print_entry es) @ '')''" "start \<le> pos"
  shows "\<exists>l v. sch_from Sch_lexScalarBlock (lex_at input start pos w m d is) = Some (Inr l)
    \<and> Items l = is @ concat (map entry_items es) @ [\<lparr>Typ = sch_itemRightRound, Val = v\<rparr>, \<lparr>Typ = ItemEOF, Val = []\<rparr>]"
  using assms
proof (induction es arbitrary: start pos w "is")
  case Nil
  then have d: "drop pos input = [CHR '')'']" by simp
  have "length input - pos = 1" using arg_cong [OF d, of length] by simp
  then have e: "length input = Suc pos" by simp
  have "sch_from Sch_lexScalarBlock (lex_at input start pos w m d is)
      = sch_from Sch_lexText (lex_at input (Suc pos) (Suc pos) (Suc 0) m d
         (is @ [\<lparr>Typ = sch_itemRightRound, Val = take (Suc pos - start) (drop start input)\<rparr>]))"
    using d Nil.prems(3) e
    by (intro lex_loop_step) (simp add: sch_lexScalarBlock_def Next_ascii [of _ "CHR '')''"] emit_to_def Emit_ok)
  then show ?case
    using e by (subst (asm) (2) lex_loop.simps) (auto simp: sch_lexText_def Next_def emit_to_def Emit_ok)
next
  case (Cons e es)
  have "entry_ok e" "drop pos input = print_entry e @ (concat (map print_entry es) @ '')'')"
    using Cons.prems by simp_all
  from sch_entry [OF this, of start w "is" d m] obtain p
    where p: "drop p input = concat (map print_entry es) @ '')''"
      "sch_from Sch_lexScalarBlock (lex_at input start pos w m d is)
        = sch_from Sch_lexScalarBlock (lex_at input p p (Suc 0) m d (is @ entry_items e))" by blast
  from Cons.IH [OF _ p(1), of p "Suc 0" "is @ entry_items e"] Cons.prems(1) p(2) show ?case by simp
qed


lemma sch_head:
  assumes "drop p input = ''scalar ('' @ CHR 0x0A # s"
  shows "sch_from Sch_lexText (lex_at input p p w m d is)
    = sch_from Sch_lexScalarBlock (lex_at input (p + 8) (p + 9) (Suc 0) m d
        (is @ [\<lparr>Typ = sch_itemScalar, Val = ''scalar''\<rparr>, \<lparr>Typ = sch_itemLeftRound, Val = ''(''\<rparr>]))"
proof -
  let ?is = "is @ [\<lparr>Typ = sch_itemScalar, Val = ''scalar''\<rparr>]"
  have d0: "drop p input = ''scalar'' @ CHR '' '' # CHR ''('' # CHR 0x0A # s" using assms by simp
  have d0': "drop p input = CHR ''s'' # ''calar ('' @ CHR 0x0A # s" using assms by simp
  have d6: "drop (p + 6) input = CHR '' '' # CHR ''('' # CHR 0x0A # s"
    using drop_steps [OF d0] by (simp add: eval_nat_numeral)
  have d7: "drop (p + 7) input = CHR ''('' # CHR 0x0A # s" using drop_step [OF d6] by (simp add: eval_nat_numeral)
  have d8: "drop (p + 8) input = CHR 0x0A # s" using drop_step [OF d7] by (simp add: eval_nat_numeral)
  have d8': "drop (8 + p) input = CHR 0x0A # s" using d8 by (simp add: add.commute)
  have n: "name_ok ''scalar''" by (simp add: name_ok_def ascii_def sch_classes)
  have "sch_from Sch_lexText (lex_at input p p w m d is) = sch_from Sch_lexStart (lex_at input p p (Suc 0) m d is)"
    using d0' by (intro lex_loop_step) (simp add: sch_lexText_def Next_ascii [of _ "CHR ''s''"] sch_classes Backup_def)
  also have "\<dots> = sch_from Sch_lexScalar (lex_at input (p + 6) (p + 6) (Suc 0) m d ?is)"
    using d0 drop_bound [OF d6]
    by (intro lex_loop_step)
      (simp add: sch_lexStart_def Let_def lexeme_ok name_ok_absorb [OF n d0, simplified sch_classes, simplified])
  also have "\<dots> = sch_from Sch_lexScalar (lex_at input (p + 7) (p + 7) (Suc 0) m d ?is)"
    using d6
    by (intro lex_loop_step) (simp add: sch_lexScalar_def Next_ascii [of _ "CHR '' ''"] sch_classes Ignore_def)
  also have "\<dots> = sch_from Sch_lexScalarBlock (lex_at input (p + 8) (p + 9) (Suc 0) m d
      (?is @ [\<lparr>Typ = sch_itemLeftRound, Val = ''(''\<rparr>]))"
    using d7 d8' drop_bound [OF d7]
    by (intro lex_loop_step)
      (simp add: sch_lexScalar_def Next_ascii [of _ "CHR ''(''"] Next_ascii [of _ "CHR 0x0A"] sch_classes Emit_ok)
  finally show ?thesis by simp
qed

lemma sch_run_printed:
  assumes "list_all entry_ok es"
  shows "\<exists>l v. sch_run (Lexer_Init (print_scalars es)) = Some (Inr l)
    \<and> Items l = [\<lparr>Typ = sch_itemScalar, Val = ''scalar''\<rparr>, \<lparr>Typ = sch_itemLeftRound, Val = ''(''\<rparr>]
        @ concat (map entry_items es) @ [\<lparr>Typ = sch_itemRightRound, Val = v\<rparr>, \<lparr>Typ = ItemEOF, Val = []\<rparr>]"
proof -
  let ?in = "print_scalars es"
  have d: "drop 0 ?in = ''scalar ('' @ CHR 0x0A # concat (map print_entry es) @ '')''"
    "drop 9 ?in = concat (map print_entry es) @ '')''"
    by (simp_all add: print_scalars_def eval_nat_numeral)
  have "sch_run (Lexer_Init ?in) = sch_from Sch_lexText (lex_at ?in 0 0 0 0 0 [])"
    by (simp add: sch_run_def Lexer_Init_def)
  with sch_head [OF d(1)] sch_block [OF assms d(2), of 8 "Suc 0"
      "[\<lparr>Typ = sch_itemScalar, Val = ''scalar''\<rparr>, \<lparr>Typ = sch_itemLeftRound, Val = ''(''\<rparr>]" 0 0] show ?thesis
    by simp
qed


text \<open>The parser on these items.\<close>

definition declare_scalar :: "bytes \<times> scalar \<times> bool \<Rightarrow> schema \<Rightarrow> schema" where
  "declare_scalar e sc =
     (case e of (n, t, ix) \<Rightarrow>
        if ix then set_indexed n (set_type n (Scalar t) sc) else set_type n (Scalar t) sc)"

lemma scalar_entry_printed:
  assumes "entry_ok e"
  shows "scalar_entry (fst e) (tl (entry_items e) @ is) sc = Inr (is, declare_scalar e sc)"
proof -
  obtain n t ix where e: "e = (n, t, ix)" by (cases e)
  have "getScalar (SName t) = Some (Scalar t)" using assms type_names [of t] by (simp add: e entry_ok_def)
  then show ?thesis by (simp add: e entry_items_def scalar_entry_def declare_scalar_def sch_items)
qed

lemma processScalarBlock_printed:
  "list_all entry_ok es \<Longrightarrow>
   processScalarBlock (concat (map entry_items es) @ \<lparr>Typ = sch_itemRightRound, Val = v\<rparr> # is) sc
     = Inr (is, fold declare_scalar es sc)"
proof (induction es arbitrary: sc)
  case Nil
  then show ?case by simp
next
  case (Cons e es)
  let ?r = "concat (map entry_items es) @ \<lparr>Typ = sch_itemRightRound, Val = v\<rparr> # is"
  have "entry_items e = \<lparr>Typ = sch_itemScalarName, Val = fst e\<rparr> # tl (entry_items e)"
    by (cases e) (simp add: entry_items_def)
  then have i: "concat (map entry_items (e # es)) @ \<lparr>Typ = sch_itemRightRound, Val = v\<rparr> # is
      = \<lparr>Typ = sch_itemScalarName, Val = fst e\<rparr> # (tl (entry_items e) @ ?r)"
    by simp
  have "entry_ok e" using Cons.prems by simp
  then show ?case
    unfolding i using Cons by (simp add: scalar_entry_printed sch_items(7,8))
qed

lemma update_new: "k \<notin> fst ` set al \<Longrightarrow> AList.update k v al = al @ [(k, v)]"
  by (induction al) auto

lemma declare_scalar_new:
  assumes "n \<notin> fst ` set (str sc)" "n \<notin> set (indexedFields sc)"
  shows "declare_scalar (n, t, ix) sc
    = sc\<lparr>str := str sc @ [(n, Scalar t)], indexedFields := indexedFields sc @ (if ix then [n] else [])\<rparr>"
  using assms by (cases sc) (simp add: declare_scalar_def set_type_def set_indexed_def update_new)


lemma declare_scalars:
  assumes "distinct (map fst es)" "fst ` set es \<inter> (fst ` set (str sc) \<union> set (indexedFields sc)) = {}"
  shows "fold declare_scalar es sc
    = sc\<lparr>str := str sc @ map (\<lambda>(n, t, ix). (n, Scalar t)) es,
         indexedFields := indexedFields sc @ map fst (filter (\<lambda>(n, t, ix). ix) es)\<rparr>"
  using assms
proof (induction es arbitrary: sc)
  case (Cons e es)
  obtain n t ix where e: "e = (n, t, ix)" by (cases e)
  have d: "declare_scalar (n, t, i) sc
    = sc\<lparr>str := str sc @ [(n, Scalar t)], indexedFields := indexedFields sc @ (if i then [n] else [])\<rparr>" for i
    by (rule declare_scalar_new) (use Cons.prems e in auto)
  have "fst ` set es \<inter> (fst ` set (str (declare_scalar (n, t, ix) sc)) \<union> set (indexedFields (declare_scalar (n, t, ix) sc))) = {}"
    using Cons.prems by (auto simp: d e)
  with Cons.IH [of "declare_scalar (n, t, ix) sc"] Cons.prems(1) show ?case
    by (cases ix) (simp_all add: d e)
qed simp

lemma resolve_scalars:
  "\<forall>(k, t) \<in> set (str sc). IsScalar t \<Longrightarrow> resolve_keys ord ks sc = Inr sc"
proof (induction ks)
  case (Cons k ks)
  moreover have "map_of (str sc) k \<noteq> Some (Object ob)" for ob
    using Cons.prems by (auto simp: IsScalar_def dest!: map_of_SomeD)
  ultimately show ?case by (auto split: option.split go_type.split)
qed simp

text \<open>
  C37: a block of scalar declarations with distinct names, printed with indented lines, is read back:
  the parsed tables hold exactly the declared types, and the fields declared with an index.
\<close>

theorem schema_print_parse:
  assumes "list_all entry_ok es" "distinct (map fst es)"
  shows "ParseBytes visit ord (print_scalars es) schema_init
    = Some (Inr \<lparr>str = map (\<lambda>(n, t, ix). (n, Scalar t)) es,
                  indexedFields = map fst (filter (\<lambda>(n, t, ix). ix) es)\<rparr>)"
proof -
  obtain l v where l: "sch_run (Lexer_Init (print_scalars es)) = Some (Inr l)"
    "Items l = [\<lparr>Typ = sch_itemScalar, Val = ''scalar''\<rparr>, \<lparr>Typ = sch_itemLeftRound, Val = ''(''\<rparr>]
        @ concat (map entry_items es) @ [\<lparr>Typ = sch_itemRightRound, Val = v\<rparr>, \<lparr>Typ = ItemEOF, Val = []\<rparr>]"
    using sch_run_printed [OF assms(1)] by blast
  let ?sc = "\<lparr>str = map (\<lambda>(n, t, ix). (n, Scalar t)) es, indexedFields = map fst (filter (\<lambda>(n, t, ix). ix) es)\<rparr>"
  have "fold declare_scalar es schema_init = ?sc"
    using declare_scalars [OF assms(2), of schema_init] by (simp add: schema_init_def)
  then have "sch_items_loop (Items l) schema_init = Inr ?sc"
    by (simp add: l(2) processScalarBlock_printed [OF assms(1)]) (simp add: sch_items)
  moreover have "resolve_keys ord ks ?sc = Inr ?sc" for ks
    by (rule resolve_scalars) (auto simp: IsScalar_def)
  ultimately show ?thesis by (simp add: ParseBytes_def l(1))
qed

definition sample_scalars :: "(bytes \<times> scalar \<times> bool) list" where
  "sample_scalars = [(''age'', int32Type, True), (''film.name'', stringType, False), (''loc'', geoType, True)]"

theorem schema_print_parse_witness:
  "list_all entry_ok sample_scalars \<and> distinct (map fst sample_scalars)
   \<and> ParseBytes (\<lambda>sc. map fst (str sc)) id (print_scalars sample_scalars) schema_init
     = Some (Inr \<lparr>str = [(''age'', Scalar int32Type), (''film.name'', Scalar stringType), (''loc'', Scalar geoType)],
                   indexedFields = [''age'', ''loc'']\<rparr>)"
proof -
  have "list_all entry_ok sample_scalars" "distinct (map fst sample_scalars)" by code_simp+
  with schema_print_parse [of sample_scalars "\<lambda>sc. map fst (str sc)" id] show ?thesis
    by (simp add: sample_scalars_def)
qed

text \<open>
  Two inputs that the parser does not treat as meant: the name of the first scalar keeps the newline
  before it when its line is not indented, and a scalar field with the name of an object panics.
\<close>

lemma schema_unindented_name:
  "map_option (\<lambda>res. case res of Inr sc \<Rightarrow> map fst (str sc) | Inl e \<Rightarrow> [])
     (ParseBytes (\<lambda>sc. []) id (''scalar ('' @ [CHR 0x0A] @ ''age: int'' @ [CHR 0x0A] @ '')'') schema_init)
   = Some [CHR 0x0A # ''age'']"
  by code_simp

lemma schema_field_panic:
  assumes "map_of (str sc) name = Some (Object ob)" "getScalar typ = Some t"
  shows "object_fields (\<lparr>Typ = sch_itemObjectName, Val = name\<rparr> # \<lparr>Typ = sch_itemCollon, Val = c\<rparr>
      # \<lparr>Typ = sch_itemObjectType, Val = typ\<rparr> # is) fs sc = Inl (Panic ''interface conversion'')"
  using assms by (simp add: object_field_def declare_field_def sch_items)

end
