(* ===== verification/Gql_Lexer.thy ===== *)
theory Gql_Lexer
  imports Lexer
begin

text \<open>
  The lexer of queries and mutations, \<^verbatim>\<open>gql/state.go\<close>. The functions that read one name, argument or
  comment and then return are called by the state that returns them; the others are the states of
  the loop. The loops that absorb a name are \<open>AcceptRun\<close> of its class of runes, which does not
  contain the end of the input. Result: lexing ends without a panic for every input.
\<close>

section \<open>Items and classes of runes\<close>

definition queryMode :: nat where "queryMode = 1"
definition mutationMode :: nat where "mutationMode = 2"
definition fragmentMode :: nat where "fragmentMode = 3"

definition gql_itemText :: nat where "gql_itemText = 5"
definition gql_itemLeftCurl :: nat where "gql_itemLeftCurl = 6"
definition gql_itemRightCurl :: nat where "gql_itemRightCurl = 7"
definition gql_itemComma :: nat where "gql_itemComma = 8"
definition gql_itemEqual :: nat where "gql_itemEqual = 9"
definition gql_itemComment :: nat where "gql_itemComment = 10"
definition gql_itemName :: nat where "gql_itemName = 11"
definition gql_itemOpType :: nat where "gql_itemOpType = 12"
definition gql_itemLeftRound :: nat where "gql_itemLeftRound = 14"
definition gql_itemRightRound :: nat where "gql_itemRightRound = 15"
definition gql_itemArgName :: nat where "gql_itemArgName = 16"
definition gql_itemArgVal :: nat where "gql_itemArgVal = 17"
definition gql_itemMutationOp :: nat where "gql_itemMutationOp = 18"
definition gql_itemMutationContent :: nat where "gql_itemMutationContent = 19"
definition gql_itemFragmentSpread :: nat where "gql_itemFragmentSpread = 20"
definition gql_itemVarName :: nat where "gql_itemVarName = 21"
definition gql_itemVarType :: nat where "gql_itemVarType = 22"
definition gql_itemVarDefault :: nat where "gql_itemVarDefault = 23"
definition gql_itemAlias :: nat where "gql_itemAlias = 24"
definition gql_itemDirectiveName :: nat where "gql_itemDirectiveName = 25"
definition gql_itemFilterAnd :: nat where "gql_itemFilterAnd = 26"
definition gql_itemFilterOr :: nat where "gql_itemFilterOr = 27"
definition gql_itemFilterFunc :: nat where "gql_itemFilterFunc = 28"
definition gql_itemFilterFuncArg :: nat where "gql_itemFilterFuncArg = 29"
definition gql_itemGenerator :: nat where "gql_itemGenerator = 30"
definition gql_itemArgument :: nat where "gql_itemArgument = 31"

lemmas gql_items = gql_itemText_def gql_itemLeftCurl_def gql_itemRightCurl_def gql_itemComma_def
  gql_itemEqual_def gql_itemComment_def gql_itemName_def gql_itemOpType_def gql_itemLeftRound_def
  gql_itemRightRound_def gql_itemArgName_def gql_itemArgVal_def gql_itemMutationOp_def
  gql_itemMutationContent_def gql_itemFragmentSpread_def gql_itemVarName_def gql_itemVarType_def
  gql_itemVarDefault_def gql_itemAlias_def gql_itemDirectiveName_def gql_itemFilterAnd_def
  gql_itemFilterOr_def gql_itemFilterFunc_def gql_itemFilterFuncArg_def gql_itemGenerator_def
  gql_itemArgument_def ItemEOF_def ItemError_def

definition isDollar :: "rune \<Rightarrow> bool" where
  "isDollar r \<longleftrightarrow> r = 0x24"

definition gql_isSpace :: "rune \<Rightarrow> bool" where
  "gql_isSpace r \<longleftrightarrow> r = 0x09 \<or> r = 0x20"

definition gql_isEndOfLine :: "rune \<Rightarrow> bool" where
  "gql_isEndOfLine r \<longleftrightarrow> r = 0x0A \<or> r = 0x0D"

definition gql_isEndLiteral :: "rune \<Rightarrow> bool" where
  "gql_isEndLiteral r \<longleftrightarrow> r = of_char (CHR 0x22) \<or> r = 0x0D \<or> r = 0x0A"

definition gql_isNameBegin :: "rune \<Rightarrow> bool" where
  "gql_isNameBegin r \<longleftrightarrow>
     of_char (CHR ''a'') \<le> r \<and> r \<le> of_char (CHR ''z'') \<or> of_char (CHR ''A'') \<le> r \<and> r \<le> of_char (CHR ''Z'')
     \<or> r = of_char (CHR ''_'')"

definition gql_isNameSuffix :: "rune \<Rightarrow> bool" where
  "gql_isNameSuffix r \<longleftrightarrow>
     gql_isNameBegin r \<or> of_char (CHR ''0'') \<le> r \<and> r \<le> of_char (CHR ''9'')
     \<or> r = of_char (CHR ''.'') \<or> r = of_char (CHR ''-'')"

text \<open>
  \<^verbatim>\<open>bytes.Buffer.WriteRune\<close>: a rune below 128, which the end of the input is too, is written as its low
  byte, the others in UTF-8.
\<close>

definition WriteRune :: "rune \<Rightarrow> bytes" where
  "WriteRune r =
     (if r < 0x80 then [char_of r]
      else if r < 0x800 then [char_of (0xC0 + r div 64), char_of (0x80 + r mod 64)]
      else if r < 0x10000 then
        [char_of (0xE0 + r div 4096), char_of (0x80 + (r div 64) mod 64), char_of (0x80 + r mod 64)]
      else
        [char_of (0xF0 + r div 262144), char_of (0x80 + (r div 4096) mod 64),
         char_of (0x80 + (r div 64) mod 64), char_of (0x80 + r mod 64)])"

section \<open>States\<close>

datatype gql_state =
  Gql_lexText | Gql_lexInside | Gql_lexFilterInside | Gql_lexFilterFuncInside | Gql_lexInsideMutation
| Gql_lexTextMutation | Gql_lexVarInside | Gql_lexArgInside

text \<open>Fail with an error item.\<close>

abbreviation gql_fail :: "bytes \<Rightarrow> lexer \<Rightarrow> gql_state lex_result" where
  "gql_fail msg l \<equiv> Inr (Errorf msg l, None)"

definition gql_text_end :: "nat \<Rightarrow> lexer \<Rightarrow> gql_state lex_result" where
  "gql_text_end t l = go_bind (if Start l < Pos l then Emit t l else Inr l) (emit_to ItemEOF None)"

text \<open>An unknown word is an error only if no operation type came before it, and even then lexing goes on.\<close>

definition lexOperationType :: "lexer \<Rightarrow> gql_state lex_result" where
  "lexOperationType l =
     (let l1 = AcceptRun gql_isNameSuffix l in
      go_bind (lexeme l1) (\<lambda>word.
        if word = ''mutation'' then
          go_bind (Emit gql_itemOpType l1) (\<lambda>l2. Inr (l2\<lparr>Mode := mutationMode\<rparr>, Some Gql_lexText))
        else if word = ''fragment'' then
          go_bind (Emit gql_itemOpType l1) (\<lambda>l2. Inr (l2\<lparr>Mode := fragmentMode\<rparr>, Some Gql_lexText))
        else if word = ''query'' then
          go_bind (Emit gql_itemOpType l1) (\<lambda>l2. Inr (l2\<lparr>Mode := queryMode\<rparr>, Some Gql_lexText))
        else Inr (if Mode l1 = 0 then Errorf ''Invalid operation type'' l1 else l1, Some Gql_lexText)))"

definition gql_lexText :: "lexer \<Rightarrow> gql_state lex_result" where
  "gql_lexText l =
     (case Next l of (r, l1) \<Rightarrow>
        if r = of_char (CHR ''{'') then
          go_bind (Emit gql_itemText (Backup l1)) (\<lambda>l2.
            let l3 = snd (Next l2); l4 = l3\<lparr>Depth := Depth l3 + 1\<rparr> in
            emit_to gql_itemLeftCurl
              (Some (if Mode l4 = mutationMode then Gql_lexInsideMutation else Gql_lexInside)) l4)
        else if r = of_char (CHR ''}'') then gql_fail ''Too many right characters'' l1
        else if r = EOF then gql_text_end gql_itemText l1
        else if r = of_char (CHR ''('') then
          go_bind (Emit gql_itemText (Backup l1)) (\<lambda>l2.
            emit_to gql_itemLeftRound (Some Gql_lexVarInside) (snd (Next l2)))
        else if gql_isNameBegin r then go_bind (Emit gql_itemText (Backup l1)) lexOperationType
        else Inr (l1, Some Gql_lexText))"

definition lexFragmentSpread :: "lexer \<Rightarrow> gql_state lex_result" where
  "lexFragmentSpread l = emit_to gql_itemFragmentSpread (Some Gql_lexInside) (AcceptRun gql_isNameSuffix l)"

definition lexName :: "lexer \<Rightarrow> gql_state lex_result" where
  "lexName l = emit_to gql_itemName (Some Gql_lexInside) (AcceptRun gql_isNameSuffix l)"

definition lexAlias :: "lexer \<Rightarrow> gql_state lex_result" where
  "lexAlias l =
     emit_to gql_itemAlias (Some Gql_lexInside) (AcceptRun gql_isNameSuffix (Ignore (AcceptRun gql_isSpace l)))"

definition lexComment :: "lexer \<Rightarrow> gql_state lex_result" where
  "lexComment l =
     (case Next (AcceptUntil gql_isEndOfLine l) of (r, l1) \<Rightarrow>
        if gql_isEndOfLine r then emit_to gql_itemComment (Some Gql_lexInside) l1
        else gql_text_end gql_itemComment l1)"

text \<open>The buffer holds the name and the rune after it, of which the last byte is cut off.\<close>

definition lexDirective :: "lexer \<Rightarrow> gql_state lex_result" where
  "lexDirective l =
     (case Next l of (r, l1) \<Rightarrow>
        if \<not> gql_isNameBegin r then gql_fail ''Unrecognized character in lexDirective'' l1
        else
          let l2 = AcceptRun gql_isNameSuffix (Backup l1);
              name = take (Pos l2 - Pos l) (drop (Pos l) (Input l2)) in
          (case Peek l2 of (r2, l3) \<Rightarrow>
             go_bind (Emit gql_itemDirectiveName l3) (\<lambda>l4.
               if butlast (name @ WriteRune r2) = ''filter'' then Inr (l4, Some Gql_lexFilterInside)
               else gql_fail ''Unhandled directive'' l4)))"

definition gql_open_round :: "lexer \<Rightarrow> gql_state lex_result" where
  "gql_open_round l =
     go_bind (Emit gql_itemLeftRound l) (\<lambda>l1.
       case Next (Ignore (AcceptRun gql_isSpace l1)) of (k, l2) \<Rightarrow>
         if k = of_char (CHR ''_'') \<or> Depth l2 \<noteq> 1 \<or> Mode l2 = fragmentMode then
           emit_to gql_itemArgument (Some Gql_lexArgInside) (Backup l2)
         else
           go_bind (Emit gql_itemGenerator (Backup l2)) (\<lambda>l3.
             Inr (l3\<lparr>FilterDepth := FilterDepth l3 + 1\<rparr>, Some Gql_lexFilterInside)))"

definition lexInside :: "lexer \<Rightarrow> gql_state lex_result" where
  "lexInside l =
     (case Next l of (r, l1) \<Rightarrow>
        if r = of_char (CHR ''.'') then
          (case Next l1 of (r2, l2) \<Rightarrow>
             if r2 \<noteq> of_char (CHR ''.'') then gql_fail ''Unrecognized character in lexInside'' l2
             else
               (case Next l2 of (r3, l3) \<Rightarrow>
                  if r3 = of_char (CHR ''.'') then lexFragmentSpread l3
                  else gql_fail ''Unrecognized character in lexInside'' l3))
        else if r = of_char (CHR ''}'') then
          emit_to gql_itemRightCurl (Some (if Depth l1 - 1 = 0 then Gql_lexText else Gql_lexInside))
            (l1\<lparr>Depth := Depth l1 - 1\<rparr>)
        else if r = of_char (CHR ''{'') then
          emit_to gql_itemLeftCurl (Some Gql_lexInside) (l1\<lparr>Depth := Depth l1 + 1\<rparr>)
        else if r = EOF then gql_fail ''Unclosed action'' l1
        else if gql_isSpace r \<or> gql_isEndOfLine r \<or> r = of_char (CHR '','') then Inr (Ignore l1, Some Gql_lexInside)
        else if gql_isNameBegin r then lexName l1
        else if r = of_char (CHR ''#'') then lexComment (Backup l1)
        else if r = of_char (CHR ''('') then gql_open_round l1
        else if r = of_char (CHR '':'') then lexAlias l1
        else if r = of_char (CHR ''@'') then lexDirective l1
        else gql_fail ''Unrecognized character in lexInside'' l1)"

definition lexFilterFuncInside :: "lexer \<Rightarrow> gql_state lex_result" where
  "lexFilterFuncInside l =
     (case Next l of (r, l1) \<Rightarrow>
        if gql_isSpace r \<or> r = of_char (CHR '','') then Inr (Ignore l1, Some Gql_lexFilterFuncInside)
        else if r = of_char (CHR ''('') then emit_to gql_itemLeftRound (Some Gql_lexFilterFuncInside) l1
        else if r = of_char (CHR '')'') then emit_to gql_itemRightRound (Some Gql_lexFilterInside) l1
        else if gql_isEndLiteral r then
          go_bind (Emit gql_itemFilterFuncArg (AcceptUntil gql_isEndLiteral (Ignore l1))) (\<lambda>l2.
            Inr (Ignore (snd (Next l2)), Some Gql_lexFilterFuncInside))
        else gql_fail ''Expected quotation mark in lexFilterFuncArgs'' l1)"

text \<open>After the name of a function the spaces at the start of \<open>lexFilterFuncInside\<close> are skipped.\<close>

definition lexFilterFuncName :: "lexer \<Rightarrow> gql_state lex_result" where
  "lexFilterFuncName l =
     go_bind (Emit gql_itemFilterFunc (AcceptRun gql_isNameSuffix l)) (\<lambda>l1.
       Inr (Ignore (AcceptRun gql_isSpace l1), Some Gql_lexFilterFuncInside))"

definition lexFilterInside :: "lexer \<Rightarrow> gql_state lex_result" where
  "lexFilterInside l =
     (case Next l of (r, l1) \<Rightarrow>
        if r = of_char (CHR ''('') then
          go_bind (Emit gql_itemLeftRound l1) (\<lambda>l2.
            Inr (l2\<lparr>FilterDepth := FilterDepth l2 + 1\<rparr>, Some Gql_lexFilterInside))
        else if r = of_char (CHR '')'') then
          if FilterDepth l1 = 0 then gql_fail ''Unexpected right round bracket'' l1
          else
            emit_to gql_itemRightRound (Some (if FilterDepth l1 - 1 = 0 then Gql_lexInside else Gql_lexFilterInside))
              (l1\<lparr>FilterDepth := FilterDepth l1 - 1\<rparr>)
        else if r = EOF then gql_fail ''Unclosed directive'' l1
        else if gql_isSpace r \<or> gql_isEndOfLine r then Inr (Ignore l1, Some Gql_lexFilterInside)
        else if gql_isNameBegin r then lexFilterFuncName l1
        else if r = of_char (CHR ''&'') then
          (case Next l1 of (r2, l2) \<Rightarrow>
             if r2 = of_char (CHR ''&'') then emit_to gql_itemFilterAnd (Some Gql_lexFilterInside) l2
             else gql_fail ''Expected &'' l2)
        else if r = of_char (CHR ''|'') then
          (case Next l1 of (r2, l2) \<Rightarrow>
             if r2 = of_char (CHR ''|'') then emit_to gql_itemFilterOr (Some Gql_lexFilterInside) l2
             else gql_fail ''Expected |'' l2)
        else gql_fail ''Unrecognized character in lexInside'' l1)"

definition lexNameMutation :: "lexer \<Rightarrow> gql_state lex_result" where
  "lexNameMutation l = emit_to gql_itemMutationOp (Some Gql_lexInsideMutation) (AcceptRun gql_isNameBegin l)"

definition lexInsideMutation :: "lexer \<Rightarrow> gql_state lex_result" where
  "lexInsideMutation l =
     (case Next l of (r, l1) \<Rightarrow>
        if r = of_char (CHR ''}'') then
          emit_to gql_itemRightCurl (Some (if Depth l1 - 1 = 0 then Gql_lexText else Gql_lexInsideMutation))
            (l1\<lparr>Depth := Depth l1 - 1\<rparr>)
        else if r = of_char (CHR ''{'') then
          emit_to gql_itemLeftCurl (Some (if 2 \<le> Depth l1 + 1 then Gql_lexTextMutation else Gql_lexInsideMutation))
            (l1\<lparr>Depth := Depth l1 + 1\<rparr>)
        else if r = EOF then gql_fail ''Unclosed mutation action'' l1
        else if gql_isSpace r \<or> gql_isEndOfLine r then Inr (Ignore l1, Some Gql_lexInsideMutation)
        else if gql_isNameBegin r then lexNameMutation l1
        else gql_fail ''Unrecognized character in lexInsideMutation'' l1)"

definition lexTextMutation :: "lexer \<Rightarrow> gql_state lex_result" where
  "lexTextMutation l =
     (case Next l of (r, l1) \<Rightarrow>
        if r = EOF then gql_fail ''Unclosed mutation text'' l1
        else if r = of_char (CHR ''{'') then Inr (l1\<lparr>Depth := Depth l1 + 1\<rparr>, Some Gql_lexTextMutation)
        else if r = of_char (CHR ''}'') \<and> 2 < Depth l1 then Inr (l1\<lparr>Depth := Depth l1 - 1\<rparr>, Some Gql_lexTextMutation)
        else if r \<noteq> of_char (CHR ''}'') then Inr (l1, Some Gql_lexTextMutation)
        else emit_to gql_itemMutationContent (Some Gql_lexInsideMutation) (Backup l1))"

text \<open>A value up to a space, a line end, a comma or a closing bracket.\<close>

definition gql_value :: "nat \<Rightarrow> gql_state \<Rightarrow> lexer \<Rightarrow> gql_state lex_result" where
  "gql_value t st l =
     (let l1 = AcceptUntil (\<lambda>r. gql_isSpace r \<or> gql_isEndOfLine r \<or> r = of_char (CHR '')'') \<or> r = of_char (CHR '',''))
                 (Ignore (AcceptRun gql_isSpace l)) in
      case Peek l1 of (r, l2) \<Rightarrow>
        if r = EOF then
          go_bind (lexeme l2) (\<lambda>s. gql_fail (''Reached lex.EOF while reading value: '' @ s) l2)
        else emit_to t (Some st) l2)"

definition lexVarName :: "lexer \<Rightarrow> gql_state lex_result" where
  "lexVarName l = emit_to gql_itemVarName (Some Gql_lexVarInside) (AcceptRun gql_isNameSuffix l)"

definition lexVarType :: "lexer \<Rightarrow> gql_state lex_result" where
  "lexVarType = gql_value gql_itemVarType Gql_lexVarInside"

definition lexVarDefault :: "lexer \<Rightarrow> gql_state lex_result" where
  "lexVarDefault = gql_value gql_itemVarDefault Gql_lexVarInside"

definition lexArgName :: "lexer \<Rightarrow> gql_state lex_result" where
  "lexArgName l = emit_to gql_itemArgName (Some Gql_lexArgInside) (AcceptRun gql_isNameSuffix l)"

definition lexArgVal :: "lexer \<Rightarrow> gql_state lex_result" where
  "lexArgVal = gql_value gql_itemArgVal Gql_lexArgInside"

definition lexVarInside :: "lexer \<Rightarrow> gql_state lex_result" where
  "lexVarInside l =
     (case Next l of (r, l1) \<Rightarrow>
        if r = EOF then gql_fail ''unclosed argument'' l1
        else if gql_isSpace r \<or> gql_isEndOfLine r then Inr (Ignore l1, Some Gql_lexVarInside)
        else if isDollar r then lexVarName l1
        else if r = of_char (CHR '':'') then lexVarType (Ignore l1)
        else if r = of_char (CHR ''='') then go_bind (Emit gql_itemEqual l1) (\<lambda>l2. lexVarDefault (Ignore l2))
        else if r = of_char (CHR '')'') then emit_to gql_itemRightRound (Some Gql_lexText) l1
        else if r = of_char (CHR '','') then
          go_bind (Emit gql_itemComma l1) (\<lambda>l2. Inr (Ignore l2, Some Gql_lexVarInside))
        else gql_fail ''variable list invalid'' l1)"

definition lexArgInside :: "lexer \<Rightarrow> gql_state lex_result" where
  "lexArgInside l =
     (case Next l of (r, l1) \<Rightarrow>
        if r = EOF then gql_fail ''unclosed argument'' l1
        else if gql_isSpace r \<or> gql_isEndOfLine r \<or> r = of_char (CHR '','') then Inr (Ignore l1, Some Gql_lexArgInside)
        else if gql_isNameBegin r then lexArgName l1
        else if r = of_char (CHR '':'') then lexArgVal (Ignore l1)
        else if r = of_char (CHR '')'') then emit_to gql_itemRightRound (Some Gql_lexInside) l1
        else gql_fail ''argument list invalid'' l1)"

fun gql_step :: "gql_state \<Rightarrow> lexer \<Rightarrow> gql_state lex_result" where
  "gql_step Gql_lexText = gql_lexText"
| "gql_step Gql_lexInside = lexInside"
| "gql_step Gql_lexFilterInside = lexFilterInside"
| "gql_step Gql_lexFilterFuncInside = lexFilterFuncInside"
| "gql_step Gql_lexInsideMutation = lexInsideMutation"
| "gql_step Gql_lexTextMutation = lexTextMutation"
| "gql_step Gql_lexVarInside = lexVarInside"
| "gql_step Gql_lexArgInside = lexArgInside"

definition gql_run :: "lexer \<Rightarrow> lexer go option" where
  "gql_run l = lex_loop gql_step Gql_lexText l"

section \<open>The lexer ends\<close>

fun gql_rank :: "gql_state \<Rightarrow> nat" where
  "gql_rank Gql_lexTextMutation = 1"
| "gql_rank _ = 0"

abbreviation gql_ok :: "gql_state \<Rightarrow> lexer \<Rightarrow> gql_state lex_result \<Rightarrow> bool" where
  "gql_ok \<equiv> lex_step_ok any_item gql_rank"

lemma gql_classes_EOF [simp]:
  "\<not> gql_isNameBegin EOF" "\<not> gql_isNameSuffix EOF" "\<not> gql_isSpace EOF" "\<not> gql_isEndOfLine EOF"
  "\<not> gql_isEndLiteral EOF" "\<not> isDollar EOF"
  by (simp_all add: gql_isNameBegin_def gql_isNameSuffix_def gql_isSpace_def gql_isEndOfLine_def
      gql_isEndLiteral_def isDollar_def EOF_def)

lemma gql_name_suffix: "gql_isNameBegin r \<Longrightarrow> gql_isNameSuffix r"
  by (simp add: gql_isNameSuffix_def)

lemma AcceptRun_after: "Pos l0 < Pos l \<Longrightarrow> Pos l0 < Pos (AcceptRun c l)"
  using AcceptRun_Pos [of l c] by simp

text \<open>The functions called with the scan already ahead of \<open>l0\<close>.\<close>

lemma gql_calls:
  assumes "lex_ok l" "Input l = Input l0" "Pos l0 < Pos l"
  shows "gql_ok st l0 (lexFragmentSpread l)" "gql_ok st l0 (lexName l)" "gql_ok st l0 (lexAlias l)"
    "gql_ok st l0 (lexNameMutation l)" "gql_ok st l0 (lexVarName l)" "gql_ok st l0 (lexArgName l)"
  using assms
  by (auto simp: lexFragmentSpread_def lexName_def lexAlias_def lexNameMutation_def lexVarName_def
      lexArgName_def intro!: AcceptRun_after)

lemma lexeme_eq: "lex_ok l \<Longrightarrow> \<exists>s. lexeme l = Inr s"
  by (simp add: lexeme_def lex_ok_def)

lemma gql_value_ok:
  assumes "lex_ok l" "Input l = Input l0" "Pos l0 < Pos l"
  shows "gql_ok st l0 (gql_value t s l)"
proof -
  define m where "m = AcceptUntil (\<lambda>r. gql_isSpace r \<or> gql_isEndOfLine r \<or> r = of_char (CHR '')'') \<or> r = of_char (CHR '',''))
                 (Ignore (AcceptRun gql_isSpace l))"
  have m: "lex_ok m" "Input m = Input l0" "Pos l0 < Pos m"
    using assms by (auto simp: m_def AcceptUntil_Run intro!: AcceptRun_after)
  obtain r l2 where p: "Peek m = (r, l2)" by (cases "Peek m")
  obtain s where "lexeme l2 = Inr s" using lexeme_eq [OF Peek_ok(1) [OF p m(1)]] by blast
  then show ?thesis
    unfolding gql_value_def Let_def m_def [symmetric] p prod.case
    using m Peek_ok [OF p m(1)] by simp
qed

lemma gql_text_end_ok: "lex_ok l \<Longrightarrow> Input l = Input l0 \<Longrightarrow> gql_ok st l0 (gql_text_end t l)"
  by (simp add: gql_text_end_def Emit_eq) (simp add: lex_ok_def)

lemma emit_keeps:
  assumes "lex_ok l" "Input l = Input l0" "Pos l0 \<le> Pos l"
  obtains l' where "Emit t l = Inr l'" "lex_ok l'" "Input l' = Input l0" "Pos l' = Pos l" "Pos l0 \<le> Pos l'"
    "Start l' = Pos l"
proof
  show "Emit t l = Inr (l\<lparr>Items := Items l @ [emitted t l], Start := Pos l\<rparr>)" by (rule Emit_eq [OF assms(1)])
qed (use assms in \<open>auto simp: lex_ok_def\<close>)

lemma lexComment_ok:
  assumes "lex_ok l" "Next l = (r, l1)" "r = of_char (CHR ''#'')"
  shows "gql_ok st l (lexComment (Backup l1))"
proof -
  define m where "m = AcceptUntil gql_isEndOfLine (Backup l1)"
  note f = Next_ok [OF assms(2,1)]
  have "r \<noteq> EOF" "\<not> gql_isEndOfLine r" using assms(3) by (simp_all add: gql_isEndOfLine_def)
  then have "Pos l1 \<le> Pos m"
    unfolding m_def AcceptUntil_Run by (intro AcceptRun_at_least [OF Next_Backup [OF assms(2)]]) auto
  then have m: "lex_ok m" "Input m = Input l" "Pos l < Pos m"
    using f \<open>r \<noteq> EOF\<close> by (simp_all add: m_def AcceptUntil_Run)
  obtain r2 l2 where n: "Next m = (r2, l2)" by (cases "Next m")
  show ?thesis
    using m Next_ok [OF n m(1)] by (simp add: lexComment_def m_def [symmetric] n gql_text_end_ok)
qed


lemma lexDirective_ok:
  assumes "lex_ok l" "Input l = Input l0" "Pos l0 < Pos l"
  shows "gql_ok st l0 (lexDirective l)"
proof -
  obtain r l1 where n: "Next l = (r, l1)" by (cases "Next l")
  note f = Next_ok [OF n assms(1)]
  let ?m = "AcceptRun gql_isNameSuffix (Backup l1)"
  obtain r2 l2 where p: "Peek ?m = (r2, l2)" by (cases "Peek ?m")
  have m: "lex_ok ?m" "Input ?m = Input l0" "Pos l0 < Pos ?m" using assms f by (auto intro!: AcceptRun_after)
  note g = Peek_ok [OF p m(1)]
  have l2: "lex_ok l2" "Input l2 = Input l0" "Pos l0 \<le> Pos l2" using g m by simp_all
  obtain l3 where "Emit gql_itemDirectiveName l2 = Inr l3" "lex_ok l3" "Input l3 = Input l0" "Pos l3 = Pos l2"
    using emit_keeps [OF l2] by metis
  then show ?thesis
    using assms f g m by (simp add: lexDirective_def n p Let_def)
qed

lemma gql_open_round_ok:
  assumes "lex_ok l" "Input l = Input l0" "Pos l0 < Pos l"
  shows "gql_ok st l0 (gql_open_round l)"
proof -
  obtain l1 where e: "Emit gql_itemLeftRound l = Inr l1" "lex_ok l1" "Input l1 = Input l0" "Pos l1 = Pos l"
    using emit_keeps [OF assms(1,2) less_imp_le [OF assms(3)]] by metis
  let ?m = "Ignore (AcceptRun gql_isSpace l1)"
  obtain k l2 where n: "Next ?m = (k, l2)" by (cases "Next ?m")
  have m: "lex_ok ?m" "Input ?m = Input l0" "Pos l0 < Pos ?m"
    using assms e by (auto intro!: AcceptRun_after)
  note f = Next_ok [OF n m(1)]
  have b: "lex_ok (Backup l2)" "Input (Backup l2) = Input l0" "Pos l0 \<le> Pos (Backup l2)" using f m by simp_all
  obtain l3 where "Emit gql_itemGenerator (Backup l2) = Inr l3" "lex_ok l3" "Input l3 = Input l0" "Pos l3 = Pos (Backup l2)"
    using emit_keeps [OF b] by metis
  then show ?thesis
    using f m b by (simp add: gql_open_round_def e n)
qed

lemma Next_restart:
  "Next l = (r, l') \<Longrightarrow> Next (l\<lparr>Items := a, Start := b\<rparr>) = (r, l'\<lparr>Items := a, Start := b\<rparr>)"
  by (cases l) (auto simp: Next_def split: if_splits prod.splits)

lemma lexOperationType_ok:
  assumes "lex_ok l" "Next l = (r, l1)" "gql_isNameBegin r"
  shows "gql_ok st l (go_bind (Emit gql_itemText (Backup l1)) lexOperationType)"
proof -
  note f = Next_ok [OF assms(2,1)]
  have r: "r \<noteq> EOF" using assms(3) by auto
  define l2 where "l2 = (Backup l1)\<lparr>Items := Items (Backup l1) @ [emitted gql_itemText (Backup l1)], Start := Pos (Backup l1)\<rparr>"
  have e: "Emit gql_itemText (Backup l1) = Inr l2" using f by (simp add: l2_def Emit_eq)
  have "Next l2 = (r, l1\<lparr>Items := Items (Backup l1) @ [emitted gql_itemText (Backup l1)], Start := Pos (Backup l1)\<rparr>)"
    unfolding l2_def by (rule Next_restart [OF Next_Backup [OF assms(2)]])
  from AcceptRun_at_least [OF this r, of gql_isNameSuffix]
  have "Pos l1 \<le> Pos (AcceptRun gql_isNameSuffix l2)" using assms(3) gql_name_suffix by simp
  moreover have l2: "lex_ok l2" "Input l2 = Input l" using f by (simp_all add: l2_def lex_ok_def)
  ultimately have m: "lex_ok (AcceptRun gql_isNameSuffix l2)" "Pos l < Pos (AcceptRun gql_isNameSuffix l2)"
    using f r by simp_all
  obtain s where "lexeme (AcceptRun gql_isNameSuffix l2) = Inr s" using lexeme_eq [OF m(1)] by blast
  moreover have "Pos (AcceptRun gql_isNameSuffix l2) \<le> length (Input l)"
    using m(1) l2 by (simp add: lex_ok_def)
  ultimately show ?thesis
    using m l2 by (simp add: e lexOperationType_def Let_def Emit_eq)
qed


text \<open>Going back, sending the text before and reading the rune again.\<close>

lemma text_before:
  assumes "lex_ok l" "Next l = (r, l1)" "r \<noteq> EOF"
  obtains l2 r3 l3 where "Emit t (Backup l1) = Inr l2" "Next l2 = (r3, l3)" "lex_ok l3" "Input l3 = Input l" "Pos l < Pos l3"
proof -
  note f = Next_ok [OF assms(2,1)]
  define l2 where "l2 = (Backup l1)\<lparr>Items := Items (Backup l1) @ [emitted t (Backup l1)], Start := Pos (Backup l1)\<rparr>"
  have e: "Emit t (Backup l1) = Inr l2" using f by (simp add: l2_def Emit_eq)
  have n: "Next l2 = (r, l1\<lparr>Items := Items (Backup l1) @ [emitted t (Backup l1)], Start := Pos (Backup l1)\<rparr>)"
    unfolding l2_def by (rule Next_restart [OF Next_Backup [OF assms(2)]])
  have "Pos l1 \<le> length (Input l)" using f by (simp add: lex_ok_def)
  with f assms(3) show ?thesis by (intro that [OF e n]) simp_all
qed

lemma gql_lexText_ok:
  assumes "lex_ok l"
  shows "gql_ok st l (gql_lexText l)"
proof -
  obtain r l1 where n: "Next l = (r, l1)" by (cases "Next l")
  note f = Next_ok [OF n assms]
  show ?thesis
  proof (cases "r = EOF")
    case True
    then show ?thesis using f by (simp add: gql_lexText_def n gql_text_end_ok)
  next
    case False
    obtain l2 r3 l3 where "Emit gql_itemText (Backup l1) = Inr l2" "Next l2 = (r3, l3)" "lex_ok l3" "Input l3 = Input l" "Pos l < Pos l3"
      using text_before [OF assms n False] by metis
    then show ?thesis
      using f False lexOperationType_ok [OF assms n] by (simp add: gql_lexText_def n)
  qed
qed

lemma lexInside_ok:
  assumes "lex_ok l"
  shows "gql_ok st l (lexInside l)"
proof -
  obtain r l1 where n: "Next l = (r, l1)" by (cases "Next l")
  obtain r2 l2 where n2: "Next l1 = (r2, l2)" by (cases "Next l1")
  obtain r3 l3 where n3: "Next l2 = (r3, l3)" by (cases "Next l2")
  note f = Next_ok [OF n assms]
  note f2 = Next_ok [OF n2 f(1)]
  note f3 = Next_ok [OF n3 f2(1)]
  show ?thesis
  proof (cases "r = EOF")
    case True
    then show ?thesis using f by (simp add: lexInside_def n)
  next
    case False
    then have "Pos l < Pos l1" "Pos l < Pos l3" using f f2 f3 by simp_all
    then show ?thesis
      using False f f2 f3
      by (simp add: lexInside_def n n2 n3 gql_calls lexDirective_ok gql_open_round_ok lexComment_ok [OF assms n])
  qed
qed

lemma gql_filter_ok:
  assumes "lex_ok l"
  shows "gql_ok st l (lexFilterInside l)" "gql_ok st l (lexFilterFuncInside l)"
proof -
  obtain r l1 where n: "Next l = (r, l1)" by (cases "Next l")
  obtain r2 l2 where n2: "Next l1 = (r2, l2)" by (cases "Next l1")
  note f = Next_ok [OF n assms]
  note f2 = Next_ok [OF n2 f(1)]
  have b: "Pos l1 \<le> length (Input l1)" using f by (simp add: lex_ok_def)
  have a: "lex_ok (AcceptRun c l1)" "Pos l1 \<le> Pos (AcceptRun c l1)" "Pos (AcceptRun c l1) \<le> length (Input l)" for c
    using f b AcceptRun_Pos [of l1 c] AcceptRun_Pos_le [of l1 c] by simp_all
  have name: "gql_ok st l (lexFilterFuncName l1)" if "Pos l < Pos l1"
    using f a that by (simp add: lexFilterFuncName_def Emit_eq AcceptRun_after)
  show "gql_ok st l (lexFilterInside l)"
    using f f2 b name by (cases "r = EOF") (simp_all add: lexFilterInside_def n n2 Emit_eq)
  define m where "m = AcceptUntil gql_isEndLiteral (Ignore l1)"
  have m: "lex_ok m" "Input m = Input l" "Pos l1 \<le> Pos m"
    using f AcceptRun_Pos [of "Ignore l1"] by (simp_all add: m_def AcceptUntil_Run)
  obtain l3 where e: "Emit gql_itemFilterFuncArg m = Inr l3" "lex_ok l3" "Input l3 = Input l" "Pos l3 = Pos m"
    using emit_keeps [OF m(1), of l1] m f by metis
  obtain r4 l4 where n4: "Next l3 = (r4, l4)" by (cases "Next l3")
  show "gql_ok st l (lexFilterFuncInside l)"
    using f m e Next_ok [OF n4 e(2)]
    by (cases "r = EOF") (simp_all add: lexFilterFuncInside_def n n4 m_def [symmetric])
qed

lemma gql_mutation_ok:
  assumes "lex_ok l"
  shows "gql_ok st l (lexInsideMutation l)" "gql_ok Gql_lexTextMutation l (lexTextMutation l)"
proof -
  obtain r l1 where n: "Next l = (r, l1)" by (cases "Next l")
  note f = Next_ok [OF n assms]
  show "gql_ok st l (lexInsideMutation l)" "gql_ok Gql_lexTextMutation l (lexTextMutation l)"
    using f by (cases "r = EOF"; simp add: lexInsideMutation_def lexTextMutation_def n gql_calls)+
qed

lemma gql_args_ok:
  assumes "lex_ok l"
  shows "gql_ok st l (lexVarInside l)" "gql_ok st l (lexArgInside l)"
proof -
  obtain r l1 where n: "Next l = (r, l1)" by (cases "Next l")
  note f = Next_ok [OF n assms]
  have b: "Pos l1 \<le> length (Input l)" using f by (simp add: lex_ok_def)
  have "gql_ok st l (lexVarInside l) \<and> gql_ok st l (lexArgInside l)"
    using f b
    by (cases "r = EOF")
      (simp_all add: lexVarInside_def lexArgInside_def n Emit_eq lexVarType_def lexVarDefault_def lexArgVal_def
        gql_value_ok gql_calls)
  then show "gql_ok st l (lexVarInside l)" "gql_ok st l (lexArgInside l)" by simp_all
qed

interpretation gql: lexer_states gql_step gql_rank any_item
proof
  fix l st assume "lex_ok l"
  then show "gql_ok st l (gql_step st l)"
    by (cases st) (simp_all add: gql_lexText_ok lexInside_ok gql_filter_ok gql_mutation_ok gql_args_ok)
qed

end
