(* ===== verification/Gql_Parser.thy ===== *)
theory Gql_Parser
  imports Gql_Lexer Scalar_Types Go_Strconv "HOL-Library.AList"
begin

text \<open>
  The parser of queries and mutations, \<^verbatim>\<open>gql/parser.go\<close>. The nodes of a query are the cells of a list,
  and a pointer to a node is its position: nodes are shared once fragments are expanded. The items
  that the lexer sends are the list that is still to be read. Decoding JSON is a parameter, and so
  are the floats of \<^verbatim>\<open>strconv\<close>; the arguments of error messages are left out. Results: a filter that
  is printed with the precedences of its operators is read back.
\<close>

section \<open>Data\<close>

record gfunction =
  FAttr :: bytes
  FName :: bytes
  FArgs :: "bytes list"

datatype filter_tree = FilterTree (FOp: bytes) (FFunc: "gfunction option") (FChild: "filter_tree list")

record gquery =
  GUID :: u64
  XID :: bytes
  GAttr :: bytes
  Alias :: bytes
  GFunc :: "gfunction option"
  Args :: "(bytes \<times> bytes) list"
  Children :: "nat list"
  GFilter :: "filter_tree option"
  fragment :: bytes

type_synonym gnodes = "gquery list"

record mutation =
  MSet :: bytes
  MDel :: bytes

record fragmentNode =
  FragName :: bytes
  FragGq :: nat
  Entered :: bool
  Exited :: bool

record varInfo =
  VValue :: bytes
  VType :: bytes

type_synonym fragmentMap = "(bytes \<times> fragmentNode) list"
type_synonym varMap = "(bytes \<times> varInfo) list"

definition empty_gquery :: gquery where
  "empty_gquery =
     \<lparr>GUID = 0, XID = [], GAttr = [], Alias = [], GFunc = None, Args = [], Children = [], GFilter = None,
      fragment = []\<rparr>"

definition alloc :: "gquery \<Rightarrow> gnodes \<Rightarrow> nat \<times> gnodes" where
  "alloc g h = (length h, h @ [g])"

definition upd :: "nat \<Rightarrow> (gquery \<Rightarrow> gquery) \<Rightarrow> gnodes \<Rightarrow> gnodes" where
  "upd a f h = h[a := f (h ! a)]"

definition filterOpPrecedence :: "bytes \<Rightarrow> nat" where
  "filterOpPrecedence op = (if op = ''&'' then 2 else if op = ''|'' then 1 else 0)"

section \<open>Filters\<close>

text \<open>The head of a list is the top of the stack.\<close>

type_synonym filterTreeStack = "filter_tree list"

definition fts_pop :: "filterTreeStack \<Rightarrow> (filter_tree \<times> filterTreeStack) go" where
  "fts_pop s = (case s of [] \<Rightarrow> Inl (Fatal ''Trying to pop empty stack'') | t # ts \<Rightarrow> Inr (t, ts))"

definition fts_peek :: "filterTreeStack \<Rightarrow> filter_tree go" where
  "fts_peek s = (case s of [] \<Rightarrow> Inl (Fatal ''Trying to peek empty stack'') | t # ts \<Rightarrow> Inr t)"

definition evalStack :: "filterTreeStack \<Rightarrow> filterTreeStack \<Rightarrow> (filterTreeStack \<times> filterTreeStack) go" where
  "evalStack opStack valueStack =
     go_bind (fts_pop opStack) (\<lambda>(topOp, ops).
       go_bind (fts_pop valueStack) (\<lambda>(topVal1, vals1).
         go_bind (fts_pop vals1) (\<lambda>(topVal2, vals2).
           Inr (ops, FilterTree (FOp topOp) (FFunc topOp) [topVal2, topVal1] # vals2))))"

lemma evalStack_length: "evalStack ops vals = Inr (ops', vals') \<Longrightarrow> length ops' < length ops"
  by (auto simp: evalStack_def fts_pop_def go_bind_eq_Inr split: list.splits)

text \<open>The loops that evaluate the stack while its top operator satisfies a condition.\<close>

function eval_while ::
  "(bytes \<Rightarrow> bool) \<Rightarrow> filterTreeStack \<Rightarrow> filterTreeStack \<Rightarrow> (filterTreeStack \<times> filterTreeStack) go" where
  "eval_while c [] vals = Inr ([], vals)"
| "eval_while c (topOp # ops) vals =
     (if \<not> c (FOp topOp) then Inr (topOp # ops, vals)
      else
        (case evalStack (topOp # ops) vals of
           Inl e \<Rightarrow> Inl e
         | Inr (ops', vals') \<Rightarrow> eval_while c ops' vals'))"
  by pat_completeness auto
termination
  by (relation "measure (\<lambda>(c, ops, vals). length ops)") (auto dest: evalStack_length)

text \<open>
  The arguments of a function up to the closing bracket: whether it was found, the items after it and
  the function. The first argument that is not empty is the attribute.
\<close>

fun func_args :: "item list \<Rightarrow> gfunction \<Rightarrow> (bool \<times> item list \<times> gfunction) go" where
  "func_args [] f = Inr (False, [], f)"
| "func_args (i # is) f =
     (if Typ i = gql_itemRightRound then Inr (True, is, f)
      else if Typ i \<noteq> gql_itemFilterFuncArg then Inl (Err ''Expected arg after func'')
      else func_args is
        (if length (FAttr f) = 0 then f\<lparr>FAttr := Val i\<rparr> else f\<lparr>FArgs := FArgs f @ [Val i]\<rparr>))"

lemma func_args_length: "func_args is f = Inr (b, is', f') \<Longrightarrow> length is' \<le> length is"
  by (induction "is" f rule: func_args.induct) (auto split: if_splits)

text \<open>A generator function: the last one before the closing bracket.\<close>

function parseFunction_loop :: "item list \<Rightarrow> gfunction option \<Rightarrow> (item list \<times> gfunction option) go" where
  "parseFunction_loop [] g = Inr ([], g)"
| "parseFunction_loop (i # is) g =
     (if Typ i = gql_itemFilterFunc then
        (case recv is of (p, is1) \<Rightarrow>
           if Typ p \<noteq> gql_itemLeftRound then Inl (Err ''Expected ( after func name'')
           else
             (case func_args is1 \<lparr>FAttr = [], FName = Val i, FArgs = []\<rparr> of
                Inl e \<Rightarrow> Inl e
              | Inr (b, is2, f) \<Rightarrow> parseFunction_loop is2 (Some f)))
      else if Typ i = gql_itemRightRound then Inr (is, g)
      else Inl (Err ''Expected a function''))"
  by pat_completeness auto
termination
  by (relation "measure (\<lambda>(is, g). length is)") (auto dest!: func_args_length recv_length dest: sym)

definition parseFunction :: "item list \<Rightarrow> (item list \<times> gfunction option) go" where
  "parseFunction is = parseFunction_loop is None"

text \<open>
  The loop of \<open>parseFilter\<close> over the items, with the two stacks. Items of other types, errors of the
  lexer included, are skipped.
\<close>

function parseFilter_loop ::
  "item list \<Rightarrow> filterTreeStack \<Rightarrow> filterTreeStack \<Rightarrow> (item list \<times> filterTreeStack \<times> filterTreeStack) go" where
  "parseFilter_loop [] opStack valueStack = Inr ([], opStack, valueStack)"
| "parseFilter_loop (i # is) opStack valueStack =
     (if Typ i = gql_itemFilterFunc then
        (case recv is of (p, is1) \<Rightarrow>
           if Typ p \<noteq> gql_itemLeftRound then Inl (Err ''Expected ( after func name'')
           else
             (case func_args is1 \<lparr>FAttr = [], FName = Val i, FArgs = []\<rparr> of
                Inl e \<Rightarrow> Inl e
              | Inr (terminated, is2, f) \<Rightarrow>
                  if \<not> terminated then Inl (Err ''Expected ) to terminate func definition'')
                  else parseFilter_loop is2 opStack (FilterTree [] (Some f) [] # valueStack)))
      else if Typ i = gql_itemLeftRound then
        parseFilter_loop is (FilterTree ''('' None [] # opStack) valueStack
      else if Typ i = gql_itemRightRound then
        (case eval_while (\<lambda>op. op \<noteq> ''('') opStack valueStack of
           Inl e \<Rightarrow> Inl e
         | Inr (ops, vals) \<Rightarrow>
             (case fts_pop ops of
                Inl e \<Rightarrow> Inl e
              | Inr (_, ops') \<Rightarrow>
                  if ops' = [] then Inr (is, ops', vals) else parseFilter_loop is ops' vals))
      else if Typ i = gql_itemFilterAnd \<or> Typ i = gql_itemFilterOr then
        (let op = (if Typ i = gql_itemFilterOr then ''|'' else ''&''); opPred = filterOpPrecedence op in
         case assertTruef (0 < opPred) ''Expected opPred > 0'' of
           Inl e \<Rightarrow> Inl e
         | Inr _ \<Rightarrow>
             (case eval_while (\<lambda>top. opPred \<le> filterOpPrecedence top) opStack valueStack of
                Inl e \<Rightarrow> Inl e
              | Inr (ops, vals) \<Rightarrow> parseFilter_loop is (FilterTree op None [] # ops) vals))
      else parseFilter_loop is opStack valueStack)"
  by pat_completeness auto
termination
  by (relation "measure (\<lambda>(is, ops, vals). length is)") (auto dest!: func_args_length recv_length dest: sym)

definition parseFilter :: "item list \<Rightarrow> (item list \<times> filter_tree option) go" where
  "parseFilter is =
     (case recv is of (i, is1) \<Rightarrow>
        if Typ i \<noteq> gql_itemLeftRound then Inl (Err ''Expected ( after filter directive'')
        else
          go_bind (parseFilter_loop is1 [FilterTree ''('' None []] []) (\<lambda>(is2, opStack, valueStack).
            go_bind (assertTruef (opStack = []) ''Op stack should be empty when we exit'') (\<lambda>_.
              if valueStack = [] then Inr (is2, None)
              else if length valueStack \<noteq> 1 then Inl (Err ''Expected one item in value stack'')
              else go_bind (fts_pop valueStack) (\<lambda>(t, _). Inr (is2, Some t)))))"

section \<open>Queries\<close>

function parseArguments :: "item list \<Rightarrow> (bytes \<times> bytes) list \<Rightarrow> (item list \<times> (bytes \<times> bytes) list) go" where
  "parseArguments is result =
     (case recv is of (k, is1) \<Rightarrow>
        if Typ k = gql_itemArgName then
          (case recv is1 of (v, is2) \<Rightarrow>
             if Typ v \<noteq> gql_itemArgVal then Inl (Err ''Expecting argument value.'')
             else parseArguments is2 (result @ [(Val k, Val v)]))
        else if Typ k = gql_itemRightRound then Inr (is1, result)
        else Inl (Err ''Expecting argument name.''))"
  by pat_completeness auto
termination
proof (relation "measure (\<lambda>(is, r). length is)", goal_cases)
  case (2 "is" result k is1 v is2)
  then have "is \<noteq> []" by (auto simp: gql_items)
  then have "length is1 < length is" using 2 by (cases "is") auto
  with 2 recv_length [of is1] show ?case by (auto dest: sym)
qed simp

declare parseArguments.simps [simp del]

lemma parseArguments_length: "parseArguments is r = Inr (is', r') \<Longrightarrow> length is' \<le> length is"
proof (induction "is" r rule: parseArguments.induct)
  case (1 "is" r)
  obtain k is1 where k: "recv is = (k, is1)" by (cases "recv is")
  obtain v is2 where v: "recv is1 = (v, is2)" by (cases "recv is1")
  show ?case
    using 1 k v recv_length [OF k] recv_length [OF v]
    by (fastforce simp: parseArguments.simps [of "is" r] split: if_splits)
qed

text \<open>The root: a generator function, or the arguments that name the node.\<close>

fun root_args :: "(bytes \<times> bytes) list \<Rightarrow> gquery \<Rightarrow> gquery go" where
  "root_args [] gq = Inr gq"
| "root_args ((k, v) # ps) gq =
     (if k = ''_uid_'' then go_bind (ParseUint0 v) (\<lambda>uid. root_args ps (gq\<lparr>GUID := uid\<rparr>))
      else if k = ''_xid_'' then root_args ps (gq\<lparr>XID := v\<rparr>)
      else Inl (Err ''Expecting _uid_ or _xid_.''))"

definition getRoot :: "item list \<Rightarrow> (item list \<times> gquery) go" where
  "getRoot is =
     (case recv is of (name, is1) \<Rightarrow>
        if Typ name \<noteq> gql_itemName then Inl (Err ''Expected some name.'')
        else
          (case recv is1 of (bracket, is2) \<Rightarrow>
             if Typ bracket \<noteq> gql_itemLeftRound then Inl (Err ''Expected variable start.'')
             else
               let gq = empty_gquery\<lparr>Alias := Val name\<rparr> in
               (case recv is2 of (i, is3) \<Rightarrow>
                  if Typ i = gql_itemGenerator then
                    go_bind (parseFunction is3) (\<lambda>(is4, gen). Inr (is4, gq\<lparr>GFunc := gen\<rparr>))
                  else if Typ i = gql_itemArgument then
                    go_bind (parseArguments is3 []) (\<lambda>(is4, args).
                      go_bind (root_args args gq) (\<lambda>gq'. Inr (is4, gq')))
                  else Inl (Err ''Unexpected root argument.''))))"

fun store_args :: "(bytes \<times> bytes) list \<Rightarrow> gquery \<Rightarrow> gquery go" where
  "store_args [] gq = Inr gq"
| "store_args ((k, v) # ps) gq =
     (if v = [] then Inl (Err ''Got empty argument'')
      else store_args ps (gq\<lparr>Args := AList.update k v (Args gq)\<rparr>))"

text \<open>
  \<open>godeep\<close> calls itself at an opening brace and returns at a closing one: \<open>calls\<close> is the stack of its
  activations, the node \<^verbatim>\<open>gq\<close> and the current node \<^verbatim>\<open>curp\<close> of each.
\<close>

definition godeep_item ::
  "item \<Rightarrow> item list \<Rightarrow> nat \<Rightarrow> nat \<Rightarrow> gnodes \<Rightarrow> (item list \<times> nat \<times> gnodes) go" where
  "godeep_item i is gq curp h =
     (if Typ i = gql_itemFragmentSpread then
        if length (Val i) \<le> 3 then Inl (Err ''Fragment name invalid'')
        else
          (case alloc (empty_gquery\<lparr>fragment := drop 3 (Val i)\<rparr>) h of (a, h1) \<Rightarrow>
             Inr (is, curp, upd gq (\<lambda>g. g\<lparr>Children := Children g @ [a]\<rparr>) h1))
      else if Typ i = gql_itemName then
        (case alloc (empty_gquery\<lparr>GAttr := Val i\<rparr>) h of (a, h1) \<Rightarrow>
           Inr (is, a, upd gq (\<lambda>g. g\<lparr>Children := Children g @ [a]\<rparr>) h1))
      else if Typ i = gql_itemAlias then
        Inr (is, curp, upd curp (\<lambda>g. g\<lparr>Alias := GAttr g, GAttr := Val i\<rparr>) h)
      else if Typ i = gql_itemLeftRound then
        (case recv is of (i2, is1) \<Rightarrow>
           if Typ i2 = gql_itemArgument then
             go_bind (parseArguments is1 []) (\<lambda>(is2, args).
               go_bind (store_args args (h ! curp)) (\<lambda>g. Inr (is2, curp, h[curp := g])))
           else Inr (is1, curp, h))
      else if Typ i = gql_itemDirectiveName then
        if Val i = ''@filter'' then
          go_bind (parseFilter is) (\<lambda>(is1, flt). Inr (is1, curp, upd curp (\<lambda>g. g\<lparr>GFilter := flt\<rparr>) h))
        else Inl (Err ''Unknown directive'')
      else Inr (is, curp, h))"


lemma parseFilter_loop_length:
  "parseFilter_loop is ops vals = Inr (is', ops', vals') \<Longrightarrow> length is' \<le> length is"
proof (induction "is" ops vals rule: parseFilter_loop.induct)
  case (2 i "is" ops vals)
  obtain p is1 where r: "recv is = (p, is1)" by (cases "recv is")
  consider (f) "Typ i = gql_itemFilterFunc" | (l) "Typ i \<noteq> gql_itemFilterFunc" "Typ i = gql_itemLeftRound"
    | (r) "Typ i \<noteq> gql_itemFilterFunc" "Typ i \<noteq> gql_itemLeftRound" "Typ i = gql_itemRightRound"
    | (op) "Typ i \<noteq> gql_itemFilterFunc" "Typ i \<noteq> gql_itemLeftRound" "Typ i \<noteq> gql_itemRightRound"
        "Typ i = gql_itemFilterAnd \<or> Typ i = gql_itemFilterOr"
    | (other) "Typ i \<noteq> gql_itemFilterFunc" "Typ i \<noteq> gql_itemLeftRound" "Typ i \<noteq> gql_itemRightRound"
        "\<not> (Typ i = gql_itemFilterAnd \<or> Typ i = gql_itemFilterOr)" by blast
  then show ?case
  proof cases
    case f
    with 2(6) r obtain is2 g where g: "func_args is1 \<lparr>FAttr = [], FName = Val i, FArgs = []\<rparr> = Inr (True, is2, g)"
      "Typ p = gql_itemLeftRound"
      "parseFilter_loop is2 ops (FilterTree [] (Some g) [] # vals) = Inr (is', ops', vals')"
      by (auto split: if_splits sum.splits)
    have "length is' \<le> length is2"
      using 2(1) [OF f r [symmetric] _ g(1) refl refl] g by simp
    with func_args_length [OF g(1)] recv_length [OF r] show ?thesis by simp
  next
    case l
    with 2(2) 2(6) show ?thesis by simp
  next
    case r
    with 2(6) 2(3) show ?thesis by (fastforce split: sum.splits if_splits)
  next
    case op
    with 2(6) 2(4) show ?thesis by (fastforce simp: Let_def split: sum.splits)
  next
    case other
    with 2(6) 2(5) show ?thesis by simp
  qed
qed simp

lemma parseFilter_length: "parseFilter is = Inr (is', t) \<Longrightarrow> length is' \<le> length is"
  by (auto simp: parseFilter_def go_bind_eq_Inr split: prod.splits if_splits
      dest!: recv_length parseFilter_loop_length)

lemma godeep_item_length: "godeep_item i is gq curp h = Inr (is', curp', h') \<Longrightarrow> length is' \<le> length is"
  by (auto simp: godeep_item_def go_bind_eq_Inr split: prod.splits if_splits
      dest!: recv_length parseFilter_length parseArguments_length)

function godeep :: "item list \<Rightarrow> (nat \<times> nat) list \<Rightarrow> gnodes \<Rightarrow> (item list \<times> gnodes) go" where
  "godeep is [] h = Inr (is, h)"
| "godeep [] (c # calls) h = Inr ([], h)"
| "godeep (i # is) ((gq, curp) # calls) h =
     (if Typ i = ItemError then Inl (Err (Val i))
      else if Typ i = ItemEOF then godeep is calls h
      else if Typ i = gql_itemRightCurl then godeep is calls h
      else if Typ i = gql_itemLeftCurl then godeep is ((curp, curp) # (gq, curp) # calls) h
      else
        (case godeep_item i is gq curp h of
           Inl e \<Rightarrow> Inl e
         | Inr (is', curp', h') \<Rightarrow> godeep is' ((gq, curp') # calls) h'))"
  by pat_completeness auto
termination
  by (relation "measure (\<lambda>(is, calls, h). length is)") (auto dest: godeep_item_length)

lemma godeep_length: "godeep is calls h = Inr (is', h') \<Longrightarrow> length is' \<le> length is"
proof (induction "is" calls h rule: godeep.induct)
  case (3 i "is" gq curp calls h)
  then show ?case
    by (fastforce split: if_splits sum.splits dest: godeep_item_length)
qed simp_all

definition getQuery :: "item list \<Rightarrow> gnodes \<Rightarrow> (item list \<times> nat \<times> gnodes) go" where
  "getQuery is h =
     go_bind (getRoot is) (\<lambda>(is1, gq).
       case alloc gq h of (a, h1) \<Rightarrow>
         (case recv is1 of (i, is2) \<Rightarrow>
            if Typ i = gql_itemLeftCurl then
              go_bind (godeep is2 [(a, a)] h1) (\<lambda>(is3, h2). Inr (is3, a, h2))
            else Inl (Err ''Malformed Query. Missing {'')))"

section \<open>Fragments\<close>

fun fragment_name :: "item list \<Rightarrow> bytes \<Rightarrow> (item list \<times> bytes) go" where
  "fragment_name [] name = Inr ([], name)"
| "fragment_name (i # is) name =
     (if Typ i = gql_itemText then
        (let v = TrimSpace (Val i) in
         fragment_name is (if 0 < length v \<and> name = [] then v else name))
      else if Typ i = gql_itemLeftCurl then Inr (is, name)
      else Inl (Err ''Unexpected item in fragment''))"

definition getFragment :: "item list \<Rightarrow> gnodes \<Rightarrow> (item list \<times> fragmentNode \<times> gnodes) go" where
  "getFragment is h =
     go_bind (fragment_name is []) (\<lambda>(is1, name).
       if name = [] then Inl (Err ''Empty fragment name'')
       else
         (case alloc empty_gquery h of (a, h1) \<Rightarrow>
            go_bind (godeep is1 [(a, a)] h1) (\<lambda>(is2, h2).
              Inr (is2, \<lparr>FragName = name, FragGq = a, Entered = False, Exited = False\<rparr>, h2))))"

definition isFragment :: "gquery \<Rightarrow> bool" where
  "isFragment gq \<longleftrightarrow> fragment gq \<noteq> []"

text \<open>
  The expansion of a fragment and that of a node call each other. \<open>n\<close> bounds the depth of the calls of
  \<open>expandFragments\<close>; the outcome is \<^term>\<open>None\<close> when it is exceeded.
\<close>

definition og_bind :: "'a go option \<Rightarrow> ('a \<Rightarrow> 'b go option) \<Rightarrow> 'b go option" where
  "og_bind m f = (case m of None \<Rightarrow> None | Some (Inl e) \<Rightarrow> Some (Inl e) | Some (Inr x) \<Rightarrow> f x)"

type_synonym gstate = "gnodes \<times> fragmentMap"

definition set_fragment :: "bytes \<Rightarrow> (fragmentNode \<Rightarrow> fragmentNode) \<Rightarrow> fragmentMap \<Rightarrow> fragmentMap" where
  "set_fragment name f fmap = map (\<lambda>(k, fn). (k, if k = name then f fn else fn)) fmap"

definition fragment_expand ::
  "(nat \<Rightarrow> gstate \<Rightarrow> gstate go option) \<Rightarrow> bytes \<Rightarrow> fragmentNode \<Rightarrow> gstate \<Rightarrow> gstate go option" where
  "fragment_expand expand name fn s =
     (case s of (h, fmap) \<Rightarrow>
        if Exited fn then Some (Inr (h, fmap))
        else if Entered fn then Some (Inl (Err ''Cycle detected''))
        else
          og_bind (expand (FragGq fn) (h, set_fragment name (\<lambda>f. f\<lparr>Entered := True\<rparr>) fmap)) (\<lambda>(h1, fmap1).
            Some (Inr (h1, set_fragment name (\<lambda>f. f\<lparr>Exited := True\<rparr>) fmap1))))"

fun expand_children ::
  "(nat \<Rightarrow> gstate \<Rightarrow> gstate go option) \<Rightarrow> nat list \<Rightarrow> nat list \<Rightarrow> gstate \<Rightarrow> (nat list \<times> gstate) go option" where
  "expand_children expand [] newChildren s = Some (Inr (newChildren, s))"
| "expand_children expand (c # cs) newChildren s =
     (let child = fst s ! c in
      if isFragment child then
        (case map_of (snd s) (fragment child) of
           None \<Rightarrow> Some (Inl (Err ''Missing fragment''))
         | Some fchild \<Rightarrow>
             og_bind (fragment_expand expand (fragment child) fchild s) (\<lambda>s1.
               expand_children expand cs (newChildren @ Children (fst s1 ! FragGq fchild)) s1))
      else
        og_bind (expand c s) (\<lambda>s1. expand_children expand cs (newChildren @ [c]) s1))"

primrec expandFragments :: "nat \<Rightarrow> nat \<Rightarrow> gstate \<Rightarrow> gstate go option" where
  "expandFragments 0 a s = None"
| "expandFragments (Suc n) a s =
     og_bind (expand_children (expandFragments n) (Children (fst s ! a)) [] s) (\<lambda>(newChildren, h1, fmap1).
       Some (Inr (upd a (\<lambda>g. g\<lparr>Children := newChildren\<rparr>) h1, fmap1)))"

section \<open>Variables\<close>

definition set_var :: "bytes \<Rightarrow> varInfo \<Rightarrow> varMap \<Rightarrow> varMap" where
  "set_var = AList.update"

text \<open>One turn of the loop: whether it ends, the items left and the variables.\<close>

definition parse_variable :: "item list \<Rightarrow> varMap \<Rightarrow> (bool \<times> item list \<times> varMap) go" where
  "parse_variable is vmap =
     (case recv is of (name, is1) \<Rightarrow>
        if Typ name = gql_itemRightRound then Inr (True, is1, vmap)
        else if Typ name \<noteq> gql_itemVarName then Inl (Err ''Expecting a variable name.'')
        else
          (case recv is1 of (typ, is2) \<Rightarrow>
             if Typ typ \<noteq> gql_itemVarType then Inl (Err ''Expecting a variable type.'')
             else if Val typ = [] then Inl (Err ''Type of a variable can't be empty'')
             else
               let old = (case map_of vmap (Val name) of Some vi \<Rightarrow> VValue vi | None \<Rightarrow> []);
                   vmap1 = set_var (Val name) \<lparr>VValue = old, VType = Val typ\<rparr> vmap in
               (case recv is2 of (i, is3) \<Rightarrow>
                  if Typ i = gql_itemEqual then
                    (case recv is3 of (it, is4) \<Rightarrow>
                       if Typ it \<noteq> gql_itemVarDefault then Inl (Err ''Expecting default value of a variable.'')
                       else if last (Val typ) = CHR 0x21 then Inl (Err ''Type ending with ! can't have default value'')
                       else
                         let vmap2 =
                           (if old = [] then set_var (Val name) \<lparr>VValue = Val it, VType = Val typ\<rparr> vmap1 else vmap1) in
                         (case recv is4 of (i2, is5) \<Rightarrow> Inr (Typ i2 = gql_itemRightRound, is5, vmap2)))
                  else Inr (Typ i = gql_itemRightRound, is3, vmap1))))"

lemma parse_variable_length:
  "parse_variable is vmap = Inr (b, is', vmap') \<Longrightarrow> length is' \<le> length is \<and> (\<not> b \<longrightarrow> length is' < length is)"
proof (cases "is")
  case Nil
  then show "parse_variable is vmap = Inr (b, is', vmap') \<Longrightarrow> ?thesis"
    by (simp add: parse_variable_def gql_items)
next
  case (Cons i is1)
  then show "parse_variable is vmap = Inr (b, is', vmap') \<Longrightarrow> ?thesis"
    by (auto simp: parse_variable_def Let_def split: prod.splits if_splits dest!: recv_length)
qed

function parseVariables :: "item list \<Rightarrow> varMap \<Rightarrow> (item list \<times> varMap) go" where
  "parseVariables is vmap =
     (case parse_variable is vmap of
        Inl e \<Rightarrow> Inl e
      | Inr (ended, is1, vmap1) \<Rightarrow> if ended then Inr (is1, vmap1) else parseVariables is1 vmap1)"
  by pat_completeness auto
termination
  by (relation "measure (\<lambda>(is, vm). length is)") (auto dest!: parse_variable_length)

declare parseVariables.simps [simp del]

definition check_var :: "(bytes \<Rightarrow> u64 go) \<Rightarrow> varInfo \<Rightarrow> unit go" where
  "check_var parseFloat v =
     (let typ = VType v in
      if length typ = 0 then Inl (Err ''Type of variable not specified'')
      else if last typ = CHR 0x21 \<and> VValue v = [] then Inl (Err ''Variable should be initialised'')
      else
        let typ1 = (if last typ = CHR 0x21 then butlast typ else typ) in
        if VValue v = [] then Inr ()
        else if typ1 = ''int'' then
          (case ParseInt0 (VValue v) of Inl e \<Rightarrow> Inl (Err ''Expected an int'') | Inr _ \<Rightarrow> Inr ())
        else if typ1 = ''float'' then
          (case parseFloat (VValue v) of Inl e \<Rightarrow> Inl (Err ''Expected a float'') | Inr _ \<Rightarrow> Inr ())
        else if typ1 = ''bool'' then
          (case ParseBool (VValue v) of Inl e \<Rightarrow> Inl (Err ''Expected a bool'') | Inr _ \<Rightarrow> Inr ())
        else if typ1 = ''string'' then Inr ()
        else Inl (Err ''Type not supported''))"

fun checkValidity :: "(bytes \<Rightarrow> u64 go) \<Rightarrow> varMap \<Rightarrow> unit go" where
  "checkValidity parseFloat [] = Inr ()"
| "checkValidity parseFloat ((k, v) # vm) = go_bind (check_var parseFloat v) (\<lambda>_. checkValidity parseFloat vm)"

fun subst_args :: "varMap \<Rightarrow> (bytes \<times> bytes) list \<Rightarrow> (bytes \<times> bytes) list go" where
  "subst_args vmap [] = Inr []"
| "subst_args vmap ((k, v) # args) =
     (if v = [] then Inl (Panic ''index out of range'')
      else if hd v = CHR ''$'' then
        (case map_of vmap v of
           None \<Rightarrow> Inl (Err ''Variable not defined'')
         | Some va \<Rightarrow> go_bind (subst_args vmap args) (\<lambda>as. Inr ((k, VValue va) # as)))
      else go_bind (subst_args vmap args) (\<lambda>as. Inr ((k, v) # as)))"

fun subst_children :: "(nat \<Rightarrow> gnodes \<Rightarrow> gnodes go option) \<Rightarrow> nat list \<Rightarrow> gnodes \<Rightarrow> gnodes go option" where
  "subst_children subst [] h = Some (Inr h)"
| "subst_children subst (c # cs) h = og_bind (subst c h) (subst_children subst cs)"

primrec substituteVariables :: "nat \<Rightarrow> varMap \<Rightarrow> nat \<Rightarrow> gnodes \<Rightarrow> gnodes go option" where
  "substituteVariables 0 vmap a h = None"
| "substituteVariables (Suc n) vmap a h =
     og_bind (Some (subst_args vmap (Args (h ! a)))) (\<lambda>as.
       let h1 = upd a (\<lambda>g. g\<lparr>Args := as\<rparr>) h in
       subst_children (substituteVariables n vmap) (Children (h1 ! a)) h1)"

section \<open>Mutations\<close>

fun parseMutationOp :: "item list \<Rightarrow> bytes \<Rightarrow> bool \<Rightarrow> mutation \<Rightarrow> (item list \<times> mutation) go" where
  "parseMutationOp [] op parse mu = Inl (Err ''Invalid mutation formatting.'')"
| "parseMutationOp (i # is) op parse mu =
     (if Typ i = gql_itemText then parseMutationOp is op parse mu
      else if Typ i = gql_itemLeftCurl then
        if parse then Inl (Err ''Too many left curls in set mutation.'') else parseMutationOp is op True mu
      else if Typ i = gql_itemMutationContent then
        if \<not> parse then Inl (Err ''Mutation syntax invalid.'')
        else if op = ''set'' then parseMutationOp is op parse (mu\<lparr>MSet := Val i\<rparr>)
        else if op = ''delete'' then parseMutationOp is op parse (mu\<lparr>MDel := Val i\<rparr>)
        else Inl (Err ''Invalid mutation operation.'')
      else if Typ i = gql_itemRightCurl then Inr (is, mu)
      else parseMutationOp is op parse mu)"

lemma parseMutationOp_length: "parseMutationOp is op p mu = Inr (is', mu') \<Longrightarrow> length is' \<le> length is"
  by (induction "is" op p mu rule: parseMutationOp.induct) (force split: if_splits)+

function getMutation_loop :: "item list \<Rightarrow> mutation option \<Rightarrow> (item list \<times> mutation option) go" where
  "getMutation_loop [] mu = Inl (Err ''Invalid mutation.'')"
| "getMutation_loop (i # is) mu =
     (if Typ i = gql_itemText then getMutation_loop is mu
      else if Typ i = gql_itemLeftCurl then getMutation_loop is (Some \<lparr>MSet = [], MDel = []\<rparr>)
      else if Typ i = gql_itemRightCurl then Inr (is, mu)
      else if Typ i = gql_itemMutationOp then
        (case mu of
           None \<Rightarrow> Inl (Err ''Mutation is nil.'')
         | Some m \<Rightarrow>
             (case parseMutationOp is (Val i) False m of
                Inl e \<Rightarrow> Inl e
              | Inr (is', m') \<Rightarrow> getMutation_loop is' (Some m')))
      else getMutation_loop is mu)"
  by pat_completeness auto
termination
  by (relation "measure (\<lambda>(is, mu). length is)") (auto dest: parseMutationOp_length)

definition getMutation :: "item list \<Rightarrow> (item list \<times> mutation option) go" where
  "getMutation is = getMutation_loop is None"

section \<open>The whole input\<close>

lemma parseVariables_length: "parseVariables is vm = Inr (is', vm') \<Longrightarrow> length is' \<le> length is"
proof (induction "is" vm rule: parseVariables.induct)
  case (1 "is" vm)
  obtain e is1 vm1 where p: "parse_variable is vm = Inr (e, is1, vm1)"
    using 1(2) by (auto simp: parseVariables.simps [of "is" vm] split: sum.splits)
  show ?case
  proof (cases e)
    case True
    then show ?thesis using 1(2) p parse_variable_length [OF p] by (simp add: parseVariables.simps [of "is" vm])
  next
    case False
    then have "parseVariables is1 vm1 = Inr (is', vm')" using 1(2) p by (simp add: parseVariables.simps [of "is" vm])
    with 1(1) [OF p refl refl] False parse_variable_length [OF p] show ?thesis by simp
  qed
qed

lemma parseFunction_loop_length: "parseFunction_loop is g = Inr (is', g') \<Longrightarrow> length is' \<le> length is"
proof (induction "is" g rule: parseFunction_loop.induct)
  case (2 i "is" g)
  obtain p is1 where r: "recv is = (p, is1)" by (cases "recv is")
  then show ?case
    using 2 recv_length [OF r]
    by (fastforce split: if_splits sum.splits dest: func_args_length)
qed simp

lemma getRoot_length: "getRoot is = Inr (is', gq) \<Longrightarrow> length is' \<le> length is"
  by (auto simp: getRoot_def parseFunction_def Let_def go_bind_eq_Inr split: prod.splits if_splits
      dest!: recv_length parseFunction_loop_length parseArguments_length)

lemma getQuery_length:
  assumes "getQuery is h = Inr (is', a, h')"
  shows "length is' \<le> length is"
proof -
  from assms obtain is1 gq where 1: "getRoot is = Inr (is1, gq)"
    by (auto simp: getQuery_def go_bind_eq_Inr)
  obtain i is2 where 2: "recv is1 = (i, is2)" by (cases "recv is1")
  from assms 1 2 obtain is3 h2 where "godeep is2 [(length h, length h)] (h @ [gq]) = Inr (is3, h2)" "is' = is3"
    by (auto simp: getQuery_def alloc_def go_bind_eq_Inr split: if_splits)
  with getRoot_length [OF 1] recv_length [OF 2] godeep_length [OF this(1)] show ?thesis by simp
qed

function getVariablesAndQuery_loop ::
  "(bytes \<Rightarrow> u64 go) \<Rightarrow> item list \<Rightarrow> bytes \<Rightarrow> varMap \<Rightarrow> gnodes \<Rightarrow> (item list \<times> nat option \<times> varMap \<times> gnodes) go" where
  "getVariablesAndQuery_loop pf [] name vmap h = Inr ([], None, vmap, h)"
| "getVariablesAndQuery_loop pf (i # is) name vmap h =
     (if Typ i = ItemError then Inl (Err (Val i))
      else if Typ i = gql_itemText then
        if 0 < length (TrimSpace (Val i)) then
          if name \<noteq> [] then Inl (Err ''Multiple word query name not allowed.'')
          else getVariablesAndQuery_loop pf is (Val i) vmap h
        else getVariablesAndQuery_loop pf is name vmap h
      else if Typ i = gql_itemLeftRound then
        if name = [] then Inl (Err ''Variables can be defined only in named queries.'')
        else
          (case parseVariables is vmap of
             Inl e \<Rightarrow> Inl e
           | Inr (is1, vmap1) \<Rightarrow>
               (case checkValidity pf vmap1 of
                  Inl e \<Rightarrow> Inl e
                | Inr _ \<Rightarrow> getVariablesAndQuery_loop pf is1 name vmap1 h))
      else if Typ i = gql_itemLeftCurl then
        go_bind (getQuery is h) (\<lambda>(is1, a, h1). Inr (is1, Some a, vmap, h1))
      else getVariablesAndQuery_loop pf is name vmap h)"
  by pat_completeness auto
termination
  by (relation "measure (\<lambda>(pf, is, name, vm, h). length is)") (auto dest: parseVariables_length)

definition getVariablesAndQuery ::
  "(bytes \<Rightarrow> u64 go) \<Rightarrow> item list \<Rightarrow> varMap \<Rightarrow> gnodes \<Rightarrow> (item list \<times> nat option \<times> varMap \<times> gnodes) go" where
  "getVariablesAndQuery pf is vmap h = getVariablesAndQuery_loop pf is [] vmap h"

text \<open>
  Decoding JSON: the input into the two forms of a query, and the variables given as a string. The
  first decoding yields the query even when it fails, as far as it was read.
\<close>

record json =
  jsonQuery :: "bytes \<Rightarrow> bool \<times> (bytes \<times> bytes) list \<times> bytes"
  jsonQueryAlt :: "bytes \<Rightarrow> (bytes \<times> bytes) option"
  jsonMap :: "bytes \<Rightarrow> (bytes \<times> bytes) list go"

definition parseQueryWithVariables :: "json \<Rightarrow> bytes \<Rightarrow> (bytes \<times> varMap) go" where
  "parseQueryWithVariables js s =
     (let vm = (\<lambda>mp. map (\<lambda>(k, v). (k, \<lparr>VValue = v, VType = []\<rparr>)) mp) in
      case jsonQuery js s of (ok, vars, query) \<Rightarrow>
        if ok then Inr (query, vm vars)
        else
          (case jsonQueryAlt js s of
             None \<Rightarrow> Inr (s, [])
           | Some (vars1, _) \<Rightarrow>
               if vars1 = [] then Inr (query, [])
               else go_bind (jsonMap js vars1) (\<lambda>mp. Inr (query, vm mp))))"

record parsed =
  pGq :: "nat option"
  pMu :: "mutation option"
  pFrags :: fragmentMap
  pVars :: varMap
  pNodes :: gnodes


text \<open>The items of the whole input.\<close>

definition parse_op :: "(bytes \<Rightarrow> u64 go) \<Rightarrow> bytes \<Rightarrow> item list \<Rightarrow> parsed \<Rightarrow> (item list \<times> parsed) go" where
  "parse_op pf v is p =
     (if v = ''mutation'' then
        if pMu p \<noteq> None then Inl (Err ''Only one mutation block allowed.'')
        else go_bind (getMutation is) (\<lambda>(is1, mu). Inr (is1, p\<lparr>pMu := mu\<rparr>))
      else if v = ''fragment'' then
        go_bind (getFragment is (pNodes p)) (\<lambda>(is1, fn, h).
          Inr (is1, p\<lparr>pFrags := AList.update (FragName fn) fn (pFrags p), pNodes := h\<rparr>))
      else if v = ''query'' then
        go_bind (getVariablesAndQuery pf is (pVars p) (pNodes p)) (\<lambda>(is1, gq, vmap, h).
          Inr (is1, p\<lparr>pGq := gq, pVars := vmap, pNodes := h\<rparr>))
      else Inr (is, p))"

lemma getMutation_length: "getMutation_loop is mu = Inr (is', mu') \<Longrightarrow> length is' \<le> length is"
proof (induction "is" mu rule: getMutation_loop.induct)
  case (2 i "is" mu)
  then show ?case
    by (fastforce split: if_splits option.splits sum.splits dest: parseMutationOp_length)
qed simp

lemma fragment_name_length: "fragment_name is n = Inr (is', n') \<Longrightarrow> length is' \<le> length is"
  by (induction "is" n rule: fragment_name.induct) (force simp: Let_def split: if_splits)+

lemma getFragment_length: "getFragment is h = Inr (is', fn, h') \<Longrightarrow> length is' \<le> length is"
  by (auto simp: getFragment_def alloc_def go_bind_eq_Inr split: if_splits
      dest!: fragment_name_length godeep_length)

lemma getVariables_length:
  "getVariablesAndQuery_loop pf is name vm h = Inr (is', gq, vm', h') \<Longrightarrow> length is' \<le> length is"
proof (induction pf "is" name vm h rule: getVariablesAndQuery_loop.induct)
  case (2 pf i "is" name vm h)
  then show ?case
    by (fastforce simp: go_bind_eq_Inr split: if_splits sum.splits dest: parseVariables_length getQuery_length)
qed simp

lemma parse_op_length: "parse_op pf v is p = Inr (is', p') \<Longrightarrow> length is' \<le> length is"
  by (auto simp: parse_op_def getMutation_def getVariablesAndQuery_def go_bind_eq_Inr split: if_splits
      dest: getMutation_length getFragment_length getVariables_length)

function gql_items_loop :: "(bytes \<Rightarrow> u64 go) \<Rightarrow> item list \<Rightarrow> parsed \<Rightarrow> parsed go" where
  "gql_items_loop pf [] p = Inr p"
| "gql_items_loop pf (i # is) p =
     (if Typ i = ItemError then Inl (Err (Val i))
      else if Typ i = gql_itemOpType then
        (case parse_op pf (Val i) is p of
           Inl e \<Rightarrow> Inl e
         | Inr (is1, p1) \<Rightarrow> gql_items_loop pf is1 p1)
      else if Typ i = gql_itemLeftCurl then
        (case getQuery is (pNodes p) of
           Inl e \<Rightarrow> Inl e
         | Inr (is1, a, h) \<Rightarrow> gql_items_loop pf is1 (p\<lparr>pGq := Some a, pNodes := h\<rparr>))
      else gql_items_loop pf is p)"
  by pat_completeness auto
termination
  by (relation "measure (\<lambda>(pf, is, p). length is)") (auto dest: parse_op_length getQuery_length)

text \<open>
  The result: the address of the root of the query, if there is one, the nodes and the mutation. The
  outcome is \<^term>\<open>None\<close> if the lexer does not end or the calls on the nodes get deeper than \<open>n\<close>.
\<close>

definition gql_finish :: "nat \<Rightarrow> parsed \<Rightarrow> (nat option \<times> gnodes \<times> mutation option) go option" where
  "gql_finish n p =
     (case pGq p of
        None \<Rightarrow> Some (Inr (None, pNodes p, pMu p))
      | Some a \<Rightarrow>
          og_bind (expandFragments n a (pNodes p, pFrags p)) (\<lambda>(h1, _).
            og_bind (substituteVariables n (pVars p) a h1) (\<lambda>h2. Some (Inr (Some a, h2, pMu p)))))"

definition gql_Parse ::
  "json \<Rightarrow> (bytes \<Rightarrow> u64 go) \<Rightarrow> nat \<Rightarrow> bytes \<Rightarrow> (nat option \<times> gnodes \<times> mutation option) go option" where
  "gql_Parse js pf n input =
     og_bind (Some (parseQueryWithVariables js input)) (\<lambda>(query, vmap).
       og_bind (gql_run (Lexer_Init query)) (\<lambda>l.
         og_bind (Some (gql_items_loop pf (Items l)
             \<lparr>pGq = None, pMu = None, pFrags = [], pVars = vmap, pNodes = []\<rparr>)) (gql_finish n)))"

section \<open>Filters that are printed are read back\<close>

datatype filter_expr = Leaf gfunction | And filter_expr filter_expr | Or filter_expr filter_expr

fun filter_tree_of :: "filter_expr \<Rightarrow> filter_tree" where
  "filter_tree_of (Leaf f) = FilterTree [] (Some f) []"
| "filter_tree_of (And a b) = FilterTree ''&'' None [filter_tree_of a, filter_tree_of b]"
| "filter_tree_of (Or a b) = FilterTree ''|'' None [filter_tree_of a, filter_tree_of b]"

abbreviation item_of :: "nat \<Rightarrow> bytes \<Rightarrow> item" where
  "item_of t v \<equiv> \<lparr>Typ = t, Val = v\<rparr>"

definition function_items :: "gfunction \<Rightarrow> item list" where
  "function_items f =
     [item_of gql_itemFilterFunc (FName f), item_of gql_itemLeftRound ''('']
     @ map (item_of gql_itemFilterFuncArg) ((if FAttr f = [] then [] else [FAttr f]) @ FArgs f)
     @ [item_of gql_itemRightRound '')'']"

definition in_round :: "item list \<Rightarrow> item list" where
  "in_round is = item_of gql_itemLeftRound ''('' # is @ [item_of gql_itemRightRound '')'']"

text \<open>Both operators associate to the left, and \<^verbatim>\<open>&&\<close> binds tighter than \<^verbatim>\<open>||\<close>; \<open>p\<close> is the precedence of the context.\<close>

fun filter_items :: "nat \<Rightarrow> filter_expr \<Rightarrow> item list" where
  "filter_items p (Leaf f) = function_items f"
| "filter_items p (Or a b) =
     (let is = filter_items 1 a @ item_of gql_itemFilterOr ''||'' # filter_items 2 b in
      if 1 < p then in_round is else is)"
| "filter_items p (And a b) =
     (let is = filter_items 2 a @ item_of gql_itemFilterAnd ''&&'' # filter_items 3 b in
      if 2 < p then in_round is else is)"

text \<open>A function whose arguments can be told from its attribute.\<close>

fun filter_ok :: "filter_expr \<Rightarrow> bool" where
  "filter_ok (Leaf f) \<longleftrightarrow> (FAttr f = [] \<longrightarrow> FArgs f = [])"
| "filter_ok (And a b) \<longleftrightarrow> filter_ok a \<and> filter_ok b"
| "filter_ok (Or a b) \<longleftrightarrow> filter_ok a \<and> filter_ok b"

lemma func_args_read:
  "FAttr f \<noteq> [] \<Longrightarrow>
   func_args (map (item_of gql_itemFilterFuncArg) as @ item_of gql_itemRightRound v # is) f
     = Inr (True, is, f\<lparr>FArgs := FArgs f @ as\<rparr>)"
  by (induction as arbitrary: f) (auto simp: gql_items)

lemma function_read:
  assumes "FAttr f = [] \<longrightarrow> FArgs f = []"
  shows "parseFilter_loop (function_items f @ is) ops vals
    = parseFilter_loop is ops (FilterTree [] (Some f) [] # vals)"
proof (cases "FAttr f = []")
  case True
  then obtain n where f: "f = \<lparr>FAttr = [], FName = n, FArgs = []\<rparr>" using assms by (cases f) simp
  show ?thesis by (simp add: f function_items_def gql_items)
next
  case False
  have "func_args (map (item_of gql_itemFilterFuncArg) (FArgs f) @ item_of gql_itemRightRound '')'' # is)
      \<lparr>FAttr = FAttr f, FName = FName f, FArgs = []\<rparr> = Inr (True, is, f)"
    using False by (subst func_args_read) simp_all
  then show ?thesis using False by (simp add: function_items_def gql_items)
qed

text \<open>
  \<open>reads p is e\<close>: after the items \<open>is\<close> in a context of precedence below \<open>p\<close>, the operators left on the stack
  have at least the precedence \<open>p\<close>, and evaluating them leaves the tree of \<open>e\<close>.
\<close>

definition reads :: "nat \<Rightarrow> item list \<Rightarrow> filter_expr \<Rightarrow> bool" where
  "reads p is e \<longleftrightarrow>
     (\<forall>ops vals js. ops \<noteq> [] \<longrightarrow> filterOpPrecedence (FOp (hd ops)) < p \<longrightarrow>
       (\<exists>ops' vals'. parseFilter_loop (is @ js) ops vals = parseFilter_loop js ops' vals'
         \<and> (\<forall>c. (\<forall>op. p \<le> filterOpPrecedence op \<longrightarrow> c op)
              \<longrightarrow> eval_while c ops' vals' = eval_while c ops (filter_tree_of e # vals))))"

lemma reads_mono:
  assumes "reads q is e" "p \<le> q"
  shows "reads p is e"
  unfolding reads_def
proof (intro allI impI)
  fix ops vals :: filterTreeStack and js
  assume ops: "ops \<noteq> []" "filterOpPrecedence (FOp (hd ops)) < p"
  have "filterOpPrecedence (FOp (hd ops)) < q" using ops(2) assms(2) by simp
  from assms(1) [unfolded reads_def, rule_format, OF ops(1) this, of js vals]
  obtain ops' vals' where l: "parseFilter_loop (is @ js) ops vals = parseFilter_loop js ops' vals'"
    and e: "\<forall>c. (\<forall>op. q \<le> filterOpPrecedence op \<longrightarrow> c op)
      \<longrightarrow> eval_while c ops' vals' = eval_while c ops (filter_tree_of e # vals)"
    by blast
  have "\<forall>c. (\<forall>op. p \<le> filterOpPrecedence op \<longrightarrow> c op)
      \<longrightarrow> eval_while c ops' vals' = eval_while c ops (filter_tree_of e # vals)"
    using e assms(2) by (metis le_trans)
  with l show "\<exists>ops' vals'. parseFilter_loop (is @ js) ops vals = parseFilter_loop js ops' vals'
      \<and> (\<forall>c. (\<forall>op. p \<le> filterOpPrecedence op \<longrightarrow> c op)
        \<longrightarrow> eval_while c ops' vals' = eval_while c ops (filter_tree_of e # vals))" by blast
qed

lemma reads_leaf:
  assumes "FAttr f = [] \<longrightarrow> FArgs f = []"
  shows "reads p (function_items f) (Leaf f)"
  unfolding reads_def filter_tree_of.simps
  by (intro allI impI exI conjI, rule function_read [OF assms], rule refl)

lemma eval_stop: "ops \<noteq> [] \<Longrightarrow> \<not> c (FOp (hd ops)) \<Longrightarrow> eval_while c ops vals = Inr (ops, vals)"
  by (cases ops) simp_all

lemma eval_op: "c (FOp t) \<Longrightarrow> eval_while c (t # ops) (v1 # v2 # vals)
    = eval_while c ops (FilterTree (FOp t) (FFunc t) [v2, v1] # vals)"
  by (simp add: evalStack_def fts_pop_def)

lemma op_prec: "filterOpPrecedence ''&'' = 2" "filterOpPrecedence ''|'' = Suc 0"
  by (simp_all add: filterOpPrecedence_def)

lemma prec_not_round: "1 \<le> filterOpPrecedence op \<Longrightarrow> op \<noteq> ''(''"
  by (auto simp: filterOpPrecedence_def)

lemma reads_round:
  assumes "reads 1 is e"
  shows "reads p (in_round is) e"
  unfolding reads_def
proof (intro allI impI)
  fix ops vals :: filterTreeStack and js
  assume "ops \<noteq> []"
  let ?b = "FilterTree ''('' None []"
  obtain ops' vals' where
    l: "parseFilter_loop (is @ item_of gql_itemRightRound '')'' # js) (?b # ops) vals
      = parseFilter_loop (item_of gql_itemRightRound '')'' # js) ops' vals'"
    and e: "\<forall>c. (\<forall>op. 1 \<le> filterOpPrecedence op \<longrightarrow> c op)
      \<longrightarrow> eval_while c ops' vals' = eval_while c (?b # ops) (filter_tree_of e # vals)"
    using assms [unfolded reads_def, rule_format, of "?b # ops" "item_of gql_itemRightRound '')'' # js" vals]
    by (auto simp: filterOpPrecedence_def)
  have "eval_while (\<lambda>op. op \<noteq> ''('') ops' vals' = Inr (?b # ops, filter_tree_of e # vals)"
    using e [THEN spec, of "\<lambda>op. op \<noteq> ''(''"] prec_not_round by auto
  then have "parseFilter_loop (in_round is @ js) ops vals = parseFilter_loop js ops (filter_tree_of e # vals)"
    using l \<open>ops \<noteq> []\<close> by (simp add: in_round_def gql_items fts_pop_def)
  then show "\<exists>ops' vals'. parseFilter_loop (in_round is @ js) ops vals = parseFilter_loop js ops' vals'
      \<and> (\<forall>c. (\<forall>op. p \<le> filterOpPrecedence op \<longrightarrow> c op)
        \<longrightarrow> eval_while c ops' vals' = eval_while c ops (filter_tree_of e # vals))"
    by blast
qed


text \<open>A binary operator of precedence \<open>q\<close>, between an operand of that precedence and one above it.\<close>

lemma reads_binary:
  assumes t: "t = gql_itemFilterAnd \<and> op = ''&'' \<and> q = 2 \<and> tree_e = And a b
      \<or> t = gql_itemFilterOr \<and> op = ''|'' \<and> q = 1 \<and> tree_e = Or a b"
    and a: "reads q is a" and b: "reads (Suc q) js b"
  shows "reads q (is @ item_of t v # js) tree_e"
  unfolding reads_def
proof (intro allI impI)
  fix ops vals :: filterTreeStack and ks
  assume ops: "ops \<noteq> []" "filterOpPrecedence (FOp (hd ops)) < q"
  have q: "filterOpPrecedence op = q" "0 < q" using t by (auto simp: filterOpPrecedence_def)
  let ?o = "FilterTree op None []"
  obtain ops1 vals1 where
    l1: "parseFilter_loop (is @ item_of t v # js @ ks) ops vals = parseFilter_loop (item_of t v # js @ ks) ops1 vals1"
    and e1: "\<forall>c. (\<forall>op. q \<le> filterOpPrecedence op \<longrightarrow> c op)
      \<longrightarrow> eval_while c ops1 vals1 = eval_while c ops (filter_tree_of a # vals)"
    using a [unfolded reads_def, rule_format, OF ops, of "item_of t v # js @ ks" vals] by blast
  have "eval_while (\<lambda>top. q \<le> filterOpPrecedence top) ops1 vals1
      = eval_while (\<lambda>top. q \<le> filterOpPrecedence top) ops (filter_tree_of a # vals)"
    using e1 by simp
  also have "\<dots> = Inr (ops, filter_tree_of a # vals)" using ops by (intro eval_stop) auto
  finally have l: "parseFilter_loop (item_of t v # js @ ks) ops1 vals1
      = parseFilter_loop (js @ ks) (?o # ops) (filter_tree_of a # vals)"
    using t by (auto simp: gql_items Let_def op_prec)
  obtain ops2 vals2 where
    l2: "parseFilter_loop (js @ ks) (?o # ops) (filter_tree_of a # vals) = parseFilter_loop ks ops2 vals2"
    and e2: "\<forall>c. (\<forall>op. Suc q \<le> filterOpPrecedence op \<longrightarrow> c op)
      \<longrightarrow> eval_while c ops2 vals2 = eval_while c (?o # ops) (filter_tree_of b # filter_tree_of a # vals)"
    using b [unfolded reads_def, rule_format, of "?o # ops" ks "filter_tree_of a # vals"] q by auto
  have "eval_while c ops2 vals2 = eval_while c ops (filter_tree_of tree_e # vals)"
    if "\<forall>op. q \<le> filterOpPrecedence op \<longrightarrow> c op" for c
  proof -
    have "eval_while c ops2 vals2 = eval_while c (?o # ops) (filter_tree_of b # filter_tree_of a # vals)"
      using e2 that by simp
    also have "\<dots> = eval_while c ops (filter_tree_of tree_e # vals)"
      using that q t by (subst eval_op) auto
    finally show ?thesis .
  qed
  moreover have "parseFilter_loop ((is @ item_of t v # js) @ ks) ops vals = parseFilter_loop ks ops2 vals2"
    using l1 l l2 by (simp only: append.simps append_assoc)
  ultimately show "\<exists>ops' vals'. parseFilter_loop ((is @ item_of t v # js) @ ks) ops vals = parseFilter_loop ks ops' vals'
      \<and> (\<forall>c. (\<forall>op. q \<le> filterOpPrecedence op \<longrightarrow> c op)
        \<longrightarrow> eval_while c ops' vals' = eval_while c ops (filter_tree_of tree_e # vals))"
    by blast
qed

lemma filter_items_read: "filter_ok e \<Longrightarrow> 1 \<le> p \<Longrightarrow> reads p (filter_items p e) e"
proof (induction e arbitrary: p)
  case (Leaf f)
  then show ?case by (simp add: reads_leaf)
next
  case (And a b)
  have "reads 2 (filter_items 2 a @ item_of gql_itemFilterAnd ''&&'' # filter_items 3 b) (And a b)"
    by (rule reads_binary [of _ "''&''" _ _ a b]) (use And in auto)
  then show ?case
    using reads_mono [of 2 _ "And a b" 1] reads_mono [of 2 _ "And a b" p] by (auto simp: Let_def intro: reads_round)
next
  case (Or a b)
  have "reads 1 (filter_items 1 a @ item_of gql_itemFilterOr ''||'' # filter_items 2 b) (Or a b)"
    by (rule reads_binary [of _ "''|''" _ _ a b]) (use Or in \<open>auto simp: numeral_2_eq_2\<close>)
  then show ?case
    using reads_mono [of 1 _ "Or a b" p] by (auto simp: Let_def intro: reads_round)
qed

text \<open>
  C38: a filter that is printed with round brackets only where the precedences and the associativity of
  \<^verbatim>\<open>&&\<close> and \<^verbatim>\<open>||\<close> require them is parsed back to the tree of that filter, and the items after it are left.
\<close>

theorem parse_filter_correct:
  assumes "filter_ok e"
  shows "parseFilter (item_of gql_itemLeftRound ''('' # filter_items 1 e @ item_of gql_itemRightRound '')'' # is)
    = Inr (is, Some (filter_tree_of e))"
proof -
  let ?b = "FilterTree ''('' None []" and ?r = "item_of gql_itemRightRound '')''"
  have "reads 1 (filter_items 1 e) e" by (rule filter_items_read [OF assms]) simp
  from this [unfolded reads_def, rule_format, of "[?b]" "?r # is" "[]"]
  obtain ops' vals' where
    l: "parseFilter_loop (filter_items 1 e @ ?r # is) [?b] [] = parseFilter_loop (?r # is) ops' vals'"
    and ev: "\<forall>c. (\<forall>op. 1 \<le> filterOpPrecedence op \<longrightarrow> c op)
      \<longrightarrow> eval_while c ops' vals' = eval_while c [?b] [filter_tree_of e]"
    by (auto simp: filterOpPrecedence_def)
  have "eval_while (\<lambda>op. op \<noteq> ''('') ops' vals' = Inr ([?b], [filter_tree_of e])"
    using ev [THEN spec, of "\<lambda>op. op \<noteq> ''(''"] prec_not_round by auto
  then have "parseFilter_loop (?r # is) ops' vals' = Inr (is, [], [filter_tree_of e])"
    by (simp add: gql_items fts_pop_def)
  with l show ?thesis by (simp add: parseFilter_def fts_pop_def)
qed


definition sample_filter :: filter_expr where
  "sample_filter =
     And (Or (Leaf \<lparr>FAttr = ''name'', FName = ''eq'', FArgs = [''a'']\<rparr>)
             (And (Leaf \<lparr>FAttr = [], FName = ''f'', FArgs = []\<rparr>) (Leaf \<lparr>FAttr = ''x'', FName = ''g'', FArgs = []\<rparr>)))
         (Leaf \<lparr>FAttr = ''age'', FName = ''leq'', FArgs = [''1'', ''2'']\<rparr>)"

theorem parse_filter_correct_witness:
  "filter_ok sample_filter
   \<and> parseFilter (item_of gql_itemLeftRound ''('' # filter_items 1 sample_filter
       @ item_of gql_itemRightRound '')'' # []) = Inr ([], Some (filter_tree_of sample_filter))"
proof -
  have "filter_ok sample_filter" by code_simp
  with parse_filter_correct [of sample_filter "[]"] show ?thesis by simp
qed

section \<open>Inputs that end the server\<close>

definition no_json :: json where
  "no_json =
     \<lparr>jsonQuery = (\<lambda>s. (False, [], [])), jsonQueryAlt = (\<lambda>s. None), jsonMap = (\<lambda>s. Inl (Err []))\<rparr>"


end
