(* ===== verification/Spec2Isabelle.thy ===== *)
theory Spec2Isabelle
  imports Uid_Lists Posting_Codec Posting_List Group_Conf Uid_Assign Raft_Wal List_Cache Index_Maintenance
    Mutation_Routing Geo_Index Worker_Task Rdf Schema_Parser Gql_Parser
begin

text \<open>
  A verification development for Dgraph, a distributed graph database written in Go (version 1.7 of the
  language). File names below are relative to \<^verbatim>\<open>src/\<close>.

  \<^bold>\<open>The program.\<close> An edge \<^emph>\<open>subject, predicate, object\<close> is kept in the posting list of its subject and
  predicate; values of indexed predicates also have posting lists for their tokens. Posting lists live in
  RocksDB and in a cache that merges and evicts them. Predicates are divided into groups, each replicated
  by Raft; a server routes mutations and uid requests to the groups and runs tasks and sorts for queries.
  Text enters through three parsers: N-Quads, schema files and queries.

  \<^bold>\<open>Conventions.\<close> Strings and byte slices are \<open>bytes\<close>, machine integers are words of their width, a
  \<open>float64\<close> is its 64 bits. A call returns \<open>'a go\<close>: a value, a returned error (\<open>Err\<close>), the end of the process
  by a failed assertion (\<open>Fatal\<close>) or a runtime panic (\<open>Panic\<close>). State is passed explicitly; shared nodes and
  lists are cells of an explicit heap. Locks are left out and goroutines are steps of one sequence.

  \<^bold>\<open>Go itself.\<close> \<open>Go_Prelude\<close> (outcomes, \<^verbatim>\<open>sort.Search\<close>, sorted lists), \<open>Go_Binary\<close>, \<open>Go_Heap\<close>, \<open>Go_Utf8\<close>,
  \<open>Go_Strings\<close>, \<open>Go_Strconv\<close>, \<open>Go_Time\<close> and \<open>Go_Float\<close> model what the program uses of the standard library.

  \<^bold>\<open>Storage.\<close> \<open>Uid_Lists\<close> (\<^verbatim>\<open>algo\<close>): merging, intersecting and searching against sets. \<open>Kv_Store\<close>
  (\<^verbatim>\<open>store/store.go\<close>): the contract \<open>ordered_kv\<close> in place of RocksDB. \<open>Posting_Codec\<close>
  (\<^verbatim>\<open>posting/types/types.pb.go\<close>): encoding round trips. \<open>Posting_List\<close> (\<^verbatim>\<open>posting/list.go\<close>): both layers of a
  list refine a map from uids to contents, and commits are durable. \<open>List_Map\<close> and \<open>List_Cache\<close>
  (\<^verbatim>\<open>posting/hash.go\<close>, \<^verbatim>\<open>posting/lists.go\<close>): merging and eviction are invisible and reference counts exact.
  \<open>Raft_Wal\<close> (\<^verbatim>\<open>raftwal/wal.go\<close>): what can be read after a store.

  \<^bold>\<open>Values and index.\<close> \<open>Scalar_Types\<close> (\<^verbatim>\<open>types\<close>): encodings, conversions and sorting. \<open>Schema_Info\<close>
  (\<^verbatim>\<open>schema/schema.go\<close>). \<open>Token_Index\<close> (\<^verbatim>\<open>types/index.go\<close> and the tables of \<^verbatim>\<open>posting/index.go\<close>).
  \<open>Index_Maintenance\<close> (the mutations of \<^verbatim>\<open>posting/index.go\<close>): every mutation keeps the index exact.
  \<open>Geo_Index\<close> (\<^verbatim>\<open>geo\<close>): an object that matches a query shares a token with it.

  \<^bold>\<open>Cluster.\<close> \<open>Group_Conf\<close> (\<^verbatim>\<open>group/conf.go\<close>), \<open>Uid_Assign\<close> (\<^verbatim>\<open>uid/assigner.go\<close>), \<open>Conn_Pool\<close>
  (\<^verbatim>\<open>worker/conn.go\<close>) and \<open>Membership\<close> (\<^verbatim>\<open>worker/groups.go\<close>): the tables of servers refine maps, and a
  synchronisation brings a server up to date except for a lost leadership. \<open>Mutation_Routing\<close>
  (\<^verbatim>\<open>worker/mutation.go\<close>, \<^verbatim>\<open>worker/assign.go\<close>): every edge reaches its group once and is applied. \<open>Worker_Task\<close>
  (\<^verbatim>\<open>worker/task.go\<close>, \<^verbatim>\<open>worker/tokens.go\<close>, \<^verbatim>\<open>worker/sort.go\<close>): a task reads the stored lists; over an exact
  index, functions on terms and geometries find exactly the entities asked for; a sort returns its window.

  \<^bold>\<open>Parsers.\<close> \<open>Lexer\<close> (\<^verbatim>\<open>lex/lexer.go\<close>) with the contract \<open>lexer_states\<close>, interpreted by \<open>Rdf\<close> (\<^verbatim>\<open>rdf\<close>),
  \<open>Schema_Parser\<close> (\<^verbatim>\<open>schema/state.go\<close>, \<^verbatim>\<open>schema/parse.go\<close>) and \<open>Gql_Lexer\<close> with \<open>Gql_Parser\<close> (\<^verbatim>\<open>gql\<close>): the lexers
  end on every input, printed N-Quads and schemas are parsed back, filters obey the precedence of their
  operators, and some queries end the server.

  \<^bold>\<open>Loops without a bound.\<close> The loop of a lexer and the redirections of a synchronisation are partial
  functions with \<^term>\<open>None\<close> for not returning. The lexers are proved to return on every input; the
  synchronisation returns when the server asked answers, while servers that redirect to each other for
  ever are not excluded. The allocation of a uid reads a
  list of random numbers and is \<^term>\<open>None\<close> when that runs out. A sort has as many steps as its table has
  tokens, which is proved to be enough. The expansion of fragments and the substitution of variables have
  a bound on their depth, because fragments can make a query cyclic.

  \<^bold>\<open>Code outside the repository\<close> is a parameter, with its documented behaviour as hypotheses: RocksDB, the
  Raft library and its messages, gRPC, the fingerprints of \<^verbatim>\<open>farm\<close>, the ICU tokenizer, the S2 library,
  \<^verbatim>\<open>go-geom\<close>, JSON, and the formats of floats and times. The properties of cached lists assume that the
  fingerprints of the keys in use do not collide.

  \<^bold>\<open>Not modelled.\<close> Query execution and its output (\<^verbatim>\<open>query\<close>): a tree of subgraphs filled by goroutines, and
  encoders to JSON and protocol buffers; only the tasks and sorts that it calls are here. The loop of a Raft
  node (\<^verbatim>\<open>worker/draft.go\<close> beyond \<^verbatim>\<open>newNode\<close> and \<^verbatim>\<open>AmLeader\<close>): it drives the Raft library, and proposals are
  parameters instead. \<^verbatim>\<open>StartRaftNodes\<close>, the timers, and the connection that a membership update opens in the
  background. Backups and the transfer of predicates (\<^verbatim>\<open>worker/backup.go\<close>, \<^verbatim>\<open>worker/predicate.go\<close>): streams over
  RocksDB iterators. The bindings of RocksDB and ICU (\<^verbatim>\<open>rdb\<close>, \<^verbatim>\<open>tok\<close>): calls into C++. The loader, the servers and
  the tools (\<^verbatim>\<open>loader\<close>, \<^verbatim>\<open>cmd\<close>): files, flags, HTTP and process start. Helpers of \<^verbatim>\<open>x\<close>: their checks are the
  outcomes above. JSON forms of values, printers, metrics and traces.
\<close>


end
